theory Spec2Isabelle
  imports Main "HOL-Library.Word"
begin

unbundle bit_operations_syntax

section \<open>Common types\<close>

text \<open>
  \<^verbatim>\<open>frame_id_t\<close> and \<^verbatim>\<open>page_id_t\<close> are \<^verbatim>\<open>int32_t\<close>, read as signed values
  with \<open>sint\<close> and compared with \<open><s\<close>; \<^verbatim>\<open>size_t\<close> is a 64-bit unsigned word and
  \<^verbatim>\<open>uint32_t\<close>, \<^verbatim>\<open>uint8_t\<close> are 32-bit and 8-bit unsigned words. Arithmetic on
  words wraps around as the unsigned C++ arithmetic does.
\<close>

type_synonym frame_id_t = "32 word"
type_synonym page_id_t = "32 word"
type_synonym size_t = "64 word"
type_synonym uint32_t = "32 word"
type_synonym uint8_t = "8 word"

definition INVALID_PAGE_ID :: page_id_t where
  "INVALID_PAGE_ID = - 1"

text \<open>
  The outcome of a call: it returns a value and leaves a state, or it throws a C++
  exception (the state is the one the throw leaves behind), or a failed \<^verbatim>\<open>assert\<close>
  aborts the process, or the call runs into undefined behaviour (an array access out of
  bounds, an iterator erased from a list it does not belong to, a shift by a negative
  amount).
\<close>

datatype exn = InvalidArgument | LogicError

datatype ('r, 's) outcome = Returns 'r 's | Throws exn 's | Aborts | Undefined

section \<open>Directory page of the extendible hash table\<close>

text \<open>
  The two arrays of the page have \<^verbatim>\<open>HTABLE_DIRECTORY_ARRAY_SIZE\<close> slots; the constant
  is declared in a header that is not part of the sources at hand, so the model takes
  it as the length of the two lists.
\<close>

record ExtendibleHTableDirectoryPage =
  max_depth :: uint32_t
  global_depth :: uint32_t
  local_depths :: "uint8_t list"
  bucket_page_ids :: "page_id_t list"

definition zero_directory :: "nat \<Rightarrow> ExtendibleHTableDirectoryPage" where
  "zero_directory array_size =
     \<lparr>max_depth = 0, global_depth = 0,
      local_depths = replicate array_size 0,
      bucket_page_ids = replicate array_size 0\<rparr>"

definition Init_directory ::
  "uint32_t \<Rightarrow> ExtendibleHTableDirectoryPage \<Rightarrow> ExtendibleHTableDirectoryPage" where
  "Init_directory md d =
     d\<lparr>max_depth := md, global_depth := 0,
       bucket_page_ids := replicate (length (bucket_page_ids d)) INVALID_PAGE_ID,
       local_depths := replicate (length (local_depths d)) 0\<rparr>"

definition GetGlobalDepth :: "ExtendibleHTableDirectoryPage \<Rightarrow> uint32_t" where
  "GetGlobalDepth d = global_depth d"

text \<open>\<^verbatim>\<open>Size()\<close> is \<^verbatim>\<open>1 << global_depth\<close>, an \<^verbatim>\<open>int\<close> shift converted to \<^verbatim>\<open>uint32_t\<close>.\<close>

definition Size_directory :: "ExtendibleHTableDirectoryPage \<Rightarrow> uint32_t" where
  "Size_directory d = push_bit (unat (global_depth d)) 1"

text \<open>
  The loop of \<^verbatim>\<open>IncrGlobalDepth\<close>: for each \<open>i\<close> of the list, slot \<open>base + i\<close> of both
  arrays receives slot \<open>i\<close>. A write past the end of an array is undefined behaviour
  (\<open>None\<close>).
\<close>

fun copy_slots ::
  "nat list \<Rightarrow> nat \<Rightarrow> ExtendibleHTableDirectoryPage \<Rightarrow> ExtendibleHTableDirectoryPage option" where
  "copy_slots [] base d = Some d"
| "copy_slots (i # is) base d =
     (if base + i < length (bucket_page_ids d) \<and> base + i < length (local_depths d)
      then copy_slots is base
             (d\<lparr>bucket_page_ids := (bucket_page_ids d)[base + i := bucket_page_ids d ! i],
                local_depths := (local_depths d)[base + i := local_depths d ! i]\<rparr>)
      else None)"

text \<open>
  \<^verbatim>\<open>IncrGlobalDepth\<close> returns early only when \<^verbatim>\<open>global_depth > max_depth\<close>. The shift
  \<^verbatim>\<open>1 << global_depth\<close> is an \<^verbatim>\<open>int\<close> shift, undefined from 31 bits on.
\<close>

definition IncrGlobalDepth ::
  "ExtendibleHTableDirectoryPage \<Rightarrow> ExtendibleHTableDirectoryPage option" where
  "IncrGlobalDepth d =
     (if global_depth d > max_depth d then Some d
      else if unat (global_depth d) \<ge> 31 then None
      else (case copy_slots [0 ..< 2 ^ unat (global_depth d)] (2 ^ unat (global_depth d)) d of
              None \<Rightarrow> None
            | Some d' \<Rightarrow> Some (d'\<lparr>global_depth := global_depth d' + 1\<rparr>)))"

definition DecrGlobalDepth :: "ExtendibleHTableDirectoryPage \<Rightarrow> ExtendibleHTableDirectoryPage" where
  "DecrGlobalDepth d =
     (if global_depth d \<le> 0 then d else d\<lparr>global_depth := global_depth d - 1\<rparr>)"

section \<open>LRU-K replacer\<close>

text \<open>
  A node of the replacer holds the access count \<^verbatim>\<open>k_\<close> and the flag
  \<^verbatim>\<open>is_evictable_\<close>. Its third member \<^verbatim>\<open>pos_\<close> is the iterator to the frame's own cell
  in \<^verbatim>\<open>hist_list_\<close> or \<^verbatim>\<open>cache_list_\<close>; the model keeps the frame ids in the two
  lists (front of the \<^verbatim>\<open>std::list\<close> first) and erases by value. Erasing \<^verbatim>\<open>pos_\<close> from
  the list that does not hold the frame is undefined behaviour in C++ and is the outcome
  \<open>Undefined\<close> here. The mutex \<^verbatim>\<open>latch_\<close> orders concurrent callers and has no
  counterpart in this sequential model.
\<close>

record LRUKNode =
  node_k :: size_t
  is_evictable :: bool

record LRUKReplacer =
  node_store :: "frame_id_t \<rightharpoonup> LRUKNode"
  hist_list :: "frame_id_t list"
  cache_list :: "frame_id_t list"
  curr_size :: size_t
  replacer_size :: size_t
  replacer_k :: size_t

definition new_LRUKReplacer :: "size_t \<Rightarrow> size_t \<Rightarrow> LRUKReplacer" where
  "new_LRUKReplacer num_frames k =
     \<lparr>node_store = Map.empty, hist_list = [], cache_list = [], curr_size = 0,
      replacer_size = num_frames, replacer_k = k\<rparr>"

text \<open>
  \<^verbatim>\<open>node_store_[f]\<close> on a \<^verbatim>\<open>std::unordered_map\<close> inserts a value-initialised node when
  \<open>f\<close> has none: count 0, not evictable.
\<close>

definition default_node :: LRUKNode where
  "default_node = \<lparr>node_k = 0, is_evictable = False\<rparr>"

definition subscript :: "(frame_id_t \<rightharpoonup> LRUKNode) \<Rightarrow> frame_id_t \<Rightarrow> (frame_id_t \<rightharpoonup> LRUKNode)" where
  "subscript ns f = (case ns f of None \<Rightarrow> ns(f \<mapsto> default_node) | Some n \<Rightarrow> ns)"

definition node_at :: "(frame_id_t \<rightharpoonup> LRUKNode) \<Rightarrow> frame_id_t \<Rightarrow> LRUKNode" where
  "node_at ns f = (case ns f of None \<Rightarrow> default_node | Some n \<Rightarrow> n)"

text \<open>
  One reverse scan of \<^verbatim>\<open>Evict\<close>. The list is given tail first (\<open>rev\<close> of the list);
  the result is the victim if there is one, the list without the erased cell (still
  tail first) and the node store, which \<^verbatim>\<open>node_store_[*rit]\<close> may have extended.
\<close>

fun scan_victim ::
  "frame_id_t list \<Rightarrow> (frame_id_t \<rightharpoonup> LRUKNode) \<Rightarrow>
     frame_id_t option \<times> frame_id_t list \<times> (frame_id_t \<rightharpoonup> LRUKNode)" where
  "scan_victim [] ns = (None, [], ns)"
| "scan_victim (f # fs) ns =
     (if is_evictable (node_at ns f) then (Some f, fs, subscript ns f)
      else (case scan_victim fs (subscript ns f) of
              (v, fs', ns') \<Rightarrow> (v, f # fs', ns')))"

definition Evict :: "LRUKReplacer \<Rightarrow> frame_id_t option \<times> LRUKReplacer" where
  "Evict r =
     (case scan_victim (rev (hist_list r)) (node_store r) of
        (Some f, h, ns) \<Rightarrow>
          (Some f, r\<lparr>hist_list := rev h, node_store := ns(f := None), curr_size := curr_size r - 1\<rparr>)
      | (None, h, ns) \<Rightarrow>
          (case scan_victim (rev (cache_list r)) ns of
             (Some f, c, ns') \<Rightarrow>
               (Some f, r\<lparr>cache_list := rev c, node_store := ns'(f := None),
                           curr_size := curr_size r - 1\<rparr>)
           | (None, c, ns') \<Rightarrow> (None, r\<lparr>node_store := ns'\<rparr>)))"

text \<open>
  The validity check of \<^verbatim>\<open>RecordAccess\<close> and \<^verbatim>\<open>SetEvictable\<close> is
  \<^verbatim>\<open>frame_id > static_cast<int>(replacer_size_)\<close>: a signed comparison with the low 32
  bits of the size.
\<close>

definition invalid_frame :: "LRUKReplacer \<Rightarrow> frame_id_t \<Rightarrow> bool" where
  "invalid_frame r frame_id \<longleftrightarrow> (ucast (replacer_size r) :: 32 word) <s frame_id"

definition RecordAccess :: "LRUKReplacer \<Rightarrow> frame_id_t \<Rightarrow> (unit, LRUKReplacer) outcome" where
  "RecordAccess r frame_id =
     (if invalid_frame r frame_id then Throws InvalidArgument r
      else
        let new_count = node_k (node_at (node_store r) frame_id) + 1;
            ns = (node_store r)(frame_id \<mapsto> (node_at (node_store r) frame_id)\<lparr>node_k := new_count\<rparr>);
            r1 = r\<lparr>node_store := ns\<rparr>
        in if new_count = 1 then Returns () (r1\<lparr>hist_list := frame_id # hist_list r\<rparr>)
           else if new_count = replacer_k r then
             (if frame_id \<in> set (hist_list r)
              then Returns () (r1\<lparr>hist_list := remove1 frame_id (hist_list r),
                                   cache_list := frame_id # cache_list r\<rparr>)
              else Undefined)
           else if new_count > replacer_k r then
             (if frame_id \<in> set (cache_list r)
              then Returns () (r1\<lparr>cache_list := frame_id # remove1 frame_id (cache_list r)\<rparr>)
              else Undefined)
           else Returns () r1)"

definition SetEvictable :: "LRUKReplacer \<Rightarrow> frame_id_t \<Rightarrow> bool \<Rightarrow> (unit, LRUKReplacer) outcome" where
  "SetEvictable r frame_id set_evictable =
     (if invalid_frame r frame_id then Throws InvalidArgument r
      else (case node_store r frame_id of
              None \<Rightarrow> Returns () r
            | Some n \<Rightarrow>
                Returns ()
                  (r\<lparr>curr_size :=
                       (if set_evictable \<and> \<not> is_evictable n then curr_size r + 1
                        else if is_evictable n \<and> \<not> set_evictable then curr_size r - 1
                        else curr_size r),
                     node_store := (node_store r)(frame_id \<mapsto> n\<lparr>is_evictable := set_evictable\<rparr>)\<rparr>)))"

definition Remove_frame :: "LRUKReplacer \<Rightarrow> frame_id_t \<Rightarrow> (unit, LRUKReplacer) outcome" where
  "Remove_frame r frame_id =
     (case node_store r frame_id of
        None \<Rightarrow> Returns () r
      | Some n \<Rightarrow>
          if \<not> is_evictable n then Throws LogicError r
          else if node_k n < replacer_k r then
            (if frame_id \<in> set (hist_list r)
             then Returns () (r\<lparr>hist_list := remove1 frame_id (hist_list r),
                                 curr_size := curr_size r - 1,
                                 node_store := (node_store r)(frame_id := None)\<rparr>)
             else Undefined)
          else
            (if frame_id \<in> set (cache_list r)
             then Returns () (r\<lparr>cache_list := remove1 frame_id (cache_list r),
                                 curr_size := curr_size r - 1,
                                 node_store := (node_store r)(frame_id := None)\<rparr>)
             else Undefined))"

definition Size_replacer :: "LRUKReplacer \<Rightarrow> size_t" where
  "Size_replacer r = curr_size r"

text \<open>
  Sequences of calls on a replacer. A caller may catch an exception and go on with the
  state the throw left; after undefined behaviour there is no state to speak of
  (\<open>None\<close>).
\<close>

datatype replacer_op =
  OpRecordAccess frame_id_t | OpSetEvictable frame_id_t bool | OpEvict | OpRemove frame_id_t

definition after :: "(unit, LRUKReplacer) outcome \<Rightarrow> LRUKReplacer option" where
  "after out = (case out of Returns u r \<Rightarrow> Some r | Throws e r \<Rightarrow> Some r
                | Aborts \<Rightarrow> None | Undefined \<Rightarrow> None)"

fun replacer_step :: "LRUKReplacer \<Rightarrow> replacer_op \<Rightarrow> LRUKReplacer option" where
  "replacer_step r (OpRecordAccess f) = after (RecordAccess r f)"
| "replacer_step r (OpSetEvictable f b) = after (SetEvictable r f b)"
| "replacer_step r OpEvict = Some (snd (Evict r))"
| "replacer_step r (OpRemove f) = after (Remove_frame r f)"

fun replacer_run :: "LRUKReplacer \<Rightarrow> replacer_op list \<Rightarrow> LRUKReplacer option" where
  "replacer_run r [] = Some r"
| "replacer_run r (op # ops) =
     (case replacer_step r op of None \<Rightarrow> None | Some r' \<Rightarrow> replacer_run r' ops)"

definition evictable_frames :: "LRUKReplacer \<Rightarrow> frame_id_t set" where
  "evictable_frames r = {f. \<exists>n. node_store r f = Some n \<and> is_evictable n}"

text \<open>The node store after \<^verbatim>\<open>node_store_[f]\<close> has been evaluated for each \<open>f\<close> of a list.\<close>

definition subscript_all ::
  "frame_id_t list \<Rightarrow> (frame_id_t \<rightharpoonup> LRUKNode) \<Rightarrow> (frame_id_t \<rightharpoonup> LRUKNode)" where
  "subscript_all fs ns = fold (\<lambda>f m. subscript m f) fs ns"

section \<open>Buffer pool manager\<close>

text \<open>
  A frame of the pool is a \<^verbatim>\<open>Page\<close> object: its bytes and its metadata. The pin count
  is an \<^verbatim>\<open>int\<close>; it is modelled as an unbounded integer (signed overflow would be
  undefined behaviour, 2^31 pins away). \<^verbatim>\<open>ResetMemory\<close> zeroes the bytes.
\<close>

record Page =
  data :: "uint8_t list"
  page_id :: page_id_t
  pin_count :: int
  is_dirty :: bool

definition ResetMemory :: "Page \<Rightarrow> Page" where
  "ResetMemory p = p\<lparr>data := replicate (length (data p)) 0\<rparr>"

text \<open>
  The state of the pool. The disk scheduler passes each request to the disk manager
  on a worker thread and then fulfils the promise of the request, and the pool waits
  for that promise right after every request it schedules; so in this sequential model
  a request is the call of \<^verbatim>\<open>WritePage\<close> or \<^verbatim>\<open>ReadPage\<close> of the disk manager. The disk
  manager is not part of the sources at hand.

  Modelled from the spec: the device reads and writes a fixed-size block by page id; so
  \<open>disk\<close> maps a page id to the bytes last written, a write request stores the frame's
  bytes there and a read request copies them into the frame. The pool-wide mutex has
  no counterpart in this sequential model.
\<close>

record BufferPoolManager =
  pool_size :: size_t
  pages :: "Page list"
  page_table :: "page_id_t \<rightharpoonup> frame_id_t"
  free_list :: "frame_id_t list"
  replacer :: LRUKReplacer
  next_page_id :: page_id_t
  disk :: "page_id_t \<Rightarrow> uint8_t list"

text \<open>
  The constructor; \<open>page_bytes\<close> stands for \<^verbatim>\<open>BUSTUB_PAGE_SIZE\<close>, a constant of a
  header that is not at hand. A fresh \<^verbatim>\<open>Page\<close> is zeroed, has the invalid page id, pin
  count 0 and is clean.
\<close>

definition new_Page :: "nat \<Rightarrow> Page" where
  "new_Page page_bytes =
     \<lparr>data = replicate page_bytes 0, page_id = INVALID_PAGE_ID, pin_count = 0, is_dirty = False\<rparr>"

definition new_BufferPoolManager ::
  "nat \<Rightarrow> size_t \<Rightarrow> size_t \<Rightarrow> (page_id_t \<Rightarrow> uint8_t list) \<Rightarrow> BufferPoolManager" where
  "new_BufferPoolManager page_bytes psize replacer_k_arg dsk =
     \<lparr>pool_size = psize,
      pages = replicate (unat psize) (new_Page page_bytes),
      page_table = Map.empty,
      free_list = map of_nat [0 ..< unat psize],
      replacer = new_LRUKReplacer psize replacer_k_arg,
      next_page_id = 0,
      disk = dsk\<rparr>"

text \<open>\<^verbatim>\<open>pages_ + frame_id\<close>: the index of the frame, undefined outside the array.\<close>

definition frame_index :: "BufferPoolManager \<Rightarrow> frame_id_t \<Rightarrow> nat option" where
  "frame_index s f =
     (if 0 \<le> sint f \<and> nat (sint f) < length (pages s) then Some (nat (sint f)) else None)"

text \<open>\<^verbatim>\<open>std::unordered_map::emplace\<close> keeps an existing entry.\<close>

definition emplace :: "('a \<rightharpoonup> 'b) \<Rightarrow> 'a \<Rightarrow> 'b \<Rightarrow> ('a \<rightharpoonup> 'b)" where
  "emplace m k v = (case m k of None \<Rightarrow> m(k \<mapsto> v) | Some w \<Rightarrow> m)"

text \<open>A call into the replacer from the pool: an exception passes through the pool.\<close>

definition with_replacer ::
  "(unit, LRUKReplacer) outcome \<Rightarrow> BufferPoolManager \<Rightarrow>
     (BufferPoolManager \<Rightarrow> ('r, BufferPoolManager) outcome) \<Rightarrow> ('r, BufferPoolManager) outcome" where
  "with_replacer out s cont =
     (case out of
        Returns u r \<Rightarrow> cont (s\<lparr>replacer := r\<rparr>)
      | Throws e r \<Rightarrow> Throws e (s\<lparr>replacer := r\<rparr>)
      | Aborts \<Rightarrow> Aborts
      | Undefined \<Rightarrow> Undefined)"

text \<open>
  The first lines of \<^verbatim>\<open>NewPage\<close> and of the miss path of \<^verbatim>\<open>FetchPage\<close> are the same:
  take the back of the free list, or else ask the replacer for a victim.
\<close>

definition obtain_frame :: "BufferPoolManager \<Rightarrow> frame_id_t option \<times> BufferPoolManager" where
  "obtain_frame s =
     (if free_list s \<noteq> [] then (Some (last (free_list s)), s\<lparr>free_list := butlast (free_list s)\<rparr>)
      else (case Evict (replacer s) of (v, r) \<Rightarrow> (v, s\<lparr>replacer := r\<rparr>)))"

text \<open>The write-back of a dirty frame, awaited, and the flag cleared.\<close>

definition write_back :: "nat \<Rightarrow> BufferPoolManager \<Rightarrow> BufferPoolManager" where
  "write_back i s =
     (let p = pages s ! i in
      if is_dirty p
      then s\<lparr>disk := (disk s)(page_id p := data p), pages := (pages s)[i := p\<lparr>is_dirty := False\<rparr>]\<rparr>
      else s)"

definition NewPage :: "BufferPoolManager \<Rightarrow> ((page_id_t \<times> frame_id_t) option, BufferPoolManager) outcome" where
  "NewPage s =
     (case obtain_frame s of
        (None, s0) \<Rightarrow> Returns None s0
      | (Some frame_id, s0) \<Rightarrow>
          (case frame_index s0 frame_id of
             None \<Rightarrow> Undefined
           | Some i \<Rightarrow>
               let s1 = write_back i s0;
                   new_id = next_page_id s1;
                   s2 = s1\<lparr>next_page_id := next_page_id s1 + 1\<rparr>;
                   p = pages s2 ! i;
                   s3 = s2\<lparr>page_table := emplace ((page_table s2)(page_id p := None)) new_id frame_id\<rparr>;
                   s4 = s3\<lparr>pages := (pages s3)[i := ResetMemory (p\<lparr>page_id := new_id, pin_count := 1\<rparr>)]\<rparr>
               in with_replacer (RecordAccess (replacer s4) frame_id) s4 (\<lambda>s5.
                  with_replacer (SetEvictable (replacer s5) frame_id False) s5 (\<lambda>s6.
                  Returns (Some (new_id, frame_id)) s6))))"

definition FetchPage :: "BufferPoolManager \<Rightarrow> page_id_t \<Rightarrow> (frame_id_t option, BufferPoolManager) outcome" where
  "FetchPage s pid =
     (if pid = INVALID_PAGE_ID then Returns None s
      else (case page_table s pid of
              Some frame_id \<Rightarrow>
                (case frame_index s frame_id of
                   None \<Rightarrow> Undefined
                 | Some i \<Rightarrow>
                     with_replacer (RecordAccess (replacer s) frame_id) s (\<lambda>s1.
                     with_replacer (SetEvictable (replacer s1) frame_id False) s1 (\<lambda>s2.
                     Returns (Some frame_id)
                       (s2\<lparr>pages := (pages s2)[i := (pages s2 ! i)\<lparr>pin_count := pin_count (pages s2 ! i) + 1\<rparr>]\<rparr>))))
            | None \<Rightarrow>
                (case obtain_frame s of
                   (None, s0) \<Rightarrow> Returns None s0
                 | (Some frame_id, s0) \<Rightarrow>
                     (case frame_index s0 frame_id of
                        None \<Rightarrow> Undefined
                      | Some i \<Rightarrow>
                          let s1 = write_back i s0;
                              p = pages s1 ! i;
                              s2 = s1\<lparr>page_table := emplace ((page_table s1)(page_id p := None)) pid frame_id\<rparr>;
                              s3 = s2\<lparr>pages := (pages s2)[i := ResetMemory (p\<lparr>page_id := pid, pin_count := 1\<rparr>)]\<rparr>
                          in with_replacer (RecordAccess (replacer s3) frame_id) s3 (\<lambda>s4.
                             with_replacer (SetEvictable (replacer s4) frame_id False) s4 (\<lambda>s5.
                             Returns (Some frame_id)
                               (s5\<lparr>pages := (pages s5)[i := (pages s5 ! i)\<lparr>data := disk s5 pid\<rparr>]\<rparr>)))))))"

definition UnpinPage :: "BufferPoolManager \<Rightarrow> page_id_t \<Rightarrow> bool \<Rightarrow> (bool, BufferPoolManager) outcome" where
  "UnpinPage s pid dirty =
     (if pid = INVALID_PAGE_ID then Returns False s
      else (case page_table s pid of
              Some frame_id \<Rightarrow>
                (case frame_index s frame_id of
                   None \<Rightarrow> Undefined
                 | Some i \<Rightarrow>
                     let s1 = (if dirty then s\<lparr>pages := (pages s)[i := (pages s ! i)\<lparr>is_dirty := dirty\<rparr>]\<rparr> else s)
                     in if pin_count (pages s1 ! i) = 0 then Returns False s1
                        else
                          let s2 = s1\<lparr>pages := (pages s1)[i := (pages s1 ! i)\<lparr>pin_count := pin_count (pages s1 ! i) - 1\<rparr>]\<rparr>
                          in if pin_count (pages s2 ! i) = 0
                             then with_replacer (SetEvictable (replacer s2) frame_id True) s2 (\<lambda>s3. Returns True s3)
                             else Returns True s2)
            | None \<Rightarrow> Returns False s))"

definition FlushPage :: "BufferPoolManager \<Rightarrow> page_id_t \<Rightarrow> (bool, BufferPoolManager) outcome" where
  "FlushPage s pid =
     (if pid = INVALID_PAGE_ID then Returns False s
      else (case page_table s pid of
              None \<Rightarrow> Returns False s
            | Some frame_id \<Rightarrow>
                (case frame_index s frame_id of
                   None \<Rightarrow> Undefined
                 | Some i \<Rightarrow>
                     let p = pages s ! i
                     in Returns True
                          (s\<lparr>disk := (disk s)(page_id p := data p),
                             pages := (pages s)[i := p\<lparr>is_dirty := False\<rparr>]\<rparr>))))"

text \<open>\<^verbatim>\<open>DeallocatePage\<close> is declared in a header that is not at hand; the spec's
  "deallocate id" changes none of the state modelled here.\<close>

definition DeletePage :: "BufferPoolManager \<Rightarrow> page_id_t \<Rightarrow> (bool, BufferPoolManager) outcome" where
  "DeletePage s pid =
     (if pid = INVALID_PAGE_ID then Returns True s
      else (case page_table s pid of
              None \<Rightarrow> Returns True s
            | Some frame_id \<Rightarrow>
                (case frame_index s frame_id of
                   None \<Rightarrow> Undefined
                 | Some i \<Rightarrow>
                     if pin_count (pages s ! i) > 0 then Returns False s
                     else
                       let s1 = s\<lparr>page_table := (page_table s)(pid := None),
                                  free_list := free_list s @ [frame_id]\<rparr>
                       in with_replacer (Remove_frame (replacer s1) frame_id) s1 (\<lambda>s2.
                          Returns True
                            (s2\<lparr>pages := (pages s2)[i := (ResetMemory (pages s2 ! i))
                                   \<lparr>page_id := INVALID_PAGE_ID, is_dirty := False, pin_count := 0\<rparr>]\<rparr>)))))"

section \<open>Pages of the extendible hash table\<close>

text \<open>
  The hash table code asserts and indexes arrays; it throws no exception. A call either
  yields a result (\<open>Inr\<close>) or fails (\<open>Inl\<close>): a failed \<^verbatim>\<open>assert\<close> aborts the process,
  and undefined behaviour is an array access out of bounds, a shift by a negative amount
  or the use of a page that is not there.
\<close>

datatype failure = AssertionFailed | UndefinedBehaviour

subsection \<open>Directory page, continued\<close>

text \<open>
  Modelled from the spec: \<^verbatim>\<open>GetMaxDepth\<close> and \<^verbatim>\<open>GetGlobalDepthMask\<close> are declared in
  the header of the directory page and defined nowhere in the sources at hand; the
  spec gives \<open>HashToBucketIndex(h) = h & ((1 << global_depth) - 1)\<close>.
\<close>

definition GetMaxDepth :: "ExtendibleHTableDirectoryPage \<Rightarrow> uint32_t" where
  "GetMaxDepth d = max_depth d"

definition GetGlobalDepthMask :: "ExtendibleHTableDirectoryPage \<Rightarrow> uint32_t" where
  "GetGlobalDepthMask d = push_bit (unat (global_depth d)) 1 - 1"

definition HashToBucketIndex :: "ExtendibleHTableDirectoryPage \<Rightarrow> uint32_t \<Rightarrow> uint32_t" where
  "HashToBucketIndex d hash = hash AND GetGlobalDepthMask d"

text \<open>The accessors assert \<^verbatim>\<open>bucket_idx < Size()\<close> and then index the array.\<close>

definition GetBucketPageId :: "ExtendibleHTableDirectoryPage \<Rightarrow> uint32_t \<Rightarrow> failure + page_id_t" where
  "GetBucketPageId d bucket_idx =
     (if \<not> bucket_idx < Size_directory d then Inl AssertionFailed
      else if unat bucket_idx < length (bucket_page_ids d) then Inr (bucket_page_ids d ! unat bucket_idx)
      else Inl UndefinedBehaviour)"

definition SetBucketPageId ::
  "ExtendibleHTableDirectoryPage \<Rightarrow> uint32_t \<Rightarrow> page_id_t \<Rightarrow> failure + ExtendibleHTableDirectoryPage" where
  "SetBucketPageId d bucket_idx bucket_page_id =
     (if \<not> bucket_idx < Size_directory d then Inl AssertionFailed
      else if unat bucket_idx < length (bucket_page_ids d)
      then Inr (d\<lparr>bucket_page_ids := (bucket_page_ids d)[unat bucket_idx := bucket_page_id]\<rparr>)
      else Inl UndefinedBehaviour)"

definition GetLocalDepth :: "ExtendibleHTableDirectoryPage \<Rightarrow> uint32_t \<Rightarrow> failure + uint32_t" where
  "GetLocalDepth d bucket_idx =
     (if \<not> bucket_idx < Size_directory d then Inl AssertionFailed
      else if unat bucket_idx < length (local_depths d) then Inr (ucast (local_depths d ! unat bucket_idx))
      else Inl UndefinedBehaviour)"

definition SetLocalDepth ::
  "ExtendibleHTableDirectoryPage \<Rightarrow> uint32_t \<Rightarrow> uint8_t \<Rightarrow> failure + ExtendibleHTableDirectoryPage" where
  "SetLocalDepth d bucket_idx local_depth =
     (if \<not> bucket_idx < Size_directory d then Inl AssertionFailed
      else if unat bucket_idx < length (local_depths d)
      then Inr (d\<lparr>local_depths := (local_depths d)[unat bucket_idx := local_depth]\<rparr>)
      else Inl UndefinedBehaviour)"

definition IncrLocalDepth ::
  "ExtendibleHTableDirectoryPage \<Rightarrow> uint32_t \<Rightarrow> failure + ExtendibleHTableDirectoryPage" where
  "IncrLocalDepth d bucket_idx =
     (if \<not> bucket_idx < Size_directory d then Inl AssertionFailed
      else if unat bucket_idx < length (local_depths d)
      then (if (ucast (local_depths d ! unat bucket_idx) :: uint32_t) \<ge> max_depth d then Inr d
            else Inr (d\<lparr>local_depths :=
                         (local_depths d)[unat bucket_idx := local_depths d ! unat bucket_idx + 1]\<rparr>))
      else Inl UndefinedBehaviour)"

definition DecrLocalDepth ::
  "ExtendibleHTableDirectoryPage \<Rightarrow> uint32_t \<Rightarrow> failure + ExtendibleHTableDirectoryPage" where
  "DecrLocalDepth d bucket_idx =
     (if \<not> bucket_idx < Size_directory d then Inl AssertionFailed
      else if unat bucket_idx < length (local_depths d)
      then (if local_depths d ! unat bucket_idx \<le> 0 then Inr d
            else Inr (d\<lparr>local_depths :=
                         (local_depths d)[unat bucket_idx := local_depths d ! unat bucket_idx - 1]\<rparr>))
      else Inl UndefinedBehaviour)"

text \<open>
  \<^verbatim>\<open>GetSplitImageIndex\<close> has no assertion; \<^verbatim>\<open>1 << (local_depths_[bucket_idx] - 1)\<close> is
  an \<^verbatim>\<open>int\<close> shift, undefined for local depth 0 and from 31 bits on.
\<close>

definition GetSplitImageIndex :: "ExtendibleHTableDirectoryPage \<Rightarrow> uint32_t \<Rightarrow> failure + uint32_t" where
  "GetSplitImageIndex d bucket_idx =
     (if unat bucket_idx < length (local_depths d)
      then (let ld = unat (local_depths d ! unat bucket_idx)
            in if ld = 0 \<or> ld - 1 \<ge> 31 then Inl UndefinedBehaviour
               else Inr (bucket_idx XOR push_bit (ld - 1) 1))
      else Inl UndefinedBehaviour)"

text \<open>\<^verbatim>\<open>CanShrink\<close> reads the first \<^verbatim>\<open>Size()\<close> local depths.\<close>

definition CanShrink :: "ExtendibleHTableDirectoryPage \<Rightarrow> failure + bool" where
  "CanShrink d =
     (if unat (Size_directory d) \<le> length (local_depths d)
      then Inr (list_all (\<lambda>depth. (ucast depth :: uint32_t) < global_depth d)
                  (take (unat (Size_directory d)) (local_depths d)))
      else Inl UndefinedBehaviour)"

subsection \<open>Header page\<close>

text \<open>
  Modelled from the spec: the header page is not part of the sources at hand. The
  spec: \<open>max_depth\<close>, then an array of directory page ids, each \<open>INVALID\<close> until first
  use; \<open>HashToDirectoryIndex(h) = h >> (32 - max_depth)\<close>, the top \<open>max_depth\<close> bits of
  the hash. The length of the list stands for the size of the array.
\<close>

record ExtendibleHTableHeaderPage =
  directory_page_ids :: "page_id_t list"
  hmax_depth :: uint32_t

definition zero_header :: "nat \<Rightarrow> ExtendibleHTableHeaderPage" where
  "zero_header array_size = \<lparr>directory_page_ids = replicate array_size 0, hmax_depth = 0\<rparr>"

definition Init_header :: "uint32_t \<Rightarrow> ExtendibleHTableHeaderPage \<Rightarrow> ExtendibleHTableHeaderPage" where
  "Init_header md h =
     h\<lparr>hmax_depth := md,
       directory_page_ids := replicate (length (directory_page_ids h)) INVALID_PAGE_ID\<rparr>"

definition HashToDirectoryIndex :: "ExtendibleHTableHeaderPage \<Rightarrow> uint32_t \<Rightarrow> uint32_t" where
  "HashToDirectoryIndex h hash = drop_bit (32 - unat (hmax_depth h)) hash"

definition GetDirectoryPageId :: "ExtendibleHTableHeaderPage \<Rightarrow> uint32_t \<Rightarrow> failure + page_id_t" where
  "GetDirectoryPageId h directory_idx =
     (if unat directory_idx < length (directory_page_ids h)
      then Inr (directory_page_ids h ! unat directory_idx)
      else Inl UndefinedBehaviour)"

definition SetDirectoryPageId ::
  "ExtendibleHTableHeaderPage \<Rightarrow> uint32_t \<Rightarrow> page_id_t \<Rightarrow> failure + ExtendibleHTableHeaderPage" where
  "SetDirectoryPageId h directory_idx directory_page_id =
     (if unat directory_idx < length (directory_page_ids h)
      then Inr (h\<lparr>directory_page_ids := (directory_page_ids h)[unat directory_idx := directory_page_id]\<rparr>)
      else Inl UndefinedBehaviour)"

subsection \<open>Bucket page\<close>

text \<open>
  The bucket page is \<^verbatim>\<open>size_\<close>, \<^verbatim>\<open>max_size_\<close> and the array of pairs, which fills the
  rest of the page; the length of the list stands for the number of slots of the array
  (\<^verbatim>\<open>HTableBucketArraySize\<close>, a macro of a header that is not at hand). The slots
  from \<^verbatim>\<open>size_\<close> on hold what earlier writes left there. \<^verbatim>\<open>size_\<close> and \<^verbatim>\<open>max_size_\<close>
  are \<^verbatim>\<open>uint32_t\<close>; the model reads them as natural numbers, since \<^verbatim>\<open>size_\<close> moves by
  one at a time, upwards after a write to slot \<^verbatim>\<open>size_\<close> of the array and downwards
  after the assertion \<^verbatim>\<open>bucket_idx < Size()\<close>.

  Modelled from the spec: the comparator is a total order over the keys that returns
  \<open>-1\<close>, \<open>0\<close> or \<open>1\<close>; here it is the one of the order of the key type.
\<close>

record ('k, 'v) ExtendibleHTableBucketPage =
  bsize :: nat
  max_size :: nat
  array :: "('k \<times> 'v) list"

definition cmp :: "'k::linorder \<Rightarrow> 'k \<Rightarrow> int" where
  "cmp a b = (if a < b then - 1 else if b < a then 1 else 0)"

definition zero_bucket :: "nat \<Rightarrow> ('k::zero, 'v::zero) ExtendibleHTableBucketPage" where
  "zero_bucket array_size = \<lparr>bsize = 0, max_size = 0, array = replicate array_size (0, 0)\<rparr>"

definition Init_bucket ::
  "nat \<Rightarrow> ('k, 'v) ExtendibleHTableBucketPage \<Rightarrow> ('k, 'v) ExtendibleHTableBucketPage" where
  "Init_bucket ms b = b\<lparr>max_size := ms, bsize := 0\<rparr>"

definition IsFull :: "('k, 'v) ExtendibleHTableBucketPage \<Rightarrow> bool" where
  "IsFull b \<longleftrightarrow> bsize b \<ge> max_size b"

definition IsEmpty :: "('k, 'v) ExtendibleHTableBucketPage \<Rightarrow> bool" where
  "IsEmpty b \<longleftrightarrow> bsize b = 0"

text \<open>\<^verbatim>\<open>array_[i]\<close>: a read outside the array is undefined behaviour.\<close>

definition EntryAt :: "('k, 'v) ExtendibleHTableBucketPage \<Rightarrow> nat \<Rightarrow> failure + ('k \<times> 'v)" where
  "EntryAt b i = (if i < length (array b) then Inr (array b ! i) else Inl UndefinedBehaviour)"

text \<open>The loop of \<^verbatim>\<open>KeyIndex\<close>, a binary search between \<open>left\<close> and \<open>right\<close>.\<close>

function search_loop ::
  "'k::linorder \<Rightarrow> ('k, 'v) ExtendibleHTableBucketPage \<Rightarrow> int \<Rightarrow> int \<Rightarrow> failure + nat" where
  "search_loop key b left right =
     (if left \<le> right
      then (let mid = (left + right) div 2
            in if mid < 0 then Inl UndefinedBehaviour
               else (case EntryAt b (nat mid) of
                       Inl e \<Rightarrow> Inl e
                     | Inr entry \<Rightarrow>
                         (let ret = cmp key (fst entry)
                          in if ret = 1 then search_loop key b (mid + 1) right
                             else if ret = - 1 then search_loop key b left (mid - 1)
                             else Inr (nat mid))))
      else Inr (nat left))"
  by pat_completeness auto
termination
  by (relation "measure (\<lambda>(key, b, left, right). nat (right - left + 1))") auto

declare search_loop.simps [simp del]

definition KeyIndex :: "('k::linorder, 'v) ExtendibleHTableBucketPage \<Rightarrow> 'k \<Rightarrow> failure + nat" where
  "KeyIndex b key = search_loop key b 0 (int (bsize b) - 1)"

text \<open>
  \<^verbatim>\<open>Lookup\<close>: the result is the value found, if any. The test before the comparison
  is \<^verbatim>\<open>bucket_idx > Size()\<close>.
\<close>

definition Lookup :: "('k::linorder, 'v) ExtendibleHTableBucketPage \<Rightarrow> 'k \<Rightarrow> failure + 'v option" where
  "Lookup b key =
     (if bsize b = 0 then Inr None
      else (case KeyIndex b key of
              Inl e \<Rightarrow> Inl e
            | Inr bucket_idx \<Rightarrow>
                if bucket_idx > bsize b then Inr None
                else (case EntryAt b bucket_idx of
                        Inl e \<Rightarrow> Inl e
                      | Inr entry \<Rightarrow>
                          if cmp key (fst entry) = 0 then Inr (Some (snd entry)) else Inr None)))"

text \<open>
  The loop of \<^verbatim>\<open>InsertAt\<close> moves the slots \<open>idx .. size - 1\<close> one up, the highest
  first; \<open>n\<close> counts the slots still to move.
\<close>

fun shift_up :: "nat \<Rightarrow> nat \<Rightarrow> 'a list \<Rightarrow> failure + 'a list" where
  "shift_up idx 0 arr = Inr arr"
| "shift_up idx (Suc n) arr =
     (if idx + n + 1 < length arr then shift_up idx n (arr[idx + n + 1 := arr ! (idx + n)])
      else Inl UndefinedBehaviour)"

definition InsertAt ::
  "('k, 'v) ExtendibleHTableBucketPage \<Rightarrow> nat \<Rightarrow> 'k \<Rightarrow> 'v \<Rightarrow> failure + ('k, 'v) ExtendibleHTableBucketPage" where
  "InsertAt b bucket_idx key val =
     (case shift_up bucket_idx (bsize b - bucket_idx) (array b) of
        Inl e \<Rightarrow> Inl e
      | Inr arr \<Rightarrow>
          if bucket_idx < length arr
          then Inr (b\<lparr>array := arr[bucket_idx := (key, val)], bsize := bsize b + 1\<rparr>)
          else Inl UndefinedBehaviour)"

text \<open>
  The loop of \<^verbatim>\<open>RemoveAt\<close> moves the slots \<open>idx + 1 .. size - 1\<close> one down, the lowest
  first; the slot \<open>size - 1\<close> keeps its content.
\<close>

fun shift_down :: "nat \<Rightarrow> nat \<Rightarrow> 'a list \<Rightarrow> failure + 'a list" where
  "shift_down i 0 arr = Inr arr"
| "shift_down i (Suc n) arr =
     (if i + 1 < length arr then shift_down (i + 1) n (arr[i := arr ! (i + 1)])
      else Inl UndefinedBehaviour)"

definition RemoveAt ::
  "('k, 'v) ExtendibleHTableBucketPage \<Rightarrow> nat \<Rightarrow> failure + ('k, 'v) ExtendibleHTableBucketPage" where
  "RemoveAt b bucket_idx =
     (if \<not> bucket_idx < bsize b then Inl AssertionFailed
      else (case shift_down bucket_idx (bsize b - 1 - bucket_idx) (array b) of
              Inl e \<Rightarrow> Inl e
            | Inr arr \<Rightarrow> Inr (b\<lparr>array := arr, bsize := bsize b - 1\<rparr>)))"

text \<open>\<^verbatim>\<open>Insert\<close> and \<^verbatim>\<open>Remove\<close> of the bucket: the flag returned and the bucket left.\<close>

definition Insert_bucket ::
  "('k::linorder, 'v) ExtendibleHTableBucketPage \<Rightarrow> 'k \<Rightarrow> 'v \<Rightarrow>
     failure + (bool \<times> ('k, 'v) ExtendibleHTableBucketPage)" where
  "Insert_bucket b key val =
     (if IsFull b then Inr (False, b)
      else if bsize b = 0
      then (case InsertAt b 0 key val of Inl e \<Rightarrow> Inl e | Inr b' \<Rightarrow> Inr (True, b'))
      else (case KeyIndex b key of
              Inl e \<Rightarrow> Inl e
            | Inr bucket_idx \<Rightarrow>
                (case EntryAt b bucket_idx of
                   Inl e \<Rightarrow> Inl e
                 | Inr entry \<Rightarrow>
                     if cmp key (fst entry) = 0 then Inr (False, b)
                     else (case InsertAt b bucket_idx key val of
                             Inl e \<Rightarrow> Inl e
                           | Inr b' \<Rightarrow> Inr (True, b')))))"

definition Remove_bucket ::
  "('k::linorder, 'v) ExtendibleHTableBucketPage \<Rightarrow> 'k \<Rightarrow>
     failure + (bool \<times> ('k, 'v) ExtendibleHTableBucketPage)" where
  "Remove_bucket b key =
     (if bsize b = 0 then Inr (False, b)
      else (case KeyIndex b key of
              Inl e \<Rightarrow> Inl e
            | Inr bucket_idx \<Rightarrow>
                (case EntryAt b bucket_idx of
                   Inl e \<Rightarrow> Inl e
                 | Inr entry \<Rightarrow>
                     if cmp key (fst entry) \<noteq> 0 then Inr (False, b)
                     else (case RemoveAt b bucket_idx of
                             Inl e \<Rightarrow> Inl e
                           | Inr b' \<Rightarrow> Inr (True, b')))))"

section \<open>Disk extendible hash table\<close>

text \<open>
  The table reaches its pages through the buffer pool. The model keeps the pages as
  the pool presents them when every fetch and every allocation succeeds: \<open>store\<close>
  maps the page id of a page in use to its content, and \<open>next_page\<close> is the id the
  next \<^verbatim>\<open>NewPage\<close> hands out. Page guards, pins and latches have no counterpart here; a
  pointer into a page, such as \<^verbatim>\<open>directory\<close> in \<^verbatim>\<open>Insert\<close>, is the page of the store.
  A fetch of a page id that holds no page of the expected kind is undefined behaviour,
  and so is an allocation that would hand out the id \<^verbatim>\<open>INVALID_PAGE_ID\<close>.

  This is the table on a pool in which a page keeps its frame for as long as a pointer
  into it is in use. The guards do not ensure that everywhere: \<^verbatim>\<open>Insert\<close> drops
  \<^verbatim>\<open>directory_guard\<close> once it holds the bucket page and goes on using \<^verbatim>\<open>directory\<close>, so
  the directory page is not pinned while a split allocates its new bucket page. A pool
  that has no other frame to give, one of two frames for instance, then gives the
  frame of the directory page to the new page; what the writes through \<^verbatim>\<open>directory\<close> do
  after that is not described by this model.

  The hash function and the sizes of the arrays of the three kinds of page (constants
  of headers that are not at hand) are parameters of the table.
\<close>

datatype ('k, 'v) page =
  HeaderPage ExtendibleHTableHeaderPage
| DirectoryPage ExtendibleHTableDirectoryPage
| BucketPage "('k, 'v) ExtendibleHTableBucketPage"

record ('k, 'v) DiskExtendibleHashTable =
  store :: "page_id_t \<rightharpoonup> ('k, 'v) page"
  next_page :: page_id_t
  header_page_id :: page_id_t
  header_max_depth :: uint32_t
  directory_max_depth :: uint32_t
  bucket_max_size :: nat
  hash_fn :: "'k \<Rightarrow> uint32_t"
  header_array_size :: nat
  directory_array_size :: nat
  bucket_array_size :: nat

definition fetch_header ::
  "('k, 'v) DiskExtendibleHashTable \<Rightarrow> page_id_t \<Rightarrow> failure + ExtendibleHTableHeaderPage" where
  "fetch_header ht pid =
     (case store ht pid of Some (HeaderPage h) \<Rightarrow> Inr h | _ \<Rightarrow> Inl UndefinedBehaviour)"

definition fetch_directory ::
  "('k, 'v) DiskExtendibleHashTable \<Rightarrow> page_id_t \<Rightarrow> failure + ExtendibleHTableDirectoryPage" where
  "fetch_directory ht pid =
     (case store ht pid of Some (DirectoryPage d) \<Rightarrow> Inr d | _ \<Rightarrow> Inl UndefinedBehaviour)"

definition fetch_bucket ::
  "('k, 'v) DiskExtendibleHashTable \<Rightarrow> page_id_t \<Rightarrow> failure + ('k, 'v) ExtendibleHTableBucketPage" where
  "fetch_bucket ht pid =
     (case store ht pid of Some (BucketPage b) \<Rightarrow> Inr b | _ \<Rightarrow> Inl UndefinedBehaviour)"

text \<open>\<^verbatim>\<open>NewPageGuarded\<close> followed by the initialisation of the zeroed page.\<close>

definition new_page ::
  "('k, 'v) DiskExtendibleHashTable \<Rightarrow> ('k, 'v) page \<Rightarrow>
     failure + (page_id_t \<times> ('k, 'v) DiskExtendibleHashTable)" where
  "new_page ht content =
     (if next_page ht = INVALID_PAGE_ID then Inl UndefinedBehaviour
      else Inr (next_page ht,
                ht\<lparr>store := (store ht)(next_page ht \<mapsto> content), next_page := next_page ht + 1\<rparr>))"

definition put_page ::
  "('k, 'v) DiskExtendibleHashTable \<Rightarrow> page_id_t \<Rightarrow> ('k, 'v) page \<Rightarrow> ('k, 'v) DiskExtendibleHashTable" where
  "put_page ht pid content = ht\<lparr>store := (store ht)(pid \<mapsto> content)\<rparr>"

text \<open>The constructor: the header page is allocated and initialised.\<close>

definition new_DiskExtendibleHashTable ::
  "('k \<Rightarrow> uint32_t) \<Rightarrow> uint32_t \<Rightarrow> uint32_t \<Rightarrow> nat \<Rightarrow> nat \<Rightarrow> nat \<Rightarrow> nat \<Rightarrow> page_id_t \<Rightarrow>
     ('k, 'v) DiskExtendibleHashTable" where
  "new_DiskExtendibleHashTable hf hmd dmd bms has das bas first_page =
     \<lparr>store = [first_page \<mapsto> HeaderPage (Init_header hmd (zero_header has))],
      next_page = first_page + 1,
      header_page_id = first_page,
      header_max_depth = hmd, directory_max_depth = dmd, bucket_max_size = bms,
      hash_fn = hf, header_array_size = has, directory_array_size = das, bucket_array_size = bas\<rparr>"

definition Hash :: "('k, 'v) DiskExtendibleHashTable \<Rightarrow> 'k \<Rightarrow> uint32_t" where
  "Hash ht key = hash_fn ht key"

text \<open>
  Modelled from the spec: \<^verbatim>\<open>FindBucketPageID\<close> is called by \<^verbatim>\<open>GetValue\<close> and is not
  defined in the sources at hand. The spec: walk header, directory, bucket following
  the index formulas; if any level is missing, miss.
\<close>

definition FindBucketPageID ::
  "('k, 'v) DiskExtendibleHashTable \<Rightarrow> 'k \<Rightarrow> failure + page_id_t option" where
  "FindBucketPageID ht key =
     (if header_page_id ht = INVALID_PAGE_ID then Inr None
      else (case fetch_header ht (header_page_id ht) of
        Inl e \<Rightarrow> Inl e
      | Inr header \<Rightarrow>
          (case GetDirectoryPageId header (HashToDirectoryIndex header (Hash ht key)) of
             Inl e \<Rightarrow> Inl e
           | Inr directory_page_id \<Rightarrow>
               if directory_page_id = INVALID_PAGE_ID then Inr None
               else (case fetch_directory ht directory_page_id of
                 Inl e \<Rightarrow> Inl e
               | Inr directory \<Rightarrow>
                   (case GetBucketPageId directory (HashToBucketIndex directory (Hash ht key)) of
                      Inl e \<Rightarrow> Inl e
                    | Inr bucket_page_id \<Rightarrow>
                        if bucket_page_id = INVALID_PAGE_ID then Inr None
                        else Inr (Some bucket_page_id))))))"

text \<open>\<^verbatim>\<open>GetValue\<close>: the flag returned and the vector \<open>result\<close> after the call.\<close>

definition GetValue ::
  "('k::linorder, 'v) DiskExtendibleHashTable \<Rightarrow> 'k \<Rightarrow> 'v list \<Rightarrow> failure + (bool \<times> 'v list)" where
  "GetValue ht key result =
     (case FindBucketPageID ht key of
        Inl e \<Rightarrow> Inl e
      | Inr None \<Rightarrow> Inr (False, result)
      | Inr (Some bucket_page_id) \<Rightarrow>
          (case fetch_bucket ht bucket_page_id of
             Inl e \<Rightarrow> Inl e
           | Inr bucket \<Rightarrow>
               (case Lookup bucket key of
                  Inl e \<Rightarrow> Inl e
                | Inr (Some v) \<Rightarrow> Inr (True, result @ [v])
                | Inr None \<Rightarrow> Inr (False, result))))"

text \<open>
  Modelled from the spec: \<^verbatim>\<open>SplitBucket\<close> is called by \<^verbatim>\<open>Insert\<close> and is not defined in
  the sources at hand. The spec, step 4 of \<^verbatim>\<open>Insert\<close>: allocate a new bucket page at the
  split image; rehash the existing entries, keeping in the old bucket those whose hash
  masked to the new local depth equals the original slot value, and placing the rest in
  the new bucket; update every directory slot that aliased the old bucket: the slots
  whose low local-depth bits match the pattern of the old bucket index keep pointing to
  the old bucket, the others point to the new bucket, and both receive the new local
  depth. The low \<open>ld\<close> bits of a number are the number modulo \<open>2 ^ ld\<close>. The local
  depth of the slot has been incremented by the caller. Each of the
  two buckets holds its entries in the first slots of its array, in their order.
\<close>


text \<open>
  The slots \<open>0 .. Size() - 1\<close> of the directory, each rewritten by \<open>f\<close>; a slot outside
  the arrays is undefined behaviour.
\<close>

definition map_slots ::
  "(nat \<Rightarrow> page_id_t \<times> uint8_t \<Rightarrow> page_id_t \<times> uint8_t) \<Rightarrow>
     ExtendibleHTableDirectoryPage \<Rightarrow> failure + ExtendibleHTableDirectoryPage" where
  "map_slots f d =
     (let n = unat (Size_directory d)
      in if n \<le> length (bucket_page_ids d) \<and> n \<le> length (local_depths d)
         then Inr (d\<lparr>bucket_page_ids :=
                        map (\<lambda>i. fst (f i (bucket_page_ids d ! i, local_depths d ! i))) [0 ..< n]
                        @ drop n (bucket_page_ids d),
                      local_depths :=
                        map (\<lambda>i. snd (f i (bucket_page_ids d ! i, local_depths d ! i))) [0 ..< n]
                        @ drop n (local_depths d)\<rparr>)
         else Inl UndefinedBehaviour)"

definition split_slot ::
  "page_id_t \<Rightarrow> page_id_t \<Rightarrow> uint32_t \<Rightarrow> uint32_t \<Rightarrow> nat \<Rightarrow> page_id_t \<times> uint8_t \<Rightarrow> page_id_t \<times> uint8_t" where
  "split_slot old_id new_id bucket_idx ld i slot =
     (if fst slot = old_id
      then (if i mod 2 ^ unat ld = unat bucket_idx mod 2 ^ unat ld
            then (old_id, ucast ld) else (new_id, ucast ld))
      else slot)"

text \<open>A bucket page whose first slots hold the given entries, in their order.\<close>

definition refill ::
  "('k \<times> 'v) list \<Rightarrow> ('k, 'v) ExtendibleHTableBucketPage \<Rightarrow> ('k, 'v) ExtendibleHTableBucketPage" where
  "refill es b = b\<lparr>array := es @ drop (length es) (array b), bsize := length es\<rparr>"

definition SplitBucket ::
  "('k, 'v) DiskExtendibleHashTable \<Rightarrow> page_id_t \<Rightarrow> uint32_t \<Rightarrow>
     failure + (bool \<times> ('k::zero, 'v::zero) DiskExtendibleHashTable)" where
  "SplitBucket ht directory_page_id bucket_idx =
     (case fetch_directory ht directory_page_id of
        Inl e \<Rightarrow> Inl e
      | Inr d \<Rightarrow>
     (case GetBucketPageId d bucket_idx of
        Inl e \<Rightarrow> Inl e
      | Inr old_id \<Rightarrow>
     (case fetch_bucket ht old_id of
        Inl e \<Rightarrow> Inl e
      | Inr b \<Rightarrow>
     (case GetLocalDepth d bucket_idx of
        Inl e \<Rightarrow> Inl e
      | Inr ld \<Rightarrow>
     (case new_page ht (BucketPage (Init_bucket (bucket_max_size ht) (zero_bucket (bucket_array_size ht)))) of
        Inl e \<Rightarrow> Inl e
      | Inr (new_id, ht1) \<Rightarrow>
     (case fetch_bucket ht1 new_id of
        Inl e \<Rightarrow> Inl e
      | Inr nb \<Rightarrow>
     (case map_slots (split_slot old_id new_id bucket_idx ld) d of
        Inl e \<Rightarrow> Inl e
      | Inr d' \<Rightarrow>
          (let stay = (\<lambda>e. unat (Hash ht (fst e)) mod 2 ^ unat ld = unat bucket_idx mod 2 ^ unat ld);
               es = take (bsize b) (array b)
           in Inr (True,
                   put_page
                     (put_page
                        (put_page ht1 old_id (BucketPage (refill (filter stay es) b)))
                        new_id (BucketPage (refill (filter (\<lambda>e. \<not> stay e) es) nb)))
                     directory_page_id (DirectoryPage d'))))))))))"

text \<open>
  \<^verbatim>\<open>Insert\<close>. One pass through the body either finishes with a result or, after a
  split, calls \<^verbatim>\<open>Insert\<close> again on the table the split left.
\<close>

datatype ('a, 'b) pass = Finished 'a | Again 'b

text \<open>
  The calls \<^verbatim>\<open>IncrLocalDepth\<close> and \<^verbatim>\<open>SplitBucket\<close> and the call of \<^verbatim>\<open>Insert\<close> after them.
  \<^verbatim>\<open>directory_guard\<close> has been dropped by then; the directory page written here is the
  one of the store, which is what the pointer \<^verbatim>\<open>directory\<close> reaches as long as the page
  keeps its frame.
\<close>

definition split_and_retry ::
  "('k, 'v) DiskExtendibleHashTable \<Rightarrow> page_id_t \<Rightarrow> ExtendibleHTableDirectoryPage \<Rightarrow> uint32_t \<Rightarrow>
     (failure + bool \<times> ('k::zero, 'v::zero) DiskExtendibleHashTable, ('k, 'v) DiskExtendibleHashTable) pass" where
  "split_and_retry ht directory_page_id directory bucket_idx =
     (case IncrLocalDepth directory bucket_idx of
        Inl e \<Rightarrow> Finished (Inl e)
      | Inr d \<Rightarrow>
          (case SplitBucket (put_page ht directory_page_id (DirectoryPage d)) directory_page_id bucket_idx of
             Inl e \<Rightarrow> Finished (Inl e)
           | Inr (split, ht') \<Rightarrow> if \<not> split then Finished (Inr (False, ht')) else Again ht'))"

definition insert_into_bucket ::
  "('k, 'v) DiskExtendibleHashTable \<Rightarrow> page_id_t \<Rightarrow> ExtendibleHTableDirectoryPage \<Rightarrow> uint32_t \<Rightarrow>
     page_id_t \<Rightarrow> 'k \<Rightarrow> 'v \<Rightarrow>
     (failure + bool \<times> ('k::{linorder,zero}, 'v::zero) DiskExtendibleHashTable, ('k, 'v) DiskExtendibleHashTable) pass" where
  "insert_into_bucket ht directory_page_id directory bucket_idx bucket_page_id key val =
     (case fetch_bucket ht bucket_page_id of
        Inl e \<Rightarrow> Finished (Inl e)
      | Inr bucket \<Rightarrow>
     (case Lookup bucket key of
        Inl e \<Rightarrow> Finished (Inl e)
      | Inr (Some v) \<Rightarrow> Finished (Inr (False, ht))
      | Inr None \<Rightarrow>
          if IsFull bucket
          then (case GetLocalDepth directory bucket_idx of
                  Inl e \<Rightarrow> Finished (Inl e)
                | Inr ld \<Rightarrow>
                    if ld = GetGlobalDepth directory
                    then (if GetGlobalDepth directory \<ge> GetMaxDepth directory
                          then Finished (Inr (False, ht))
                          else (case IncrGlobalDepth directory of
                                  None \<Rightarrow> Finished (Inl UndefinedBehaviour)
                                | Some d \<Rightarrow> split_and_retry ht directory_page_id d bucket_idx))
                    else split_and_retry ht directory_page_id directory bucket_idx)
          else (case Insert_bucket bucket key val of
                  Inl e \<Rightarrow> Finished (Inl e)
                | Inr (inserted, bucket') \<Rightarrow>
                    Finished (Inr (inserted, put_page ht bucket_page_id (BucketPage bucket'))))))"

definition insert_into_directory ::
  "('k, 'v) DiskExtendibleHashTable \<Rightarrow> page_id_t \<Rightarrow> 'k \<Rightarrow> 'v \<Rightarrow>
     (failure + bool \<times> ('k::{linorder,zero}, 'v::zero) DiskExtendibleHashTable, ('k, 'v) DiskExtendibleHashTable) pass" where
  "insert_into_directory ht directory_page_id key val =
     (case fetch_directory ht directory_page_id of
        Inl e \<Rightarrow> Finished (Inl e)
      | Inr directory \<Rightarrow>
     (let bucket_idx = HashToBucketIndex directory (Hash ht key) in
      case GetBucketPageId directory bucket_idx of
        Inl e \<Rightarrow> Finished (Inl e)
      | Inr bucket_page_id \<Rightarrow>
          if bucket_page_id = INVALID_PAGE_ID
          then (case new_page ht (BucketPage (Init_bucket (bucket_max_size ht)
                                                 (zero_bucket (bucket_array_size ht)))) of
                  Inl e \<Rightarrow> Finished (Inl e)
                | Inr (new_id, ht1) \<Rightarrow>
                    (case SetBucketPageId directory bucket_idx new_id of
                       Inl e \<Rightarrow> Finished (Inl e)
                     | Inr d1 \<Rightarrow>
                         (case SetLocalDepth d1 bucket_idx 0 of
                            Inl e \<Rightarrow> Finished (Inl e)
                          | Inr d2 \<Rightarrow>
                              insert_into_bucket (put_page ht1 directory_page_id (DirectoryPage d2))
                                directory_page_id d2 bucket_idx new_id key val)))
          else insert_into_bucket ht directory_page_id directory bucket_idx bucket_page_id key val))"

definition insert_pass ::
  "('k, 'v) DiskExtendibleHashTable \<Rightarrow> 'k \<Rightarrow> 'v \<Rightarrow>
     (failure + bool \<times> ('k::{linorder,zero}, 'v::zero) DiskExtendibleHashTable, ('k, 'v) DiskExtendibleHashTable) pass" where
  "insert_pass ht key val =
     (if header_page_id ht = INVALID_PAGE_ID then Finished (Inr (False, ht))
      else (case fetch_header ht (header_page_id ht) of
        Inl e \<Rightarrow> Finished (Inl e)
      | Inr header \<Rightarrow>
     (let directory_idx = HashToDirectoryIndex header (Hash ht key) in
      case GetDirectoryPageId header directory_idx of
        Inl e \<Rightarrow> Finished (Inl e)
      | Inr directory_page_id \<Rightarrow>
          if directory_page_id = INVALID_PAGE_ID
          then (case new_page ht (DirectoryPage (Init_directory (directory_max_depth ht)
                                                    (zero_directory (directory_array_size ht)))) of
                  Inl e \<Rightarrow> Finished (Inl e)
                | Inr (new_id, ht1) \<Rightarrow>
                    (case SetDirectoryPageId header directory_idx new_id of
                       Inl e \<Rightarrow> Finished (Inl e)
                     | Inr header' \<Rightarrow>
                         insert_into_directory (put_page ht1 (header_page_id ht) (HeaderPage header'))
                           new_id key val))
          else insert_into_directory ht directory_page_id key val)))"

partial_function (option) Insert ::
  "('k::{linorder,zero}, 'v::zero) DiskExtendibleHashTable \<Rightarrow> 'k \<Rightarrow> 'v \<Rightarrow>
     (failure + bool \<times> ('k, 'v) DiskExtendibleHashTable) option" where
  "Insert ht key val =
     (case insert_pass ht key val of
        Finished r \<Rightarrow> Some r
      | Again ht' \<Rightarrow> Insert ht' key val)"

text \<open>
  Modelled from the spec: \<^verbatim>\<open>TryMergeBucket\<close> is called by \<^verbatim>\<open>Remove\<close> and is not defined
  in the sources at hand. The spec: if the bucket and its split image have equal local
  depth \<open>> 0\<close> and at least one is empty, delete the empty bucket's page, redirect its
  directory slots to the surviving bucket, decrement the surviving bucket's local depth
  and propagate it to all aliasing slots, and recurse while a merge is still possible.
  A local depth is a \<^verbatim>\<open>uint8_t\<close> and every merge lowers that of the slot by one, so the
  recursion is at most 255 deep; the counter \<open>n\<close> bounds it.
\<close>

definition merge_slot ::
  "page_id_t \<Rightarrow> page_id_t \<Rightarrow> uint32_t \<Rightarrow> nat \<Rightarrow> page_id_t \<times> uint8_t \<Rightarrow> page_id_t \<times> uint8_t" where
  "merge_slot dead survivor ld i slot =
     (if fst slot = dead \<or> fst slot = survivor then (survivor, ucast ld) else slot)"

fun try_merge ::
  "nat \<Rightarrow> ('k, 'v) DiskExtendibleHashTable \<Rightarrow> page_id_t \<Rightarrow> uint32_t \<Rightarrow>
     failure + ('k, 'v) DiskExtendibleHashTable" where
  "try_merge 0 ht directory_page_id bucket_idx = Inr ht"
| "try_merge (Suc n) ht directory_page_id bucket_idx =
     (case fetch_directory ht directory_page_id of
        Inl e \<Rightarrow> Inl e
      | Inr d \<Rightarrow>
     (case GetLocalDepth d bucket_idx of
        Inl e \<Rightarrow> Inl e
      | Inr ld \<Rightarrow>
          if ld = 0 then Inr ht
          else
     (case GetSplitImageIndex d bucket_idx of
        Inl e \<Rightarrow> Inl e
      | Inr image_idx \<Rightarrow>
     (case GetLocalDepth d image_idx of
        Inl e \<Rightarrow> Inl e
      | Inr image_ld \<Rightarrow>
          if image_ld \<noteq> ld then Inr ht
          else
     (case GetBucketPageId d bucket_idx of
        Inl e \<Rightarrow> Inl e
      | Inr bucket_id \<Rightarrow>
     (case GetBucketPageId d image_idx of
        Inl e \<Rightarrow> Inl e
      | Inr image_id \<Rightarrow>
     (case fetch_bucket ht bucket_id of
        Inl e \<Rightarrow> Inl e
      | Inr b \<Rightarrow>
     (case fetch_bucket ht image_id of
        Inl e \<Rightarrow> Inl e
      | Inr image_bucket \<Rightarrow>
          if \<not> IsEmpty b \<and> \<not> IsEmpty image_bucket then Inr ht
          else
            (let dead = (if IsEmpty b then bucket_id else image_id);
                 survivor = (if IsEmpty b then image_id else bucket_id)
             in case map_slots (merge_slot dead survivor (ld - 1)) d of
                  Inl e \<Rightarrow> Inl e
                | Inr d' \<Rightarrow>
                    try_merge n
                      ((put_page ht directory_page_id (DirectoryPage d'))
                         \<lparr>store := (store (put_page ht directory_page_id (DirectoryPage d')))(dead := None)\<rparr>)
                      directory_page_id bucket_idx)))))))))"

definition TryMergeBucket ::
  "('k, 'v) DiskExtendibleHashTable \<Rightarrow> page_id_t \<Rightarrow> uint32_t \<Rightarrow>
     failure + ('k, 'v) DiskExtendibleHashTable" where
  "TryMergeBucket ht directory_page_id bucket_idx = try_merge 256 ht directory_page_id bucket_idx"

text \<open>The loop \<^verbatim>\<open>while (directory->CanShrink()) directory->DecrGlobalDepth()\<close>.\<close>

function shrink_loop :: "ExtendibleHTableDirectoryPage \<Rightarrow> failure + ExtendibleHTableDirectoryPage" where
  "shrink_loop d =
     (case CanShrink d of
        Inl e \<Rightarrow> Inl e
      | Inr can \<Rightarrow> if can then shrink_loop (DecrGlobalDepth d) else Inr d)"
  by pat_completeness auto
termination
proof (relation "measure (\<lambda>d. unat (global_depth d))")
  show "wf (measure (\<lambda>d. unat (global_depth d)))" by simp
next
  fix d can
  assume c: "CanShrink d = Inr can" and "can"
  have "global_depth d \<noteq> 0"
  proof
    assume z: "global_depth d = 0"
    with c \<open>can\<close> show False
      by (cases "local_depths d") (auto simp: CanShrink_def Size_directory_def split: if_splits)
  qed
  then have "unat (global_depth d - 1) < unat (global_depth d)"
    by (simp add: unat_minus_one unat_gt_0)
  with \<open>global_depth d \<noteq> 0\<close> show "(DecrGlobalDepth d, d) \<in> measure (\<lambda>d. unat (global_depth d))"
    by (simp add: DecrGlobalDepth_def)
qed

declare shrink_loop.simps [simp del]

text \<open>\<^verbatim>\<open>Remove\<close> of the table.\<close>

definition Remove ::
  "('k::linorder, 'v) DiskExtendibleHashTable \<Rightarrow> 'k \<Rightarrow>
     failure + bool \<times> ('k, 'v) DiskExtendibleHashTable" where
  "Remove ht key =
     (if header_page_id ht = INVALID_PAGE_ID then Inr (False, ht)
      else (case fetch_header ht (header_page_id ht) of
        Inl e \<Rightarrow> Inl e
      | Inr header \<Rightarrow>
     (case GetDirectoryPageId header (HashToDirectoryIndex header (Hash ht key)) of
        Inl e \<Rightarrow> Inl e
      | Inr directory_page_id \<Rightarrow>
          if directory_page_id = INVALID_PAGE_ID then Inr (False, ht)
          else
     (case fetch_directory ht directory_page_id of
        Inl e \<Rightarrow> Inl e
      | Inr directory \<Rightarrow>
     (let bucket_idx = HashToBucketIndex directory (Hash ht key) in
      case GetBucketPageId directory bucket_idx of
        Inl e \<Rightarrow> Inl e
      | Inr bucket_page_id \<Rightarrow>
          if bucket_page_id = INVALID_PAGE_ID then Inr (False, ht)
          else
     (case fetch_bucket ht bucket_page_id of
        Inl e \<Rightarrow> Inl e
      | Inr bucket \<Rightarrow>
     (case Remove_bucket bucket key of
        Inl e \<Rightarrow> Inl e
      | Inr (removed, bucket') \<Rightarrow>
          if \<not> removed then Inr (False, ht)
          else
     (case TryMergeBucket (put_page ht bucket_page_id (BucketPage bucket')) directory_page_id bucket_idx of
        Inl e \<Rightarrow> Inl e
      | Inr ht1 \<Rightarrow>
     (case fetch_directory ht1 directory_page_id of
        Inl e \<Rightarrow> Inl e
      | Inr d1 \<Rightarrow>
     (case shrink_loop d1 of
        Inl e \<Rightarrow> Inl e
      | Inr d2 \<Rightarrow> Inr (True, put_page ht1 directory_page_id (DirectoryPage d2))))))))))))"

text \<open>
  Sequences of calls on a table. A sequence has a final table when every call of it
  returns.
\<close>

datatype ('k, 'v) table_op = OpInsert 'k 'v | OpRemove_key 'k

fun table_step ::
  "('k::{linorder,zero}, 'v::zero) DiskExtendibleHashTable \<Rightarrow> ('k, 'v) table_op \<Rightarrow>
     ('k, 'v) DiskExtendibleHashTable option" where
  "table_step ht (OpInsert k v) =
     (case Insert ht k v of Some (Inr (r, ht')) \<Rightarrow> Some ht' | _ \<Rightarrow> None)"
| "table_step ht (OpRemove_key k) =
     (case Remove ht k of Inr (r, ht') \<Rightarrow> Some ht' | Inl e \<Rightarrow> None)"

fun table_run ::
  "('k::{linorder,zero}, 'v::zero) DiskExtendibleHashTable \<Rightarrow> ('k, 'v) table_op list \<Rightarrow>
     ('k, 'v) DiskExtendibleHashTable option" where
  "table_run ht [] = Some ht"
| "table_run ht (op # ops) =
     (case table_step ht op of None \<Rightarrow> None | Some ht' \<Rightarrow> table_run ht' ops)"

text \<open>The flags a sequence of calls returns, and \<^verbatim>\<open>GetValue\<close> after a sequence.\<close>

declare Insert.simps [code]

fun table_trace ::
  "('k::{linorder,zero}, 'v::zero) DiskExtendibleHashTable \<Rightarrow> ('k, 'v) table_op list \<Rightarrow> bool list option" where
  "table_trace ht [] = Some []"
| "table_trace ht (OpInsert k v # ops) =
     (case Insert ht k v of
        Some (Inr (r, ht')) \<Rightarrow> map_option ((#) r) (table_trace ht' ops)
      | _ \<Rightarrow> None)"
| "table_trace ht (OpRemove_key k # ops) =
     (case Remove ht k of
        Inr (r, ht') \<Rightarrow> map_option ((#) r) (table_trace ht' ops)
      | Inl e \<Rightarrow> None)"

definition get_after ::
  "('k::{linorder,zero}, 'v::zero) DiskExtendibleHashTable \<Rightarrow> ('k, 'v) table_op list \<Rightarrow> 'k \<Rightarrow>
     (failure + bool \<times> 'v list) option" where
  "get_after ht ops key = map_option (\<lambda>ht'. GetValue ht' key []) (table_run ht ops)"

section \<open>Concrete states used in the examples\<close>

definition zero_disk :: "nat \<Rightarrow> page_id_t \<Rightarrow> uint8_t list" where
  "zero_disk page_bytes pid = replicate page_bytes 0"

text \<open>
  A pool of one frame of four bytes after \<^verbatim>\<open>NewPage\<close> and \<^verbatim>\<open>UnpinPage(0, false)\<close>:
  page 0 is resident in frame 0, clean, with pin count 0 (\<open>example_pool\<close>); the same
  with the dirty flag set (\<open>example_pool_dirty\<close>); and the pool while page 0 is
  pinned \<open>n\<close> times (\<open>example_pool_pinned\<close>).
\<close>

definition example_pool :: BufferPoolManager where
  "example_pool =
     \<lparr>pool_size = 1,
      pages = [\<lparr>data = replicate 4 0, page_id = 0, pin_count = 0, is_dirty = False\<rparr>],
      page_table = [0 \<mapsto> 0],
      free_list = [],
      replacer = \<lparr>node_store = [0 \<mapsto> \<lparr>node_k = 1, is_evictable = True\<rparr>],
                  hist_list = [0], cache_list = [], curr_size = 1,
                  replacer_size = 1, replacer_k = 2\<rparr>,
      next_page_id = 1,
      disk = zero_disk 4\<rparr>"

definition example_pool_dirty :: BufferPoolManager where
  "example_pool_dirty =
     example_pool\<lparr>pages := [\<lparr>data = replicate 4 0, page_id = 0, pin_count = 0, is_dirty = True\<rparr>]\<rparr>"

definition example_pool_pinned :: "int \<Rightarrow> BufferPoolManager" where
  "example_pool_pinned n =
     \<lparr>pool_size = 1,
      pages = [\<lparr>data = replicate 4 0, page_id = 0, pin_count = n, is_dirty = False\<rparr>],
      page_table = [0 \<mapsto> 0],
      free_list = [],
      replacer = \<lparr>node_store = [0 \<mapsto> \<lparr>node_k = 1, is_evictable = False\<rparr>],
                  hist_list = [0], cache_list = [], curr_size = 0,
                  replacer_size = 1, replacer_k = 2\<rparr>,
      next_page_id = 1,
      disk = zero_disk 4\<rparr>"

text \<open>
  Two replacers with \<open>k = 2\<close>. In the first the history list holds the evictable
  frames 3 and 2 and, at its tail, the pinned frame 1; in the second the only frame of
  the history list is pinned. The cache list holds the evictable frames 5 and 4 in both.
\<close>

definition example_replacer_hist :: LRUKReplacer where
  "example_replacer_hist =
     \<lparr>node_store = [1 \<mapsto> \<lparr>node_k = 1, is_evictable = False\<rparr>,
                    2 \<mapsto> \<lparr>node_k = 1, is_evictable = True\<rparr>,
                    3 \<mapsto> \<lparr>node_k = 1, is_evictable = True\<rparr>,
                    4 \<mapsto> \<lparr>node_k = 2, is_evictable = True\<rparr>,
                    5 \<mapsto> \<lparr>node_k = 2, is_evictable = True\<rparr>],
      hist_list = [3, 2, 1], cache_list = [5, 4], curr_size = 4,
      replacer_size = 7, replacer_k = 2\<rparr>"

definition example_replacer_cache :: LRUKReplacer where
  "example_replacer_cache =
     \<lparr>node_store = [1 \<mapsto> \<lparr>node_k = 1, is_evictable = False\<rparr>,
                    4 \<mapsto> \<lparr>node_k = 2, is_evictable = True\<rparr>,
                    5 \<mapsto> \<lparr>node_k = 2, is_evictable = True\<rparr>],
      hist_list = [1], cache_list = [5, 4], curr_size = 2,
      replacer_size = 7, replacer_k = 2\<rparr>"

text \<open>
  An empty table of \<^verbatim>\<open>int\<close> keys and values with the identity as hash function,
  header depth 0, directory depth 2 and buckets of two entries; the arrays have the
  sizes of a 4 KiB page (512 directory ids, 512 bucket ids, 511 pairs of \<^verbatim>\<open>int\<close>). The
  header page is page 0. \<open>example_table_3\<close> is the table after \<^verbatim>\<open>Insert(3, 30)\<close>.
\<close>

definition int_hash :: "int \<Rightarrow> uint32_t" where
  "int_hash k = of_int k"

definition example_table :: "(int, int) DiskExtendibleHashTable" where
  "example_table = new_DiskExtendibleHashTable int_hash 0 2 2 512 512 511 0"

definition example_table_3 :: "(int, int) DiskExtendibleHashTable" where
  "example_table_3 = the (table_run example_table [OpInsert 3 30])"

definition size_inv :: "LRUKReplacer \<Rightarrow> bool" where
  "size_inv r \<longleftrightarrow> curr_size r = of_nat (card (evictable_frames r))"

section \<open>Hash table: well-formed tables\<close>

text \<open>
  The predicates of this section describe the tables that the constructor, \<^verbatim>\<open>Insert\<close>
  and \<^verbatim>\<open>Remove\<close> produce; they are used in the proofs about sequences of calls.

  \<open>entries\<close> are the pairs a bucket page holds, the first \<open>bsize\<close> slots of its array.
  A bucket page is well formed when its keys are strictly increasing and its entries
  and \<open>max_size\<close> fit in the array.
\<close>

definition entries :: "('k, 'v) ExtendibleHTableBucketPage \<Rightarrow> ('k \<times> 'v) list" where
  "entries b = take (bsize b) (array b)"

definition bucket_wf :: "('k::linorder, 'v) ExtendibleHTableBucketPage \<Rightarrow> bool" where
  "bucket_wf b \<longleftrightarrow>
     bsize b \<le> length (array b) \<and> max_size b \<le> length (array b)
     \<and> sorted_wrt (<) (map fst (entries b))"

text \<open>
  The global depth, a bucket page id and a local depth of a directory page, as
  numbers. A directory page is well formed when its depths are within the bounds and
  two slots below \<open>Size()\<close> hold the same bucket page exactly when their indices agree
  on the low local-depth bits.
\<close>

definition gdn :: "ExtendibleHTableDirectoryPage \<Rightarrow> nat" where
  "gdn d = unat (global_depth d)"

definition slot_pid :: "ExtendibleHTableDirectoryPage \<Rightarrow> nat \<Rightarrow> page_id_t" where
  "slot_pid d i = bucket_page_ids d ! i"

definition slot_ld :: "ExtendibleHTableDirectoryPage \<Rightarrow> nat \<Rightarrow> nat" where
  "slot_ld d i = unat (local_depths d ! i)"

definition dir_ok :: "nat \<Rightarrow> uint32_t \<Rightarrow> ExtendibleHTableDirectoryPage \<Rightarrow> bool" where
  "dir_ok das dmd d \<longleftrightarrow>
     max_depth d = dmd \<and> unat dmd \<le> 31 \<and> 2 ^ unat dmd \<le> das \<and> gdn d \<le> unat dmd
     \<and> length (bucket_page_ids d) = das \<and> length (local_depths d) = das
     \<and> (\<forall>i<2 ^ gdn d. slot_ld d i \<le> gdn d)
     \<and> (\<forall>i<2 ^ gdn d. \<forall>i'<2 ^ gdn d.
           (slot_pid d i = slot_pid d i') = (take_bit (slot_ld d i) i = take_bit (slot_ld d i) i'))
     \<and> (\<forall>i<2 ^ gdn d. \<forall>i'<2 ^ gdn d. slot_pid d i = slot_pid d i' \<longrightarrow> slot_ld d i = slot_ld d i')"

text \<open>
  The header depth, the header slot of a key and its directory slot, as numbers; the
  bounds on the parameters of a table under which the pages hold their arrays; two
  tables with the same parameters.
\<close>

definition hdn :: "('k, 'v) DiskExtendibleHashTable \<Rightarrow> nat" where
  "hdn ht = unat (header_max_depth ht)"

definition dir_index :: "('k, 'v) DiskExtendibleHashTable \<Rightarrow> 'k \<Rightarrow> nat" where
  "dir_index ht k = drop_bit (32 - hdn ht) (unat (Hash ht k))"

definition bkt_index :: "ExtendibleHTableDirectoryPage \<Rightarrow> ('k, 'v) DiskExtendibleHashTable \<Rightarrow> 'k \<Rightarrow> nat" where
  "bkt_index d ht k = take_bit (gdn d) (unat (Hash ht k))"

definition config_ok :: "('k, 'v) DiskExtendibleHashTable \<Rightarrow> bool" where
  "config_ok ht \<longleftrightarrow>
     bucket_max_size ht \<le> bucket_array_size ht
     \<and> hdn ht \<le> 32 \<and> 2 ^ hdn ht \<le> header_array_size ht
     \<and> unat (directory_max_depth ht) \<le> 31
     \<and> 2 ^ unat (directory_max_depth ht) \<le> directory_array_size ht"

definition same_config :: "('k, 'v) DiskExtendibleHashTable \<Rightarrow> ('k, 'v) DiskExtendibleHashTable \<Rightarrow> bool" where
  "same_config ht ht' \<longleftrightarrow>
     header_page_id ht' = header_page_id ht \<and> header_max_depth ht' = header_max_depth ht
     \<and> directory_max_depth ht' = directory_max_depth ht \<and> bucket_max_size ht' = bucket_max_size ht
     \<and> hash_fn ht' = hash_fn ht \<and> header_array_size ht' = header_array_size ht
     \<and> directory_array_size ht' = directory_array_size ht
     \<and> bucket_array_size ht' = bucket_array_size ht"

text \<open>
  The bucket page of slot \<open>i\<close>, of local depth \<open>ld\<close>, in the directory of header slot \<open>j\<close>:
  its keys are strictly increasing, hash to \<open>j\<close> and agree with \<open>i\<close> on the low \<open>ld\<close> bits
  of the hash. \<open>dir_at ht j dp d\<close>: header slot \<open>j\<close> holds the page id \<open>dp\<close> of the directory
  page \<open>d\<close>; \<open>owns ht j p\<close>: a slot of that directory holds the bucket page id \<open>p\<close>.

  A table is well formed when its header slots hold distinct directory pages, each
  directory page and its bucket pages are well formed, either every slot of a directory
  holds a bucket or the directory is new (global depth 0, no bucket), no bucket belongs
  to two directories, and every page id in use is below \<open>next_page\<close>. A pair is present
  when the bucket of the key's slot holds it among its entries.
\<close>

definition bucket_ok ::
  "('k::linorder, 'v) DiskExtendibleHashTable \<Rightarrow> nat \<Rightarrow> nat \<Rightarrow> nat \<Rightarrow>
     ('k, 'v) ExtendibleHTableBucketPage \<Rightarrow> bool" where
  "bucket_ok ht j ld i b \<longleftrightarrow>
     max_size b = bucket_max_size ht \<and> bsize b \<le> max_size b
     \<and> length (array b) = bucket_array_size ht
     \<and> sorted_wrt (<) (map fst (entries b))
     \<and> (\<forall>e\<in>set (entries b). dir_index ht (fst e) = j
            \<and> take_bit ld (unat (Hash ht (fst e))) = take_bit ld i)"

definition header_of :: "('k, 'v) DiskExtendibleHashTable \<Rightarrow> ExtendibleHTableHeaderPage \<Rightarrow> bool" where
  "header_of ht h \<longleftrightarrow>
     store ht (header_page_id ht) = Some (HeaderPage h)
     \<and> hmax_depth h = header_max_depth ht
     \<and> length (directory_page_ids h) = header_array_size ht"

definition dir_at ::
  "('k, 'v) DiskExtendibleHashTable \<Rightarrow> nat \<Rightarrow> page_id_t \<Rightarrow> ExtendibleHTableDirectoryPage \<Rightarrow> bool" where
  "dir_at ht j dp d \<longleftrightarrow>
     (\<exists>h. header_of ht h \<and> directory_page_ids h ! j = dp)
     \<and> j < 2 ^ hdn ht \<and> dp \<noteq> INVALID_PAGE_ID \<and> store ht dp = Some (DirectoryPage d)"

definition owns :: "('k, 'v) DiskExtendibleHashTable \<Rightarrow> nat \<Rightarrow> page_id_t \<Rightarrow> bool" where
  "owns ht j p \<longleftrightarrow>
     (\<exists>dp d i. dir_at ht j dp d \<and> i < 2 ^ gdn d \<and> slot_pid d i = p) \<and> p \<noteq> INVALID_PAGE_ID"

definition buckets_ok ::
  "('k::linorder, 'v) DiskExtendibleHashTable \<Rightarrow> nat \<Rightarrow> ExtendibleHTableDirectoryPage \<Rightarrow> bool" where
  "buckets_ok ht j d \<longleftrightarrow>
     (\<forall>i<2 ^ gdn d. slot_pid d i \<noteq> INVALID_PAGE_ID \<longrightarrow>
        (\<exists>b. store ht (slot_pid d i) = Some (BucketPage b) \<and> bucket_ok ht j (slot_ld d i) i b))
     \<and> ((\<exists>i<2 ^ gdn d. slot_pid d i = INVALID_PAGE_ID) \<longrightarrow> gdn d = 0)"

definition table_ok :: "('k::linorder, 'v) DiskExtendibleHashTable \<Rightarrow> bool" where
  "table_ok ht \<longleftrightarrow>
     config_ok ht
     \<and> (\<exists>h. header_of ht h
          \<and> (\<forall>j<2 ^ hdn ht. \<forall>j'<2 ^ hdn ht.
                directory_page_ids h ! j = directory_page_ids h ! j'
                \<longrightarrow> directory_page_ids h ! j \<noteq> INVALID_PAGE_ID \<longrightarrow> j = j'))
     \<and> (\<forall>j dp d. dir_at ht j dp d \<longrightarrow>
            dir_ok (directory_array_size ht) (directory_max_depth ht) d \<and> buckets_ok ht j d)
     \<and> (\<forall>j dp. (\<exists>h. header_of ht h \<and> directory_page_ids h ! j = dp) \<and> j < 2 ^ hdn ht
            \<and> dp \<noteq> INVALID_PAGE_ID \<longrightarrow> (\<exists>d. store ht dp = Some (DirectoryPage d)))
     \<and> (\<forall>p\<in>dom (store ht). p < next_page ht)
     \<and> (\<forall>j j' p. owns ht j p \<longrightarrow> owns ht j' p \<longrightarrow> j = j')"

definition present :: "('k::linorder, 'v) DiskExtendibleHashTable \<Rightarrow> 'k \<Rightarrow> 'v \<Rightarrow> bool" where
  "present ht k v \<longleftrightarrow>
     (\<exists>dp d b. dir_at ht (dir_index ht k) dp d
        \<and> slot_pid d (bkt_index d ht k) \<noteq> INVALID_PAGE_ID
        \<and> store ht (slot_pid d (bkt_index d ht k)) = Some (BucketPage b)
        \<and> (k, v) \<in> set (entries b))"

text \<open>
  One call leaves the table well formed and every pair that was present is still
  present; what a pass of \<^verbatim>\<open>Insert\<close> yields from a well-formed table.
\<close>

definition step_ok ::
  "('k::linorder, 'v) DiskExtendibleHashTable \<Rightarrow> ('k, 'v) DiskExtendibleHashTable \<Rightarrow> bool" where
  "step_ok ht ht' \<longleftrightarrow> table_ok ht' \<and> (\<forall>k v. present ht k v \<longrightarrow> present ht' k v)"

definition insert_post ::
  "('k::{linorder,zero}, 'v::zero) DiskExtendibleHashTable \<Rightarrow> 'k \<Rightarrow> 'v \<Rightarrow>
     (failure + bool \<times> ('k, 'v) DiskExtendibleHashTable, ('k, 'v) DiskExtendibleHashTable) pass \<Rightarrow> bool" where
  "insert_post ht k v x =
     (case x of
        Finished (Inl e) \<Rightarrow> True
      | Finished (Inr (r, ht')) \<Rightarrow> step_ok ht ht' \<and> (r \<longrightarrow> present ht' k v)
      | Again ht' \<Rightarrow> step_ok ht ht')"

section \<open>Directory page: the bound on the global depth\<close>

text \<open>
  C3. The claim: on a directory with \<open>global_depth \<le> max_depth\<close>, \<^verbatim>\<open>IncrGlobalDepth\<close>
  keeps \<open>global_depth \<le> max_depth\<close>. The code guards with \<open>>\<close> where \<open>\<ge>\<close> is
  needed: a directory initialised with \<open>max_depth = 0\<close> has \<open>global_depth = 0\<close>, and
  one call of \<^verbatim>\<open>IncrGlobalDepth\<close> copies slot 0 to slot 1 and leaves
  \<open>global_depth = 1 > max_depth\<close>.
\<close>

theorem IncrGlobalDepth_exceeds_max_depth:
  "global_depth (Init_directory 0 (zero_directory 512)) \<le> max_depth (Init_directory 0 (zero_directory 512))
   \<and> map_option global_depth (IncrGlobalDepth (Init_directory 0 (zero_directory 512))) = Some 1
   \<and> map_option max_depth (IncrGlobalDepth (Init_directory 0 (zero_directory 512))) = Some 0"
  by (simp add: IncrGlobalDepth_def Init_directory_def zero_directory_def)

section \<open>LRU-K replacer: the victim of \<open>Evict\<close>\<close>

lemma node_at_subscript [simp]: "node_at (subscript ns g) f = node_at ns f"
  by (auto simp: node_at_def subscript_def split: option.splits)

lemma node_at_subscript_all [simp]: "node_at (subscript_all fs ns) f = node_at ns f"
  by (induction fs arbitrary: ns) (simp_all add: subscript_all_def)

lemma subscript_tracked: "f \<in> dom ns \<Longrightarrow> subscript ns f = ns"
  by (auto simp: subscript_def)

lemma subscript_all_tracked: "set fs \<subseteq> dom ns \<Longrightarrow> subscript_all fs ns = ns"
  by (induction fs arbitrary: ns) (auto simp: subscript_all_def subscript_def)

lemma subscript_evictable: "is_evictable (node_at ns f) \<Longrightarrow> subscript ns f = ns"
  by (auto simp: node_at_def subscript_def default_node_def split: option.splits)

lemma scan_victim_none:
  "\<forall>g\<in>set xs. \<not> is_evictable (node_at ns g) \<Longrightarrow>
   scan_victim xs ns = (None, xs, subscript_all xs ns)"
  by (induction xs arbitrary: ns) (simp_all add: subscript_all_def)

lemma scan_victim_found:
  "\<forall>g\<in>set xs. \<not> is_evictable (node_at ns g) \<Longrightarrow> is_evictable (node_at ns v) \<Longrightarrow>
   scan_victim (xs @ v # ys) ns = (Some v, xs @ ys, subscript_all xs ns)"
  by (induction xs arbitrary: ns) (simp_all add: subscript_all_def subscript_evictable)

lemma evictable_frames_iff: "f \<in> evictable_frames r \<longleftrightarrow> is_evictable (node_at (node_store r) f)"
  by (auto simp: evictable_frames_def node_at_def default_node_def split: option.splits)

text \<open>
  C4. If the history list holds an evictable frame, \<^verbatim>\<open>Evict\<close> returns the one
  closest to the tail (\<open>v\<close>, with no evictable frame in the part \<open>suf\<close> behind it),
  whatever the cache list holds; if the history list holds none, it returns the
  evictable frame of the cache list closest to the tail. The frame leaves its list and
  the node store, and \<open>curr_size\<close> is decremented. The node store is otherwise the one
  the scan leaves, \<open>subscript_all\<close>, which is the node store itself when the scanned
  frames are tracked (\<open>subscript_all_tracked\<close>).
\<close>

theorem Evict_policy:
  "(hist_list r = pre @ v # suf \<and> v \<in> evictable_frames r \<and> (\<forall>g\<in>set suf. g \<notin> evictable_frames r)
      \<longrightarrow> Evict r = (Some v, r\<lparr>hist_list := pre @ suf,
                               node_store := (subscript_all (rev suf) (node_store r))(v := None),
                               curr_size := curr_size r - 1\<rparr>))
   \<and> ((\<forall>g\<in>set (hist_list r). g \<notin> evictable_frames r) \<and>
      cache_list r = pre @ v # suf \<and> v \<in> evictable_frames r \<and> (\<forall>g\<in>set suf. g \<notin> evictable_frames r)
      \<longrightarrow> Evict r = (Some v, r\<lparr>cache_list := pre @ suf,
                               node_store := (subscript_all (rev (hist_list r) @ rev suf) (node_store r))(v := None),
                               curr_size := curr_size r - 1\<rparr>))"
proof (intro conjI impI)
  assume a: "hist_list r = pre @ v # suf \<and> v \<in> evictable_frames r \<and> (\<forall>g\<in>set suf. g \<notin> evictable_frames r)"
  then have "scan_victim (rev (hist_list r)) (node_store r)
             = (Some v, rev suf @ rev pre, subscript_all (rev suf) (node_store r))"
    using scan_victim_found [of "rev suf" "node_store r" v "rev pre"]
    by (simp add: evictable_frames_iff)
  then show "Evict r = (Some v, r\<lparr>hist_list := pre @ suf,
                               node_store := (subscript_all (rev suf) (node_store r))(v := None),
                               curr_size := curr_size r - 1\<rparr>)"
    by (simp add: Evict_def)
next
  assume a: "(\<forall>g\<in>set (hist_list r). g \<notin> evictable_frames r) \<and>
      cache_list r = pre @ v # suf \<and> v \<in> evictable_frames r \<and> (\<forall>g\<in>set suf. g \<notin> evictable_frames r)"
  then have h: "scan_victim (rev (hist_list r)) (node_store r)
             = (None, rev (hist_list r), subscript_all (rev (hist_list r)) (node_store r))"
    using scan_victim_none [of "rev (hist_list r)" "node_store r"]
    by (simp add: evictable_frames_iff)
  from a have "scan_victim (rev (cache_list r)) (subscript_all (rev (hist_list r)) (node_store r))
             = (Some v, rev suf @ rev pre, subscript_all (rev suf) (subscript_all (rev (hist_list r)) (node_store r)))"
    using scan_victim_found [of "rev suf" "subscript_all (rev (hist_list r)) (node_store r)" v "rev pre"]
    by (simp add: evictable_frames_iff)
  with h show "Evict r = (Some v, r\<lparr>cache_list := pre @ suf,
                               node_store := (subscript_all (rev (hist_list r) @ rev suf) (node_store r))(v := None),
                               curr_size := curr_size r - 1\<rparr>)"
    by (simp add: Evict_def subscript_all_def)
qed

theorem Evict_policy_witness:
  "fst (Evict example_replacer_hist) = Some 2 \<and> hist_list (snd (Evict example_replacer_hist)) = [3, 1]
   \<and> fst (Evict example_replacer_cache) = Some 4 \<and> cache_list (snd (Evict example_replacer_cache)) = [5]"
proof -
  have h: "hist_list example_replacer_hist = [3] @ 2 # [1] \<and> 2 \<in> evictable_frames example_replacer_hist
           \<and> (\<forall>g\<in>set [1]. g \<notin> evictable_frames example_replacer_hist)"
    by (simp add: example_replacer_hist_def evictable_frames_def)
  have c: "(\<forall>g\<in>set (hist_list example_replacer_cache). g \<notin> evictable_frames example_replacer_cache)
           \<and> cache_list example_replacer_cache = [5] @ 4 # [] \<and> 4 \<in> evictable_frames example_replacer_cache
           \<and> (\<forall>g\<in>set []. g \<notin> evictable_frames example_replacer_cache)"
    by (simp add: example_replacer_cache_def evictable_frames_def)
  from h c show ?thesis
    using Evict_policy [of example_replacer_hist "[3]" 2 "[1]"]
      Evict_policy [of example_replacer_cache "[5]" 4 "[]"]
    by simp
qed

section \<open>LRU-K replacer: frames that are not tracked, frame ids out of range\<close>

text \<open>
  C10. \<^verbatim>\<open>Remove\<close> of a frame that has no node returns normally and leaves the
  replacer as it was.
\<close>

theorem Remove_untracked: "node_store r f = None \<Longrightarrow> Remove_frame r f = Returns () r"
  by (simp add: Remove_frame_def)

theorem Remove_untracked_witness:
  "node_store example_replacer_hist 6 = None
   \<and> Remove_frame example_replacer_hist 6 = Returns () example_replacer_hist"
proof -
  have n: "node_store example_replacer_hist 6 = None"
    by (simp add: example_replacer_hist_def)
  then show ?thesis using Remove_untracked [OF n] by simp
qed

lemma RecordAccess_invalid_frame:
  "invalid_frame r f \<Longrightarrow> RecordAccess r f = Throws InvalidArgument r"
  by (simp add: RecordAccess_def)

text \<open>
  C6. The claim: \<^verbatim>\<open>RecordAccess\<close> fails for every frame id \<open>\<ge> num_frames\<close>. The check
  is \<^verbatim>\<open>frame_id > replacer_size_\<close>, so the frame id \<open>num_frames\<close> itself is accepted:
  on a fresh replacer for 7 frames, \<^verbatim>\<open>RecordAccess(7)\<close> returns normally and tracks
  frame 7.
\<close>

theorem RecordAccess_accepts_num_frames:
  "int (unat (replacer_size (new_LRUKReplacer 7 2))) \<le> sint (7 :: frame_id_t)
   \<and> RecordAccess (new_LRUKReplacer 7 2) 7 =
       Returns () \<lparr>node_store = [7 \<mapsto> \<lparr>node_k = 1, is_evictable = False\<rparr>],
                   hist_list = [7], cache_list = [], curr_size = 0,
                   replacer_size = 7, replacer_k = 2\<rparr>"
  by (simp add: RecordAccess_def new_LRUKReplacer_def invalid_frame_def node_at_def default_node_def)

section \<open>LRU-K replacer: \<open>curr_size\<close> counts the evictable frames\<close>

lemma node_at_upd: "node_at (ns(f \<mapsto> n)) g = (if g = f then n else node_at ns g)"
  by (simp add: node_at_def)

lemma node_at_del: "node_at (ns(f := None)) g = (if g = f then default_node else node_at ns g)"
  by (simp add: node_at_def)

lemma scan_victim_node_at:
  "scan_victim xs ns = (vo, ys, ns') \<Longrightarrow> node_at ns' f = node_at ns f"
proof (induction xs arbitrary: ns vo ys ns')
  case Nil
  then show ?case by simp
next
  case (Cons x xs)
  show ?case
  proof (cases "is_evictable (node_at ns x)")
    case True
    with Cons.prems show ?thesis by auto
  next
    case False
    obtain v fs' ns2 where s: "scan_victim xs (subscript ns x) = (v, fs', ns2)"
      by (cases "scan_victim xs (subscript ns x)") auto
    with False Cons.prems have "ns' = ns2" by simp
    with Cons.IH [OF s] show ?thesis by simp
  qed
qed

lemma scan_victim_evictable:
  "scan_victim xs ns = (Some v, ys, ns') \<Longrightarrow> is_evictable (node_at ns v)"
proof (induction xs arbitrary: ns ys ns')
  case Nil
  then show ?case by simp
next
  case (Cons x xs)
  show ?case
  proof (cases "is_evictable (node_at ns x)")
    case True
    with Cons.prems show ?thesis by auto
  next
    case False
    obtain v' fs' ns2 where s: "scan_victim xs (subscript ns x) = (v', fs', ns2)"
      by (cases "scan_victim xs (subscript ns x)") auto
    with False Cons.prems have "v' = Some v" by simp
    with Cons.IH [of "subscript ns x" fs' ns2] s show ?thesis by simp
  qed
qed

lemma card_del_word:
  "f \<in> (A :: frame_id_t set) \<Longrightarrow> (of_nat (card A - Suc 0) :: size_t) = of_nat (card A) - 1"
proof -
  assume "f \<in> A"
  then have "0 < card A" by (auto simp: card_gt_0_iff)
  then obtain m where "card A = Suc m" by (cases "card A") auto
  then show ?thesis by simp
qed

lemma card_ins_word:
  "finite A \<Longrightarrow> f \<notin> A \<Longrightarrow> (of_nat (card (insert f A)) :: size_t) = of_nat (card A) + 1"
  by simp

lemma Evict_evictable_frames:
  "evictable_frames (snd (Evict r)) = (case fst (Evict r) of None \<Rightarrow> evictable_frames r | Some v \<Rightarrow> evictable_frames r - {v})"
  "fst (Evict r) = Some v \<Longrightarrow> v \<in> evictable_frames r"
proof -
  obtain v1 h ns1 where s1: "scan_victim (rev (hist_list r)) (node_store r) = (v1, h, ns1)"
    by (cases "scan_victim (rev (hist_list r)) (node_store r)") auto
  obtain v2 c ns2 where s2: "scan_victim (rev (cache_list r)) ns1 = (v2, c, ns2)"
    by (cases "scan_victim (rev (cache_list r)) ns1") auto
  have n1: "\<And>f. node_at ns1 f = node_at (node_store r) f" using scan_victim_node_at [OF s1] .
  have n2: "\<And>f. node_at ns2 f = node_at (node_store r) f" using scan_victim_node_at [OF s2] n1 by simp
  show "evictable_frames (snd (Evict r)) = (case fst (Evict r) of None \<Rightarrow> evictable_frames r | Some v \<Rightarrow> evictable_frames r - {v})"
    using s1 s2 n1 n2
    by (auto simp: Evict_def set_eq_iff evictable_frames_iff node_at_del default_node_def split: option.splits)
  show "fst (Evict r) = Some v \<Longrightarrow> v \<in> evictable_frames r"
    using s1 s2 n1 scan_victim_evictable [of "rev (hist_list r)" "node_store r" v h ns1]
      scan_victim_evictable [of "rev (cache_list r)" ns1 v c ns2]
    by (auto simp: Evict_def evictable_frames_iff split: option.splits)
qed

lemma Evict_curr_size:
  "curr_size (snd (Evict r)) = (case fst (Evict r) of None \<Rightarrow> curr_size r | Some v \<Rightarrow> curr_size r - 1)"
  by (auto simp: Evict_def split: prod.splits option.splits)

lemma size_inv_Evict: "size_inv r \<Longrightarrow> size_inv (snd (Evict r))"
proof (cases "fst (Evict r)")
  case None
  assume "size_inv r"
  with None show ?thesis
    by (simp add: size_inv_def Evict_evictable_frames(1) Evict_curr_size)
next
  case (Some v)
  assume "size_inv r"
  with Some Evict_evictable_frames(2) [OF Some] show ?thesis
    by (simp add: size_inv_def Evict_evictable_frames(1) Evict_curr_size card_del_word)
qed

lemma size_inv_RecordAccess: "size_inv r \<Longrightarrow> after (RecordAccess r f) = Some r' \<Longrightarrow> size_inv r'"
proof -
  assume i: "size_inv r" and a: "after (RecordAccess r f) = Some r'"
  have "evictable_frames r' = evictable_frames r \<and> curr_size r' = curr_size r"
    using a
    by (auto simp: RecordAccess_def after_def Let_def set_eq_iff evictable_frames_iff node_at_upd
             split: if_splits)
  with i show ?thesis by (simp add: size_inv_def)
qed

lemma size_inv_SetEvictable: "size_inv r \<Longrightarrow> after (SetEvictable r f b) = Some r' \<Longrightarrow> size_inv r'"
proof -
  assume i: "size_inv r" and a: "after (SetEvictable r f b) = Some r'"
  show ?thesis
  proof (cases "invalid_frame r f \<or> node_store r f = None")
    case True
    with a have "r' = r" by (auto simp: SetEvictable_def after_def split: if_splits)
    with i show ?thesis by simp
  next
    case False
    then obtain n where n: "node_store r f = Some n" by auto
    from False have v: "\<not> invalid_frame r f" by simp
    have r': "r' = r\<lparr>curr_size :=
                       (if b \<and> \<not> is_evictable n then curr_size r + 1
                        else if is_evictable n \<and> \<not> b then curr_size r - 1
                        else curr_size r),
                     node_store := (node_store r)(f \<mapsto> n\<lparr>is_evictable := b\<rparr>)\<rparr>"
      using a v n by (simp add: SetEvictable_def after_def)
    have ev: "f \<in> evictable_frames r \<longleftrightarrow> is_evictable n"
      using n by (simp add: evictable_frames_def)
    have e: "evictable_frames r' = (if b then insert f (evictable_frames r) else evictable_frames r - {f})"
      using n unfolding r'
      by (auto simp: set_eq_iff evictable_frames_iff node_at_upd node_at_def)
    have c: "curr_size r' = (if b \<and> \<not> is_evictable n then curr_size r + 1
                        else if is_evictable n \<and> \<not> b then curr_size r - 1
                        else curr_size r)"
      unfolding r' by simp
    show ?thesis
    proof (cases b)
      case True
      show ?thesis
      proof (cases "is_evictable n")
        case True
        with \<open>b\<close> e c ev i show ?thesis by (simp add: size_inv_def insert_absorb)
      next
        case False
        with \<open>b\<close> e c ev i show ?thesis by (simp add: size_inv_def)
      qed
    next
      case False
      show ?thesis
      proof (cases "is_evictable n")
        case True
        with \<open>\<not> b\<close> e c ev i show ?thesis by (simp add: size_inv_def card_del_word)
      next
        case False
        with \<open>\<not> b\<close> e c ev i show ?thesis by (simp add: size_inv_def)
      qed
    qed
  qed
qed

lemma size_inv_Remove: "size_inv r \<Longrightarrow> after (Remove_frame r f) = Some r' \<Longrightarrow> size_inv r'"
proof -
  assume i: "size_inv r" and a: "after (Remove_frame r f) = Some r'"
  show ?thesis
  proof (cases "node_store r f")
    case None
    with a have "r' = r" by (simp add: Remove_frame_def after_def)
    with i show ?thesis by simp
  next
    case (Some n)
    show ?thesis
    proof (cases "is_evictable n")
      case False
      with a Some have "r' = r" by (simp add: Remove_frame_def after_def)
      with i show ?thesis by simp
    next
      case True
      with Some have ev: "f \<in> evictable_frames r" by (simp add: evictable_frames_def)
      have "evictable_frames r' = evictable_frames r - {f} \<and> curr_size r' = curr_size r - 1"
        using a Some True
        by (auto simp: Remove_frame_def after_def set_eq_iff evictable_frames_iff node_at_del default_node_def
                 split: if_splits)
      with i ev show ?thesis by (simp add: size_inv_def card_del_word)
    qed
  qed
qed

lemma size_inv_step: "size_inv r \<Longrightarrow> replacer_step r op = Some r' \<Longrightarrow> size_inv r'"
  by (cases op) (auto intro: size_inv_RecordAccess size_inv_SetEvictable size_inv_Remove size_inv_Evict)

lemma size_inv_run: "size_inv r \<Longrightarrow> replacer_run r ops = Some r' \<Longrightarrow> size_inv r'"
proof (induction ops arbitrary: r)
  case Nil
  then show ?case by simp
next
  case (Cons op ops)
  then show ?case by (auto split: option.splits dest: size_inv_step)
qed

lemma size_inv_new: "size_inv (new_LRUKReplacer n k)"
  by (simp add: size_inv_def new_LRUKReplacer_def evictable_frames_def)

lemma card_frames_bound: "card (A :: frame_id_t set) < 2 ^ 64"
proof -
  have "card A \<le> card (UNIV :: frame_id_t set)" by (rule card_mono) auto
  also have "\<dots> = 2 ^ 32" by (simp add: card_word)
  finally show ?thesis by simp
qed

text \<open>
  C8. After any sequence of \<^verbatim>\<open>RecordAccess\<close>, \<^verbatim>\<open>SetEvictable\<close>, \<^verbatim>\<open>Evict\<close> and
  \<^verbatim>\<open>Remove\<close> calls on a fresh replacer (thrown exceptions caught by the caller), the
  value of \<^verbatim>\<open>Size()\<close> is the number of tracked frames whose flag is set.
\<close>

theorem curr_size_counts_evictable:
  "replacer_run (new_LRUKReplacer n k) ops = Some r \<Longrightarrow>
   unat (Size_replacer r) = card (evictable_frames r)"
proof -
  assume "replacer_run (new_LRUKReplacer n k) ops = Some r"
  then have "size_inv r" using size_inv_new size_inv_run by blast
  then show ?thesis
    using card_frames_bound [of "evictable_frames r"]
    by (simp add: size_inv_def Size_replacer_def unat_of_nat)
qed

theorem curr_size_counts_evictable_witness:
  "replacer_run (new_LRUKReplacer 7 2)
     [OpRecordAccess 1, OpRecordAccess 2, OpSetEvictable 1 True, OpSetEvictable 2 True,
      OpRecordAccess 1, OpRecordAccess 9, OpEvict, OpRemove 3]
   = Some \<lparr>node_store = [1 \<mapsto> \<lparr>node_k = 2, is_evictable = True\<rparr>],
           hist_list = [], cache_list = [1], curr_size = 1,
           replacer_size = 7, replacer_k = 2\<rparr>
   \<and> unat (Size_replacer \<lparr>node_store = [1 \<mapsto> \<lparr>node_k = 2, is_evictable = True\<rparr>],
           hist_list = [], cache_list = [1], curr_size = 1,
           replacer_size = 7, replacer_k = 2\<rparr>)
     = card (evictable_frames \<lparr>node_store = [1 \<mapsto> \<lparr>node_k = 2, is_evictable = True\<rparr>],
           hist_list = [], cache_list = [1], curr_size = 1,
           replacer_size = 7, replacer_k = 2\<rparr>)"
proof -
  have run: "replacer_run (new_LRUKReplacer 7 2)
     [OpRecordAccess 1, OpRecordAccess 2, OpSetEvictable 1 True, OpSetEvictable 2 True,
      OpRecordAccess 1, OpRecordAccess 9, OpEvict, OpRemove 3]
   = Some \<lparr>node_store = [1 \<mapsto> \<lparr>node_k = 2, is_evictable = True\<rparr>],
           hist_list = [], cache_list = [1], curr_size = 1,
           replacer_size = 7, replacer_k = 2\<rparr>"
    by (simp add: new_LRUKReplacer_def RecordAccess_def SetEvictable_def Evict_def Remove_frame_def
          after_def invalid_frame_def word_sless_alt node_at_def default_node_def subscript_def)
  show ?thesis using run curr_size_counts_evictable [OF run] by simp
qed

section \<open>Buffer pool: the invalid page id\<close>

text \<open>
  C9. \<^verbatim>\<open>FetchPage\<close>, \<^verbatim>\<open>UnpinPage\<close>, \<^verbatim>\<open>FlushPage\<close> and \<^verbatim>\<open>DeletePage\<close> on the invalid page
  id return null, false, false and true, and the pool (page table, free list, frames,
  replacer, disk) is as it was.
\<close>

theorem invalid_page_id_guards:
  "FetchPage s INVALID_PAGE_ID = Returns None s
   \<and> UnpinPage s INVALID_PAGE_ID dirty = Returns False s
   \<and> FlushPage s INVALID_PAGE_ID = Returns False s
   \<and> DeletePage s INVALID_PAGE_ID = Returns True s"
  by (simp add: FetchPage_def UnpinPage_def FlushPage_def DeletePage_def)

section \<open>Buffer pool: \<open>UnpinPage\<close>\<close>

lemma example_pool_reached:
  "NewPage (new_BufferPoolManager 4 1 2 (zero_disk 4)) = Returns (Some (0, 0)) (example_pool_pinned 1)
   \<and> UnpinPage (example_pool_pinned 1) 0 False = Returns True example_pool"
  by (simp add: NewPage_def UnpinPage_def new_BufferPoolManager_def obtain_frame_def frame_index_def
        write_back_def new_Page_def emplace_def INVALID_PAGE_ID_def ResetMemory_def with_replacer_def
        RecordAccess_def SetEvictable_def new_LRUKReplacer_def invalid_frame_def word_sless_alt node_at_def
        default_node_def example_pool_def example_pool_pinned_def Let_def)

text \<open>
  C5, as the claim states it, fails: on a resident page with pin count 0,
  \<^verbatim>\<open>UnpinPage(0, true)\<close> returns false and has set the dirty flag of the frame, since
  the flag is written before the pin count is tested.
\<close>

theorem UnpinPage_dirties_unpinned_page:
  "page_table example_pool 0 = Some 0
   \<and> pin_count (pages example_pool ! 0) = 0
   \<and> \<not> is_dirty (pages example_pool ! 0)
   \<and> UnpinPage example_pool 0 True = Returns False example_pool_dirty
   \<and> is_dirty (pages example_pool_dirty ! 0)
   \<and> UnpinPage example_pool 0 True \<noteq> Returns False example_pool"
  by (simp add: UnpinPage_def example_pool_def example_pool_dirty_def frame_index_def
        INVALID_PAGE_ID_def)

text \<open>
  C5, amended. \<^verbatim>\<open>UnpinPage\<close> returns false and changes nothing when the page id is
  invalid or the page is not resident. On a resident page it first ORs the dirty
  argument into the frame's flag; then, with pin count 0, it returns false and changes
  nothing else; with a pin count above 1 it decrements the count and returns true; with
  pin count 1 the count becomes 0, the frame is handed to \<^verbatim>\<open>SetEvictable(frame, true)\<close>
  and the call returns true.
\<close>

theorem UnpinPage_amended:
  "(pid = INVALID_PAGE_ID \<or> page_table s pid = None \<longrightarrow> UnpinPage s pid dirty = Returns False s)
   \<and> (pid \<noteq> INVALID_PAGE_ID \<and> page_table s pid = Some f \<and> frame_index s f = Some i \<longrightarrow>
        (pin_count (pages s ! i) = 0 \<longrightarrow>
           UnpinPage s pid dirty =
             Returns False (s\<lparr>pages := (pages s)[i := (pages s ! i)\<lparr>is_dirty := is_dirty (pages s ! i) \<or> dirty\<rparr>]\<rparr>))
      \<and> (pin_count (pages s ! i) > 1 \<longrightarrow>
           UnpinPage s pid dirty =
             Returns True (s\<lparr>pages := (pages s)[i := (pages s ! i)
                              \<lparr>is_dirty := is_dirty (pages s ! i) \<or> dirty,
                               pin_count := pin_count (pages s ! i) - 1\<rparr>]\<rparr>))
      \<and> (pin_count (pages s ! i) = 1 \<and> SetEvictable (replacer s) f True = Returns () r' \<longrightarrow>
           UnpinPage s pid dirty =
             Returns True (s\<lparr>pages := (pages s)[i := (pages s ! i)
                              \<lparr>is_dirty := is_dirty (pages s ! i) \<or> dirty,
                               pin_count := 0\<rparr>],
                            replacer := r'\<rparr>)))"
proof -
  have len: "frame_index s f = Some i \<Longrightarrow> i < length (pages s)"
    by (simp add: frame_index_def split: if_splits)
  show ?thesis
    apply (intro conjI impI)
       apply (auto simp: UnpinPage_def)[1]
      apply (cases dirty; simp add: UnpinPage_def list_update_same_conv len)
     apply (cases dirty; simp add: UnpinPage_def Let_def len)
    apply (cases dirty; simp add: UnpinPage_def Let_def with_replacer_def len)
    done
qed

theorem UnpinPage_amended_witness:
  "UnpinPage example_pool 7 True = Returns False example_pool
   \<and> UnpinPage example_pool 0 True = Returns False example_pool_dirty
   \<and> UnpinPage (example_pool_pinned 2) 0 False = Returns True (example_pool_pinned 1)
   \<and> UnpinPage (example_pool_pinned 1) 0 False = Returns True example_pool"
proof -
  have a: "(7 :: page_id_t) = INVALID_PAGE_ID \<or> page_table example_pool 7 = None"
    by (simp add: example_pool_def)
  have b: "(0 :: page_id_t) \<noteq> INVALID_PAGE_ID \<and> page_table example_pool 0 = Some 0
           \<and> frame_index example_pool 0 = Some 0"
    by (simp add: example_pool_def INVALID_PAGE_ID_def frame_index_def)
  have b0: "pin_count (pages example_pool ! 0) = 0"
    by (simp add: example_pool_def)
  have c: "(0 :: page_id_t) \<noteq> INVALID_PAGE_ID \<and> page_table (example_pool_pinned 2) 0 = Some 0
           \<and> frame_index (example_pool_pinned 2) 0 = Some 0"
    by (simp add: example_pool_def example_pool_pinned_def INVALID_PAGE_ID_def frame_index_def)
  have c0: "pin_count (pages (example_pool_pinned 2) ! 0) > 1"
    by (simp add: example_pool_pinned_def)
  have d: "(0 :: page_id_t) \<noteq> INVALID_PAGE_ID \<and> page_table (example_pool_pinned 1) 0 = Some 0
           \<and> frame_index (example_pool_pinned 1) 0 = Some 0"
    by (simp add: example_pool_def example_pool_pinned_def INVALID_PAGE_ID_def frame_index_def)
  have d0: "pin_count (pages (example_pool_pinned 1) ! 0) = 1
            \<and> SetEvictable (replacer (example_pool_pinned 1)) 0 True = Returns () (replacer example_pool)"
    by (simp add: example_pool_def example_pool_pinned_def SetEvictable_def invalid_frame_def
          word_sless_alt)
  show ?thesis
    using a b b0 c c0 d d0
      UnpinPage_amended [where pid = 7 and s = example_pool and dirty = True]
      UnpinPage_amended [where pid = 0 and s = example_pool and dirty = True and f = 0 and i = 0]
      UnpinPage_amended [where pid = 0 and s = "example_pool_pinned 2" and dirty = False and f = 0 and i = 0]
      UnpinPage_amended [where pid = 0 and s = "example_pool_pinned 1" and dirty = False and f = 0 and i = 0
                           and r' = "replacer example_pool"]
    by (simp add: example_pool_def example_pool_pinned_def example_pool_dirty_def)
qed


section \<open>Hash table: a key that is present\<close>

lemma FindBucketPageID_SomeD:
  assumes "FindBucketPageID ht key = Inr (Some bucket_page_id)"
  shows "\<exists>header directory_page_id directory.
           header_page_id ht \<noteq> INVALID_PAGE_ID
         \<and> fetch_header ht (header_page_id ht) = Inr header
         \<and> GetDirectoryPageId header (HashToDirectoryIndex header (Hash ht key)) = Inr directory_page_id
         \<and> directory_page_id \<noteq> INVALID_PAGE_ID
         \<and> fetch_directory ht directory_page_id = Inr directory
         \<and> GetBucketPageId directory (HashToBucketIndex directory (Hash ht key)) = Inr bucket_page_id
         \<and> bucket_page_id \<noteq> INVALID_PAGE_ID"
  using assms unfolding FindBucketPageID_def
  by (simp split: if_splits sum.splits)

lemma GetValue_TrueD:
  assumes "GetValue ht key res = Inr (True, res')"
  shows "\<exists>bucket_page_id bucket v.
           FindBucketPageID ht key = Inr (Some bucket_page_id)
         \<and> fetch_bucket ht bucket_page_id = Inr bucket
         \<and> Lookup bucket key = Inr (Some v) \<and> res' = res @ [v]"
  using assms unfolding GetValue_def
  by (simp split: sum.splits option.splits)

lemma insert_pass_present:
  assumes "GetValue ht key res = Inr (True, res')"
  shows "insert_pass ht key val = Finished (Inr (False, ht))"
proof -
  from GetValue_TrueD [OF assms] obtain bucket_page_id bucket v where
    f: "FindBucketPageID ht key = Inr (Some bucket_page_id)"
    and b: "fetch_bucket ht bucket_page_id = Inr bucket" "Lookup bucket key = Inr (Some v)"
    by blast
  from FindBucketPageID_SomeD [OF f] obtain header directory_page_id directory where
    h: "header_page_id ht \<noteq> INVALID_PAGE_ID"
       "fetch_header ht (header_page_id ht) = Inr header"
       "GetDirectoryPageId header (HashToDirectoryIndex header (Hash ht key)) = Inr directory_page_id"
       "directory_page_id \<noteq> INVALID_PAGE_ID"
       "fetch_directory ht directory_page_id = Inr directory"
       "GetBucketPageId directory (HashToBucketIndex directory (Hash ht key)) = Inr bucket_page_id"
       "bucket_page_id \<noteq> INVALID_PAGE_ID"
    by blast
  have "insert_into_bucket ht directory_page_id directory (HashToBucketIndex directory (Hash ht key))
          bucket_page_id key val = Finished (Inr (False, ht))"
    by (simp add: insert_into_bucket_def b)
  then have "insert_into_directory ht directory_page_id key val = Finished (Inr (False, ht))"
    by (simp add: insert_into_directory_def h Let_def)
  then show ?thesis
    by (simp add: insert_pass_def h Let_def)
qed

lemma Insert_finished:
  "insert_pass ht key val = Finished r \<Longrightarrow> Insert ht key val = Some r"
  apply (subst Insert.simps)
  apply (simp only: pass.case)
  done

text \<open>
  C7. When \<^verbatim>\<open>GetValue\<close> finds the key, \<^verbatim>\<open>Insert\<close> of that key with any value returns
  false and the table, all its pages included, is as it was.
\<close>

theorem Insert_present:
  "GetValue ht key res = Inr (True, res') \<Longrightarrow> Insert ht key val = Some (Inr (False, ht))"
  by (rule Insert_finished) (rule insert_pass_present)

theorem Insert_present_witness:
  "GetValue example_table_3 3 [] = Inr (True, [30])
   \<and> Insert example_table_3 3 99 = Some (Inr (False, example_table_3))"
proof -
  have g: "GetValue example_table_3 3 [] = Inr (True, [30])"
    by code_simp
  show ?thesis using g Insert_present [OF g] by simp
qed

section \<open>Hash table: what \<open>GetValue\<close> finds\<close>

text \<open>
  C1. The claim: \<^verbatim>\<open>GetValue(key)\<close> succeeds exactly when the key has been inserted and
  not removed since. \<^verbatim>\<open>Lookup\<close> of the bucket page tests \<^verbatim>\<open>bucket_idx > Size()\<close> where
  \<open>\<ge>\<close> is needed, so for a key above all the keys of the bucket it compares the key
  with the slot behind the last entry. On the empty table, after \<^verbatim>\<open>Insert(3, 30)\<close>,
  \<^verbatim>\<open>Insert(5, 50)\<close> and \<^verbatim>\<open>Remove(5)\<close> have all returned true, that slot still holds
  \<open>(5, 50)\<close> and \<^verbatim>\<open>GetValue(5)\<close> returns true with 50. After \<^verbatim>\<open>Insert(-1, 30)\<close> alone
  the slot holds the zeroes of the fresh page and \<^verbatim>\<open>GetValue(0)\<close> returns true with 0.
\<close>

theorem GetValue_finds_removed_key:
  "table_trace example_table [OpInsert 3 30, OpInsert 5 50, OpRemove_key 5] = Some [True, True, True]
   \<and> get_after example_table [OpInsert 3 30, OpInsert 5 50, OpRemove_key 5] 5 = Some (Inr (True, [50]))
   \<and> table_trace example_table [OpInsert (- 1) 30] = Some [True]
   \<and> get_after example_table [OpInsert (- 1) 30] 0 = Some (Inr (True, [0]))"
  by code_simp

section \<open>Hash table: a key that has been inserted, and calls on other keys\<close>

text \<open>
  C2. The claim: once \<^verbatim>\<open>Insert(key, value)\<close> has returned true, every later \<^verbatim>\<open>GetValue(key)\<close>
  returns true with that value as long as no \<^verbatim>\<open>Remove(key)\<close> comes in between, whatever
  the calls on other keys are. \<^verbatim>\<open>Remove\<close> of the bucket page compares the key with
  \<^verbatim>\<open>array_[KeyIndex(key)]\<close> and calls \<^verbatim>\<open>RemoveAt\<close> at that index with no test of the index
  against \<^verbatim>\<open>Size()\<close>: for a key above all the keys of the bucket the index is \<^verbatim>\<open>Size()\<close>, the
  slot is the one behind the last entry, and \<^verbatim>\<open>RemoveAt\<close> asserts \<^verbatim>\<open>bucket_idx < Size()\<close>. On
  the empty table, after \<^verbatim>\<open>Insert(-1, 30)\<close> has returned true, \<^verbatim>\<open>GetValue(-1)\<close> returns true
  with 30 and the slot behind the entry holds the zeroes of the fresh page. So
  \<^verbatim>\<open>Remove(0)\<close>, a call on another key, finds key 0 in that slot and calls \<^verbatim>\<open>RemoveAt(1)\<close> on
  a bucket of size 1: the assertion fails, the run ends there and no later
  \<^verbatim>\<open>GetValue(-1)\<close> returns. (With assertions compiled out \<^verbatim>\<open>RemoveAt(1)\<close> only decrements
  \<^verbatim>\<open>size_\<close>; the bucket then has size 0 and \<^verbatim>\<open>Lookup\<close> returns false for key -1.)
\<close>

theorem Remove_of_another_key_aborts:
  "table_trace example_table [OpInsert (- 1) 30] = Some [True]
   \<and> get_after example_table [OpInsert (- 1) 30] (- 1) = Some (Inr (True, [30]))
   \<and> Remove (the (table_run example_table [OpInsert (- 1) 30])) 0 = Inl AssertionFailed
   \<and> table_trace example_table [OpInsert (- 1) 30, OpRemove_key 0] = None
   \<and> get_after example_table [OpInsert (- 1) 30, OpRemove_key 0] (- 1) = None"
proof -
  have e: "table_trace example_table [OpInsert (- 1) 30] = Some [True]
   \<and> get_after example_table [OpInsert (- 1) 30] (- 1) = Some (Inr (True, [30]))
   \<and> isl (Remove (the (table_run example_table [OpInsert (- 1) 30])) 0)
   \<and> projl (Remove (the (table_run example_table [OpInsert (- 1) 30])) 0) = AssertionFailed
   \<and> table_trace example_table [OpInsert (- 1) 30, OpRemove_key 0] = None
   \<and> get_after example_table [OpInsert (- 1) 30, OpRemove_key 0] (- 1) = None"
    by code_simp
  then have "Inl (projl (Remove (the (table_run example_table [OpInsert (- 1) 30])) 0))
               = Remove (the (table_run example_table [OpInsert (- 1) 30])) 0"
    by (intro sum.collapse(1)) (rule conjunct1 [OF conjunct2 [OF conjunct2]])
  with e show ?thesis by (simp only:)
qed

section \<open>Hash table: runs in which every call returns\<close>

text \<open>
  The rest of the theory shows that in this model of the table a run can depart from
  the claim above only at a call that does not return: in every run of calls on a
  fresh table in which each call returns, a key inserted with success is found with its
  value until it is removed.
\<close>

subsection \<open>Bucket page: the binary search\<close>

lemma cmp_simps [simp]:
  "cmp a b = 1 \<longleftrightarrow> b < a" "cmp a b = - 1 \<longleftrightarrow> a < b" "cmp a b = 0 \<longleftrightarrow> a = b"
  by (auto simp: cmp_def)

lemma sorted_take_nth:
  assumes "sorted_wrt (<) (map fst (take n arr))" "n \<le> length arr" "i < j" "j < n"
  shows "fst (arr ! i) < fst (arr ! j)"
proof -
  have "map fst (take n arr) ! i < map fst (take n arr) ! j"
    using assms sorted_wrt_nth_less [of "(<)" "map fst (take n arr)" i j] by simp
  with assms show ?thesis by simp
qed

lemma search_loop_spec:
  assumes "n \<le> length (array b)" "sorted_wrt (<) (map fst (take n (array b)))"
    and "0 \<le> left" "left \<le> right + 1" "right < int n"
    and "\<forall>i. i < nat left \<longrightarrow> fst (array b ! i) < key"
    and "\<forall>i. nat (right + 1) \<le> i \<and> i < n \<longrightarrow> key < fst (array b ! i)"
  shows "\<exists>idx. search_loop key b left right = Inr idx \<and> idx \<le> n
           \<and> (\<forall>i. i < idx \<longrightarrow> fst (array b ! i) < key)
           \<and> (\<forall>i. idx < i \<and> i < n \<longrightarrow> key < fst (array b ! i))
           \<and> (idx < n \<longrightarrow> key \<le> fst (array b ! idx))"
  using assms
proof (induction key b left right rule: search_loop.induct)
  case (1 key b left right)
  show ?case
  proof (cases "left \<le> right")
    case False
    with "1.prems" have lr: "left = right + 1" by simp
    have "search_loop key b left right = Inr (nat left)"
      using False by (subst search_loop.simps) simp
    moreover have "nat left \<le> n" using "1.prems" lr by simp
    moreover have "\<forall>i. nat left < i \<and> i < n \<longrightarrow> key < fst (array b ! i)"
      using "1.prems"(7) lr by auto
    moreover have "nat left < n \<longrightarrow> key \<le> fst (array b ! nat left)"
      using "1.prems"(7) lr by (auto simp: less_imp_le)
    ultimately show ?thesis using "1.prems"(6) by blast
  next
    case True
    define mid where "mid = (left + right) div 2"
    have m: "left \<le> mid" "mid \<le> right" "0 \<le> mid" using True "1.prems"(3) by (auto simp: mid_def)
    then have mn: "nat mid < n" using "1.prems"(5) by simp
    then have ml: "nat mid < length (array b)" using "1.prems"(1) by simp
    define entry where "entry = array b ! nat mid"
    have ea: "EntryAt b (nat mid) = Inr entry" using ml by (simp add: EntryAt_def entry_def)
    consider (gt) "fst entry < key" | (lt) "key < fst entry" | (eq) "key = fst entry"
      by (cases "fst entry < key"; cases "key < fst entry"; auto)
    then show ?thesis
    proof cases
      case gt
      then have sl: "search_loop key b left right = search_loop key b (mid + 1) right"
        using True m ea by (subst search_loop.simps) (simp add: mid_def [symmetric] Let_def)
      have p6: "\<forall>i. i < nat (mid + 1) \<longrightarrow> fst (array b ! i) < key"
      proof (intro allI impI)
        fix i assume "i < nat (mid + 1)"
        then have "i \<le> nat mid" using m by simp
        then consider "i = nat mid" | "i < nat mid" by (cases "i = nat mid") auto
        then show "fst (array b ! i) < key"
        proof cases
          case 1 then show ?thesis using gt by (simp add: entry_def)
        next
          case 2
          from sorted_take_nth [OF "1.prems"(2) "1.prems"(1) 2 mn] gt
          show ?thesis by (simp add: entry_def)
        qed
      qed
      have "\<exists>idx. search_loop key b (mid + 1) right = Inr idx \<and> idx \<le> n
           \<and> (\<forall>i. i < idx \<longrightarrow> fst (array b ! i) < key)
           \<and> (\<forall>i. idx < i \<and> i < n \<longrightarrow> key < fst (array b ! i))
           \<and> (idx < n \<longrightarrow> key \<le> fst (array b ! idx))"
      proof (rule "1.IH"(1) [OF True mid_def _ ea refl])
        show "\<not> mid < 0" using m by simp
        show "cmp key (fst entry) = 1" using gt by simp
        show "n \<le> length (array b)" by fact
        show "sorted_wrt (<) (map fst (take n (array b)))" by fact
        show "0 \<le> mid + 1" using m by simp
        show "mid + 1 \<le> right + 1" using m by simp
        show "right < int n" by fact
        show "\<forall>i. i < nat (mid + 1) \<longrightarrow> fst (array b ! i) < key"
          using p6 by simp
        show "\<forall>i. nat (right + 1) \<le> i \<and> i < n \<longrightarrow> key < fst (array b ! i)" by fact
      qed
      with sl show ?thesis by simp
    next
      case lt
      then have sl: "search_loop key b left right = search_loop key b left (mid - 1)"
        using True m ea by (subst search_loop.simps) (auto simp add: mid_def [symmetric] Let_def)
      have p7: "\<forall>i. nat (mid - 1 + 1) \<le> i \<and> i < n \<longrightarrow> key < fst (array b ! i)"
      proof (intro allI impI)
        fix i assume a: "nat (mid - 1 + 1) \<le> i \<and> i < n"
        then have "nat mid \<le> i" by simp
        then consider "i = nat mid" | "nat mid < i" by (cases "i = nat mid") auto
        then show "key < fst (array b ! i)"
        proof cases
          case 1 then show ?thesis using lt by (simp add: entry_def)
        next
          case 2
          from sorted_take_nth [OF "1.prems"(2) "1.prems"(1) 2] a lt
          show ?thesis by (simp add: entry_def)
        qed
      qed
      have "\<exists>idx. search_loop key b left (mid - 1) = Inr idx \<and> idx \<le> n
           \<and> (\<forall>i. i < idx \<longrightarrow> fst (array b ! i) < key)
           \<and> (\<forall>i. idx < i \<and> i < n \<longrightarrow> key < fst (array b ! i))
           \<and> (idx < n \<longrightarrow> key \<le> fst (array b ! idx))"
      proof (rule "1.IH"(2) [OF True mid_def _ ea refl])
        show "\<not> mid < 0" using m by simp
        show "cmp key (fst entry) \<noteq> 1" using lt by simp
        show "cmp key (fst entry) = - 1" using lt by simp
        show "n \<le> length (array b)" by fact
        show "sorted_wrt (<) (map fst (take n (array b)))" by fact
        show "0 \<le> left" by fact
        show "left \<le> mid - 1 + 1" using m by simp
        show "mid - 1 < int n" using m "1.prems"(5) by simp
        show "\<forall>i. i < nat left \<longrightarrow> fst (array b ! i) < key" by fact
        show "\<forall>i. nat (mid - 1 + 1) \<le> i \<and> i < n \<longrightarrow> key < fst (array b ! i)"
          using p7 by simp
      qed
      with sl show ?thesis by simp
    next
      case eq
      then have sl: "search_loop key b left right = Inr (nat mid)"
        using True m ea by (subst search_loop.simps) (auto simp add: mid_def [symmetric] Let_def)
      have a: "\<forall>i. i < nat mid \<longrightarrow> fst (array b ! i) < key"
      proof (intro allI impI)
        fix i assume "i < nat mid"
        from sorted_take_nth [OF "1.prems"(2) "1.prems"(1) this mn] eq
        show "fst (array b ! i) < key" by (simp add: entry_def)
      qed
      have c: "\<forall>i. nat mid < i \<and> i < n \<longrightarrow> key < fst (array b ! i)"
      proof (intro allI impI)
        fix i assume "nat mid < i \<and> i < n"
        then have "fst (array b ! nat mid) < fst (array b ! i)"
          using sorted_take_nth [OF "1.prems"(2) "1.prems"(1), of "nat mid" i] by simp
        with eq show "key < fst (array b ! i)" by (simp add: entry_def)
      qed
      from sl a c mn eq show ?thesis by (auto simp: entry_def)
    qed
  qed
qed

subsection \<open>Bucket page: lookup, insertion and removal at an index\<close>

lemma KeyIndex_spec:
  assumes "bsize b \<le> length (array b)" "sorted_wrt (<) (map fst (entries b))"
  shows "\<exists>idx. KeyIndex b key = Inr idx \<and> idx \<le> bsize b
           \<and> (\<forall>i. i < idx \<longrightarrow> fst (array b ! i) < key)
           \<and> (\<forall>i. idx < i \<and> i < bsize b \<longrightarrow> key < fst (array b ! i))
           \<and> (idx < bsize b \<longrightarrow> key \<le> fst (array b ! idx))"
  unfolding KeyIndex_def
  using assms by (intro search_loop_spec) (auto simp: entries_def)

lemma entries_nth: "i < bsize b \<Longrightarrow> bsize b \<le> length (array b) \<Longrightarrow> entries b ! i = array b ! i"
  by (simp add: entries_def)

lemma length_entries: "bsize b \<le> length (array b) \<Longrightarrow> length (entries b) = bsize b"
  by (simp add: entries_def)

lemma Lookup_present:
  assumes wf: "bucket_wf b" and mem: "(key, v) \<in> set (entries b)"
  shows "Lookup b key = Inr (Some v)"
proof -
  from wf have le: "bsize b \<le> length (array b)"
    and so: "sorted_wrt (<) (map fst (entries b))"
    by (auto simp: bucket_wf_def)
  from mem obtain j where j: "j < bsize b" "array b ! j = (key, v)"
    using le by (auto simp: in_set_conv_nth length_entries entries_nth)
  from KeyIndex_spec [OF le so, of key] obtain idx where
    k: "KeyIndex b key = Inr idx" "idx \<le> bsize b"
       "\<forall>i. i < idx \<longrightarrow> fst (array b ! i) < key"
       "\<forall>i. idx < i \<and> i < bsize b \<longrightarrow> key < fst (array b ! i)"
    by blast
  have "idx = j"
  proof (rule ccontr)
    assume "idx \<noteq> j"
    then consider "j < idx" | "idx < j" by (cases "j < idx") auto
    then show False
    proof cases
      case 1 with k(3) j(2) show False by auto
    next
      case 2 with k(4) j show False by auto
    qed
  qed
  with k j le show ?thesis
    by (simp add: Lookup_def EntryAt_def)
qed

lemma shift_up_nth:
  "idx + n < length arr \<Longrightarrow>
   \<exists>arr'. shift_up idx n arr = Inr arr' \<and> length arr' = length arr
     \<and> (\<forall>i. i < length arr \<longrightarrow> arr' ! i = (if idx < i \<and> i \<le> idx + n then arr ! (i - 1) else arr ! i))"
proof (induction n arbitrary: arr)
  case 0
  then show ?case by auto
next
  case (Suc n)
  let ?a = "arr[idx + n + 1 := arr ! (idx + n)]"
  from Suc.prems have "idx + n < length ?a" by simp
  from Suc.IH [OF this] obtain arr' where
    a: "shift_up idx n ?a = Inr arr'" "length arr' = length ?a"
       "\<forall>i. i < length ?a \<longrightarrow> arr' ! i = (if idx < i \<and> i \<le> idx + n then ?a ! (i - 1) else ?a ! i)"
    by blast
  have "shift_up idx (Suc n) arr = Inr arr'" using Suc.prems a(1) by simp
  moreover have "length arr' = length arr" using a(2) by simp
  moreover have "\<forall>i. i < length arr \<longrightarrow>
      arr' ! i = (if idx < i \<and> i \<le> idx + Suc n then arr ! (i - 1) else arr ! i)"
  proof (intro allI impI)
    fix i assume i: "i < length arr"
    with a(3) have e: "arr' ! i = (if idx < i \<and> i \<le> idx + n then ?a ! (i - 1) else ?a ! i)" by simp
    show "arr' ! i = (if idx < i \<and> i \<le> idx + Suc n then arr ! (i - 1) else arr ! i)"
    proof (cases "idx < i \<and> i \<le> idx + n")
      case True
      then have "i - 1 \<noteq> idx + n + 1" by arith
      then have "?a ! (i - 1) = arr ! (i - 1)" by (simp only: nth_list_update_neq not_sym)
      with e True show ?thesis by simp
    next
      case False
      show ?thesis
      proof (cases "i = idx + n + 1")
        case True
        with e False i show ?thesis by simp
      next
        case False2: False
        with e False i show ?thesis by auto
      qed
    qed
  qed
  ultimately show ?case by blast
qed

lemma shift_down_nth:
  "i + n < length arr \<Longrightarrow>
   \<exists>arr'. shift_down i n arr = Inr arr' \<and> length arr' = length arr
     \<and> (\<forall>j. j < length arr \<longrightarrow> arr' ! j = (if i \<le> j \<and> j < i + n then arr ! (j + 1) else arr ! j))"
proof (induction n arbitrary: i arr)
  case 0
  then show ?case by auto
next
  case (Suc n)
  let ?a = "arr[i := arr ! (i + 1)]"
  from Suc.prems have "(i + 1) + n < length ?a" by simp
  from Suc.IH [OF this] obtain arr' where
    a: "shift_down (i + 1) n ?a = Inr arr'" "length arr' = length ?a"
       "\<forall>j. j < length ?a \<longrightarrow> arr' ! j = (if i + 1 \<le> j \<and> j < i + 1 + n then ?a ! (j + 1) else ?a ! j)"
    by blast
  have "shift_down i (Suc n) arr = Inr arr'" using Suc.prems a(1) by simp
  moreover have "length arr' = length arr" using a(2) by simp
  moreover have "\<forall>j. j < length arr \<longrightarrow>
      arr' ! j = (if i \<le> j \<and> j < i + Suc n then arr ! (j + 1) else arr ! j)"
  proof (intro allI impI)
    fix j assume j: "j < length arr"
    with a(3) have e: "arr' ! j = (if i + 1 \<le> j \<and> j < i + 1 + n then ?a ! (j + 1) else ?a ! j)" by simp
    show "arr' ! j = (if i \<le> j \<and> j < i + Suc n then arr ! (j + 1) else arr ! j)"
    proof (cases "i + 1 \<le> j \<and> j < i + 1 + n")
      case True
      then have "?a ! (j + 1) = arr ! (j + 1)" by simp
      with e True show ?thesis by simp
    next
      case False
      show ?thesis
      proof (cases "j = i")
        case True
        with e False j Suc.prems show ?thesis by simp
      next
        case False2: False
        with e False j show ?thesis by auto
      qed
    qed
  qed
  ultimately show ?case by blast
qed

lemma InsertAt_entries:
  assumes "idx \<le> bsize b" "bsize b < length (array b)"
  shows "\<exists>b'. InsertAt b idx key val = Inr b'
           \<and> entries b' = take idx (entries b) @ (key, val) # drop idx (entries b)
           \<and> bsize b' = bsize b + 1 \<and> max_size b' = max_size b
           \<and> length (array b') = length (array b)"
proof -
  let ?n = "bsize b"
  have "idx + (?n - idx) < length (array b)" using assms by simp
  from shift_up_nth [OF this] obtain arr' where
    a: "shift_up idx (?n - idx) (array b) = Inr arr'" "length arr' = length (array b)"
       "\<forall>i. i < length (array b) \<longrightarrow>
          arr' ! i = (if idx < i \<and> i \<le> idx + (?n - idx) then array b ! (i - 1) else array b ! i)"
    by blast
  define b' where "b' = b\<lparr>array := arr'[idx := (key, val)], bsize := bsize b + 1\<rparr>"
  have r: "InsertAt b idx key val = Inr b'"
    using a(1,2) assms by (simp add: InsertAt_def b'_def)
  have "entries b' = take idx (entries b) @ (key, val) # drop idx (entries b)"
  proof (rule nth_equalityI)
    show "length (entries b') = length (take idx (entries b) @ (key, val) # drop idx (entries b))"
      using assms a(2) by (simp add: entries_def b'_def)
  next
    fix i assume "i < length (entries b')"
    then have i: "i < ?n + 1" using assms a(2) by (simp add: entries_def b'_def)
    have il: "i < length (array b)" using i assms by simp
    have l: "entries b' ! i = (arr'[idx := (key, val)]) ! i"
      using i a(2) assms by (simp add: entries_def b'_def)
    consider "i < idx" | "i = idx" | "idx < i" by (cases "i < idx"; cases "i = idx"; auto)
    then show "entries b' ! i = (take idx (entries b) @ (key, val) # drop idx (entries b)) ! i"
    proof cases
      case 1
      then show ?thesis using l a(2,3) il assms by (simp add: nth_append entries_def)
    next
      case 2
      then show ?thesis using l a(2) il assms by (simp add: nth_append entries_def)
    next
      case 3
      then have "arr' ! i = array b ! (i - 1)" using a(3) il i assms by simp
      moreover have "(take idx (entries b) @ (key, val) # drop idx (entries b)) ! i = array b ! (i - 1)"
      proof -
        from 3 obtain m where m: "i = idx + Suc m" by (metis less_imp_Suc_add add_Suc_right)
        with i assms show ?thesis by (simp add: nth_append entries_def)
      qed
      ultimately show ?thesis using l 3 a(2) il by simp
    qed
  qed
  with r a(2) show ?thesis by (auto simp: b'_def)
qed

lemma RemoveAt_entries:
  assumes "idx < bsize b" "bsize b \<le> length (array b)"
  shows "\<exists>b'. RemoveAt b idx = Inr b'
           \<and> entries b' = take idx (entries b) @ drop (Suc idx) (entries b)
           \<and> bsize b' = bsize b - 1 \<and> max_size b' = max_size b
           \<and> length (array b') = length (array b)"
proof -
  let ?n = "bsize b"
  have "idx + (?n - 1 - idx) < length (array b)" using assms by simp
  from shift_down_nth [OF this] obtain arr' where
    a: "shift_down idx (?n - 1 - idx) (array b) = Inr arr'" "length arr' = length (array b)"
       "\<forall>j. j < length (array b) \<longrightarrow>
          arr' ! j = (if idx \<le> j \<and> j < idx + (?n - 1 - idx) then array b ! (j + 1) else array b ! j)"
    by blast
  define b' where "b' = b\<lparr>array := arr', bsize := bsize b - 1\<rparr>"
  have r: "RemoveAt b idx = Inr b'"
    using a(1) assms by (simp add: RemoveAt_def b'_def)
  have "entries b' = take idx (entries b) @ drop (Suc idx) (entries b)"
  proof (rule nth_equalityI)
    show "length (entries b') = length (take idx (entries b) @ drop (Suc idx) (entries b))"
      using assms a(2) by (simp add: entries_def b'_def)
  next
    fix i assume "i < length (entries b')"
    then have i: "i < ?n - 1" using assms a(2) by (simp add: entries_def b'_def)
    have il: "i < length (array b)" using i assms by simp
    have l: "entries b' ! i = arr' ! i"
      using i a(2) assms by (simp add: entries_def b'_def)
    show "entries b' ! i = (take idx (entries b) @ drop (Suc idx) (entries b)) ! i"
    proof (cases "i < idx")
      case True
      then show ?thesis using l a(3) il assms by (simp add: nth_append entries_def)
    next
      case False
      then have "arr' ! i = array b ! (i + 1)" using a(3) il i by simp
      moreover have "(take idx (entries b) @ drop (Suc idx) (entries b)) ! i = array b ! (i + 1)"
        using False i assms by (simp add: nth_append entries_def min_def)
      ultimately show ?thesis using l by simp
    qed
  qed
  with r a(2) show ?thesis by (auto simp: b'_def)
qed

subsection \<open>Bucket page: \<open>Insert\<close> and \<open>Remove\<close>\<close>

lemma Insert_bucket_False: "Insert_bucket b key val = Inr (False, b') \<Longrightarrow> b' = b"
  by (auto simp: Insert_bucket_def split: if_splits sum.splits)

lemma Insert_bucket_True:
  assumes wf: "bucket_wf b" and ins: "Insert_bucket b key val = Inr (True, b')"
  shows "set (entries b') = insert (key, val) (set (entries b))
         \<and> sorted_wrt (<) (map fst (entries b'))
         \<and> bsize b' = bsize b + 1 \<and> bsize b < max_size b
         \<and> max_size b' = max_size b \<and> length (array b') = length (array b)"
proof -
  from wf have le: "bsize b \<le> length (array b)" and mx: "max_size b \<le> length (array b)"
    and so: "sorted_wrt (<) (map fst (entries b))"
    by (auto simp: bucket_wf_def)
  from ins have nf: "bsize b < max_size b"
    by (auto simp: Insert_bucket_def IsFull_def split: if_splits)
  with mx have lt: "bsize b < length (array b)" by simp
  have "\<exists>idx. idx \<le> bsize b \<and> InsertAt b idx key val = Inr b'
          \<and> (\<forall>i. i < idx \<longrightarrow> fst (array b ! i) < key)
          \<and> (\<forall>i. idx \<le> i \<and> i < bsize b \<longrightarrow> key < fst (array b ! i))"
  proof (cases "bsize b = 0")
    case True
    with ins nf have "InsertAt b 0 key val = Inr b'"
      by (auto simp: Insert_bucket_def IsFull_def split: sum.splits)
    with True show ?thesis by auto
  next
    case False
    from KeyIndex_spec [OF le so, of key] obtain idx where
      k: "KeyIndex b key = Inr idx" "idx \<le> bsize b"
         "\<forall>i. i < idx \<longrightarrow> fst (array b ! i) < key"
         "\<forall>i. idx < i \<and> i < bsize b \<longrightarrow> key < fst (array b ! i)"
         "idx < bsize b \<longrightarrow> key \<le> fst (array b ! idx)"
      by blast
    have ea: "EntryAt b idx = Inr (array b ! idx)" using k(2) lt by (simp add: EntryAt_def)
    from ins False nf k(1) ea have ne: "key \<noteq> fst (array b ! idx)" and ia: "InsertAt b idx key val = Inr b'"
      by (auto simp: Insert_bucket_def IsFull_def split: sum.splits if_splits)
    have "\<forall>i. idx \<le> i \<and> i < bsize b \<longrightarrow> key < fst (array b ! i)"
    proof (intro allI impI)
      fix i assume a: "idx \<le> i \<and> i < bsize b"
      show "key < fst (array b ! i)"
      proof (cases "i = idx")
        case True
        with a k(5) ne show ?thesis by auto
      next
        case False
        with a k(4) show ?thesis by auto
      qed
    qed
    with k ia show ?thesis by blast
  qed
  then obtain idx where
    i: "idx \<le> bsize b" "InsertAt b idx key val = Inr b'"
       "\<forall>i. i < idx \<longrightarrow> fst (array b ! i) < key"
       "\<forall>i. idx \<le> i \<and> i < bsize b \<longrightarrow> key < fst (array b ! i)"
    by blast
  from InsertAt_entries [OF i(1) lt, of key val] i(2) have
    e: "entries b' = take idx (entries b) @ (key, val) # drop idx (entries b)"
       "bsize b' = bsize b + 1" "max_size b' = max_size b" "length (array b') = length (array b)"
    by auto
  have lo: "\<forall>x \<in> set (take idx (entries b)). fst x < key"
  proof
    fix x assume "x \<in> set (take idx (entries b))"
    then obtain j where "j < idx" "j < length (entries b)" "x = entries b ! j"
      by (auto simp: in_set_conv_nth)
    with i(1,3) le show "fst x < key" by (simp add: entries_nth length_entries)
  qed
  have hi: "\<forall>y \<in> set (drop idx (entries b)). key < fst y"
  proof
    fix y assume "y \<in> set (drop idx (entries b))"
    then obtain j where "j < length (entries b) - idx" "y = entries b ! (idx + j)"
      by (auto simp: in_set_conv_nth)
    with i(4) le show "key < fst y" by (simp add: entries_nth length_entries)
  qed
  have s1: "sorted_wrt (<) (map fst (take idx (entries b)))"
    using so by (simp add: sorted_wrt_take take_map [symmetric])
  have s2: "sorted_wrt (<) (map fst (drop idx (entries b)))"
    using so by (simp add: sorted_wrt_drop drop_map [symmetric])
  have "sorted_wrt (<) (map fst (entries b'))"
    unfolding e(1) using lo hi s1 s2
    by (auto simp: sorted_wrt_append intro: less_trans)
  moreover have "set (entries b') = insert (key, val) (set (entries b))"
  proof -
    have "set (entries b) = set (take idx (entries b)) \<union> set (drop idx (entries b))"
      by (metis append_take_drop_id set_append)
    then show ?thesis unfolding e(1) by auto
  qed
  ultimately show ?thesis using e nf by simp
qed

lemma Remove_bucket_False: "Remove_bucket b key = Inr (False, b') \<Longrightarrow> b' = b"
  by (auto simp: Remove_bucket_def split: if_splits sum.splits)

lemma Remove_bucket_True:
  assumes wf: "bsize b \<le> length (array b)" "sorted_wrt (<) (map fst (entries b))"
    and rem: "Remove_bucket b key = Inr (True, b')"
  shows "set (entries b') \<subseteq> set (entries b)
         \<and> (\<forall>k v. (k, v) \<in> set (entries b) \<and> k \<noteq> key \<longrightarrow> (k, v) \<in> set (entries b'))
         \<and> sorted_wrt (<) (map fst (entries b'))
         \<and> bsize b' < bsize b
         \<and> max_size b' = max_size b \<and> length (array b') = length (array b)"
proof -
  from rem obtain idx entry where
    k: "KeyIndex b key = Inr idx" "EntryAt b idx = Inr entry" "key = fst entry"
       "RemoveAt b idx = Inr b'"
    by (auto simp: Remove_bucket_def split: if_splits sum.splits)
  from k(4) have lt: "idx < bsize b" by (auto simp: RemoveAt_def split: if_splits)
  from k(2) have en: "entry = array b ! idx" by (auto simp: EntryAt_def split: if_splits)
  from RemoveAt_entries [OF lt wf(1)] k(4) have
    e: "entries b' = take idx (entries b) @ drop (Suc idx) (entries b)"
       "bsize b' = bsize b - 1" "max_size b' = max_size b" "length (array b') = length (array b)"
    by auto
  have il: "idx < length (entries b)" using lt wf(1) by (simp add: length_entries)
  have d: "entries b = take idx (entries b) @ entries b ! idx # drop (Suc idx) (entries b)"
    using il by (rule id_take_nth_drop)
  have ek: "fst (entries b ! idx) = key" using k(3) en lt wf(1) by (simp add: entries_nth)
  have sub: "set (entries b') \<subseteq> set (entries b)"
    unfolding e(1) using set_take_subset [of idx "entries b"] set_drop_subset [of "Suc idx" "entries b"]
    by auto
  have keep: "\<forall>k v. (k, v) \<in> set (entries b) \<and> k \<noteq> key \<longrightarrow> (k, v) \<in> set (entries b')"
  proof (intro allI impI)
    fix k v assume a: "(k, v) \<in> set (entries b) \<and> k \<noteq> key"
    then have "(k, v) \<in> set (take idx (entries b) @ entries b ! idx # drop (Suc idx) (entries b))"
      using d by simp
    moreover from a ek have "(k, v) \<noteq> entries b ! idx" by (metis fst_conv)
    ultimately show "(k, v) \<in> set (entries b')" unfolding e(1) by auto
  qed
  have "sorted_wrt (<) (map fst (take idx (entries b) @ entries b ! idx # drop (Suc idx) (entries b)))"
    using wf(2) d by simp
  then have "sorted_wrt (<) (map fst (entries b'))"
    unfolding e(1) by (auto simp: sorted_wrt_append)
  with sub keep e lt show ?thesis by simp
qed

subsection \<open>Directory and header page: indices as bit fields\<close>

lemma unat_exp32: "n < 32 \<Longrightarrow> unat (2 ^ n :: uint32_t) = 2 ^ n"
proof -
  assume n: "n < 32"
  have "(2 ^ n :: uint32_t) = of_nat (2 ^ n)" by simp
  moreover have "(2::nat) ^ n < 2 ^ 32" using n by (rule power_strict_increasing) simp
  ultimately show ?thesis by (simp only: unat_of_nat) simp
qed

lemma unat_Size_directory:
  "unat (global_depth d) < 32 \<Longrightarrow> unat (Size_directory d) = 2 ^ unat (global_depth d)"
  by (simp add: Size_directory_def unat_exp32)

lemma less_Size_directory:
  "unat (global_depth d) < 32 \<Longrightarrow> idx < Size_directory d \<longleftrightarrow> unat idx < 2 ^ unat (global_depth d)"
  by (simp add: word_less_nat_alt unat_Size_directory)

lemma unat_HashToBucketIndex:
  "unat (HashToBucketIndex d h) = take_bit (unat (global_depth d)) (unat h)"
  by (simp add: HashToBucketIndex_def GetGlobalDepthMask_def unsigned_take_bit_eq
        flip: mask_eq_exp_minus_1 take_bit_eq_mask)

lemma unat_HashToDirectoryIndex:
  "unat (HashToDirectoryIndex h hash) = drop_bit (32 - unat (hmax_depth h)) (unat hash)"
  by (simp add: HashToDirectoryIndex_def unat_drop_bit_eq)

lemma HashToDirectoryIndex_less:
  assumes "unat (hmax_depth h) \<le> 32"
  shows "unat (HashToDirectoryIndex h hash) < 2 ^ unat (hmax_depth h)"
proof -
  have "unat hash < 2 ^ 32" using unsigned_less [of hash] by simp
  also have "(2::nat) ^ 32 = 2 ^ (32 - unat (hmax_depth h)) * 2 ^ unat (hmax_depth h)"
    using assms by (simp flip: power_add)
  finally have "unat hash div 2 ^ (32 - unat (hmax_depth h)) < 2 ^ unat (hmax_depth h)"
    by (simp add: less_mult_imp_div_less mult.commute)
  then show ?thesis by (simp add: unat_HashToDirectoryIndex drop_bit_eq_div)
qed

lemma take_bit_xor_exp_low:
  "take_bit n ((b::nat) XOR 2 ^ n) = take_bit n b"
  by (rule bit_eqI) (auto simp: bit_simps)

lemma take_bit_xor_exp_neq:
  "take_bit (Suc n) ((b::nat) XOR 2 ^ n) \<noteq> take_bit (Suc n) b"
proof
  assume "take_bit (Suc n) (b XOR 2 ^ n) = take_bit (Suc n) b"
  then have "bit (take_bit (Suc n) (b XOR 2 ^ n)) n = bit (take_bit (Suc n) b) n" by simp
  then show False by (simp add: bit_simps)
qed

lemma xor_exp_less:
  assumes "(b::nat) < 2 ^ g" "n < g"
  shows "b XOR 2 ^ n < 2 ^ g"
proof -
  have "take_bit g (b XOR 2 ^ n) = b XOR 2 ^ n"
    using assms by (simp add: take_bit_xor take_bit_nat_eq_self)
  then show ?thesis by (simp only: take_bit_nat_eq_self_iff)
qed

lemma take_bit_two_classes:
  assumes "take_bit n (a::nat) = take_bit n b"
  shows "take_bit (Suc n) a = take_bit (Suc n) b \<or> take_bit (Suc n) a = take_bit (Suc n) (b XOR 2 ^ n)"
proof (cases "bit a n = bit b n")
  case True
  have "take_bit (Suc n) a = take_bit (Suc n) b"
  proof (rule bit_eqI)
    fix m
    show "bit (take_bit (Suc n) a) m = bit (take_bit (Suc n) b) m"
    proof (cases "m < n")
      case True
      from assms have "bit (take_bit n a) m = bit (take_bit n b) m" by simp
      with True show ?thesis by (simp add: bit_simps)
    next
      case False
      with \<open>bit a n = bit b n\<close> show ?thesis by (cases "m = n") (auto simp: bit_simps)
    qed
  qed
  then show ?thesis ..
next
  case False
  have "take_bit (Suc n) a = take_bit (Suc n) (b XOR 2 ^ n)"
  proof (rule bit_eqI)
    fix m
    show "bit (take_bit (Suc n) a) m = bit (take_bit (Suc n) (b XOR 2 ^ n)) m"
    proof (cases "m < n")
      case True
      from assms have "bit (take_bit n a) m = bit (take_bit n b) m" by simp
      with True show ?thesis by (simp add: bit_simps)
    next
      case False2: False
      with False show ?thesis by (cases "m = n") (auto simp: bit_simps)
    qed
  qed
  then show ?thesis ..
qed

lemma take_bit_eq_mono:
  "take_bit n (a::nat) = take_bit n b \<Longrightarrow> m \<le> n \<Longrightarrow> take_bit m a = take_bit m b"
proof -
  assume e: "take_bit n a = take_bit n b" and mn: "m \<le> n"
  have "take_bit m (take_bit n a) = take_bit m (take_bit n b)" using e by simp
  then show ?thesis using mn by (simp add: min.absorb1)
qed

lemma unat_split_image:
  assumes "0 < ld" "ld \<le> 32"
  shows "unat ((bucket_idx :: uint32_t) XOR push_bit (ld - 1) 1) = unat bucket_idx XOR 2 ^ (ld - 1)"
proof -
  have "unat (2 ^ (ld - 1) :: uint32_t) = 2 ^ (ld - 1)"
    using assms by (intro unat_exp32) simp
  then show ?thesis by (simp add: unsigned_xor_eq)
qed

subsection \<open>A pair that is present is found\<close>

lemma less_next_page_valid: "(p :: page_id_t) < n \<Longrightarrow> p \<noteq> INVALID_PAGE_ID"
proof
  assume "p < n" "p = INVALID_PAGE_ID"
  then have "- 1 < n" by (simp add: INVALID_PAGE_ID_def)
  moreover have "n \<le> - 1" by simp
  ultimately show False by simp
qed

lemma header_of_unique: "header_of ht h \<Longrightarrow> header_of ht h' \<Longrightarrow> h' = h"
  by (simp add: header_of_def)

lemma dir_index_less: "hdn ht \<le> 32 \<Longrightarrow> dir_index ht k < 2 ^ hdn ht"
proof -
  assume a: "hdn ht \<le> 32"
  have "unat (Hash ht k) < 2 ^ 32" using unsigned_less [of "Hash ht k"] by simp
  also have "(2::nat) ^ 32 = 2 ^ (32 - hdn ht) * 2 ^ hdn ht"
    using a by (simp flip: power_add)
  finally have "unat (Hash ht k) div 2 ^ (32 - hdn ht) < 2 ^ hdn ht"
    by (simp add: less_mult_imp_div_less mult.commute)
  then show ?thesis by (simp add: dir_index_def drop_bit_eq_div)
qed

lemma bkt_index_less: "bkt_index d ht k < 2 ^ gdn d"
  by (simp add: bkt_index_def)

lemma dir_ok_bounds:
  assumes "dir_ok das dmd d"
  shows "gdn d < 32 \<and> gdn d \<le> unat dmd \<and> unat dmd \<le> 31
         \<and> 2 ^ gdn d \<le> length (bucket_page_ids d) \<and> 2 ^ gdn d \<le> length (local_depths d)
         \<and> length (bucket_page_ids d) = das \<and> length (local_depths d) = das \<and> max_depth d = dmd"
proof -
  from assms have a: "max_depth d = dmd" "unat dmd \<le> 31" "2 ^ unat dmd \<le> das" "gdn d \<le> unat dmd"
     "length (bucket_page_ids d) = das" "length (local_depths d) = das"
    by (simp_all add: dir_ok_def)
  have "(2::nat) ^ gdn d \<le> 2 ^ unat dmd" using a(4) by (rule power_increasing) simp
  with a(3) have "2 ^ gdn d \<le> das" by linarith
  with a show ?thesis by simp
qed

lemma dir_ok_GetBucketPageId:
  assumes "dir_ok das dmd d" "unat idx < 2 ^ gdn d"
  shows "GetBucketPageId d idx = Inr (slot_pid d (unat idx))"
proof -
  from dir_ok_bounds [OF assms(1)] have g: "unat (global_depth d) < 32"
    and l: "2 ^ gdn d \<le> length (bucket_page_ids d)"
    by (simp_all add: gdn_def)
  from assms(2) g have "idx < Size_directory d" by (simp add: less_Size_directory gdn_def)
  with assms(2) l show ?thesis by (simp add: GetBucketPageId_def slot_pid_def)
qed

lemma dir_ok_GetLocalDepth:
  assumes "dir_ok das dmd d" "unat idx < 2 ^ gdn d"
  shows "\<exists>ld. GetLocalDepth d idx = Inr ld \<and> unat ld = slot_ld d (unat idx)"
proof -
  from dir_ok_bounds [OF assms(1)] have g: "unat (global_depth d) < 32"
    and l: "2 ^ gdn d \<le> length (local_depths d)"
    by (simp_all add: gdn_def)
  from assms(2) g have "idx < Size_directory d" by (simp add: less_Size_directory gdn_def)
  moreover have "unat (ucast (local_depths d ! unat idx) :: uint32_t) = unat (local_depths d ! unat idx)"
    by (simp add: unsigned_ucast_eq take_bit_nat_eq_self unsigned_less [THEN less_trans])
  ultimately show ?thesis using assms(2) l by (simp add: GetLocalDepth_def slot_ld_def)
qed

lemma present_GetValue:
  assumes ok: "table_ok ht" and p: "present ht k v"
  shows "GetValue ht k res = Inr (True, res @ [v])"
proof -
  from p obtain dp d b h where
    h: "header_of ht h" "directory_page_ids h ! dir_index ht k = dp" "dir_index ht k < 2 ^ hdn ht"
       "dp \<noteq> INVALID_PAGE_ID" "store ht dp = Some (DirectoryPage d)"
    and s: "slot_pid d (bkt_index d ht k) \<noteq> INVALID_PAGE_ID"
       "store ht (slot_pid d (bkt_index d ht k)) = Some (BucketPage b)"
       "(k, v) \<in> set (entries b)"
    by (auto simp: present_def dir_at_def)
  have da: "dir_at ht (dir_index ht k) dp d" using h by (auto simp: dir_at_def)
  from ok da have dok: "dir_ok (directory_array_size ht) (directory_max_depth ht) d"
    and bok: "buckets_ok ht (dir_index ht k) d" and cfg: "config_ok ht"
    by (auto simp: table_ok_def)
  from ok h(1) have "header_page_id ht < next_page ht" by (auto simp: table_ok_def header_of_def)
  then have hv: "header_page_id ht \<noteq> INVALID_PAGE_ID" by (rule less_next_page_valid)
  have fh: "fetch_header ht (header_page_id ht) = Inr h"
    using h(1) by (simp add: fetch_header_def header_of_def)
  have ui: "unat (HashToDirectoryIndex h (Hash ht k)) = dir_index ht k"
    using h(1) by (simp add: unat_HashToDirectoryIndex dir_index_def hdn_def header_of_def)
  have "dir_index ht k < length (directory_page_ids h)"
    using h(1,3) cfg by (simp add: header_of_def config_ok_def)
  then have gd: "GetDirectoryPageId h (HashToDirectoryIndex h (Hash ht k)) = Inr dp"
    using ui h(2) by (simp add: GetDirectoryPageId_def)
  have fd: "fetch_directory ht dp = Inr d" using h(5) by (simp add: fetch_directory_def)
  have ub: "unat (HashToBucketIndex d (Hash ht k)) = bkt_index d ht k"
    by (simp add: unat_HashToBucketIndex bkt_index_def gdn_def)
  have gb: "GetBucketPageId d (HashToBucketIndex d (Hash ht k)) = Inr (slot_pid d (bkt_index d ht k))"
    using dir_ok_GetBucketPageId [OF dok, of "HashToBucketIndex d (Hash ht k)"] ub bkt_index_less [of d ht k]
    by simp
  have f: "FindBucketPageID ht k = Inr (Some (slot_pid d (bkt_index d ht k)))"
    by (simp add: FindBucketPageID_def hv fh gd h(4) fd gb s(1))
  have fb: "fetch_bucket ht (slot_pid d (bkt_index d ht k)) = Inr b"
    using s(2) by (simp add: fetch_bucket_def)
  from bok s(1,2) bkt_index_less [of d ht k] have "bucket_ok ht (dir_index ht k) (slot_ld d (bkt_index d ht k)) (bkt_index d ht k) b"
    by (auto simp: buckets_ok_def)
  with cfg have "bucket_wf b" by (auto simp: bucket_ok_def bucket_wf_def config_ok_def)
  then have "Lookup b k = Inr (Some v)" using s(3) by (rule Lookup_present)
  then show ?thesis by (simp add: GetValue_def f fb)
qed

subsection \<open>Changes inside one directory\<close>

lemma same_config_simps:
  assumes "same_config ht ht'"
  shows "hdn ht' = hdn ht" "dir_index ht' k = dir_index ht k" "bkt_index d ht' k = bkt_index d ht k"
    "Hash ht' k = Hash ht k" "config_ok ht' = config_ok ht" "bucket_ok ht' j ld i b = bucket_ok ht j ld i b"
    "header_page_id ht' = header_page_id ht"
    "directory_array_size ht' = directory_array_size ht" "directory_max_depth ht' = directory_max_depth ht"
    "bucket_max_size ht' = bucket_max_size ht" "bucket_array_size ht' = bucket_array_size ht"
    "header_array_size ht' = header_array_size ht" "header_max_depth ht' = header_max_depth ht"
  using assms
  by (simp_all add: same_config_def hdn_def dir_index_def bkt_index_def Hash_def config_ok_def bucket_ok_def)

lemma same_config_refl [simp]: "same_config ht ht"
  by (simp add: same_config_def)

lemma same_config_trans: "same_config a b \<Longrightarrow> same_config b c \<Longrightarrow> same_config a c"
  by (simp add: same_config_def)

lemma header_of_frame:
  assumes "same_config ht ht'" "store ht' (header_page_id ht) = store ht (header_page_id ht)"
  shows "header_of ht' h = header_of ht h"
  using assms by (simp add: header_of_def same_config_def)

lemma owns_bucket:
  assumes "table_ok ht" "owns ht j p"
  shows "\<exists>b. store ht p = Some (BucketPage b)"
proof -
  from assms(2) obtain dp d i where a: "dir_at ht j dp d" "i < 2 ^ gdn d" "slot_pid d i = p" "p \<noteq> INVALID_PAGE_ID"
    by (auto simp: owns_def)
  from assms(1) a(1) have "buckets_ok ht j d" by (simp add: table_ok_def)
  with a(2,3,4) show ?thesis by (auto simp: buckets_ok_def)
qed

lemma table_ok_header:
  assumes "table_ok ht"
  shows "\<exists>h. header_of ht h \<and> (\<forall>j j'. j < 2 ^ hdn ht \<longrightarrow> j' < 2 ^ hdn ht \<longrightarrow>
       directory_page_ids h ! j = directory_page_ids h ! j' \<longrightarrow>
       directory_page_ids h ! j \<noteq> INVALID_PAGE_ID \<longrightarrow> j = j')"
proof -
  from assms obtain h where "header_of ht h"
    "\<forall>j<2 ^ hdn ht. \<forall>j'<2 ^ hdn ht.
                directory_page_ids h ! j = directory_page_ids h ! j'
                \<longrightarrow> directory_page_ids h ! j \<noteq> INVALID_PAGE_ID \<longrightarrow> j = j'"
    unfolding table_ok_def by blast
  then show ?thesis by blast
qed

lemma table_ok_dir:
  assumes "table_ok ht" "header_of ht h" "j < 2 ^ hdn ht" "directory_page_ids h ! j \<noteq> INVALID_PAGE_ID"
  obtains d where "dir_at ht j (directory_page_ids h ! j) d"
proof -
  from assms have "\<exists>d. store ht (directory_page_ids h ! j) = Some (DirectoryPage d)"
    unfolding table_ok_def by blast
  then obtain d where "store ht (directory_page_ids h ! j) = Some (DirectoryPage d)" ..
  with assms(2,3,4) have "dir_at ht j (directory_page_ids h ! j) d"
    by (auto simp: dir_at_def)
  then show thesis ..
qed

lemma dir_update:
  assumes ok: "table_ok ht" and da: "dir_at ht j dp d"
    and cfg: "same_config ht ht'"
    and dom': "\<forall>p\<in>dom (store ht'). p < next_page ht'"
    and frame: "\<forall>p. p \<noteq> dp \<longrightarrow> \<not> owns ht j p \<longrightarrow> p \<in> dom (store ht) \<longrightarrow> store ht' p = store ht p"
    and d': "store ht' dp = Some (DirectoryPage d')"
            "dir_ok (directory_array_size ht) (directory_max_depth ht) d'"
            "buckets_ok ht' j d'"
    and own': "\<forall>i<2 ^ gdn d'. slot_pid d' i \<noteq> INVALID_PAGE_ID \<longrightarrow>
                 owns ht j (slot_pid d' i) \<or> slot_pid d' i \<notin> dom (store ht)"
  shows "table_ok ht'"
proof -
  from table_ok_header [OF ok] obtain h where h: "header_of ht h"
    and hsep: "\<And>j j'. j < 2 ^ hdn ht \<Longrightarrow> j' < 2 ^ hdn ht \<Longrightarrow>
       directory_page_ids h ! j = directory_page_ids h ! j' \<Longrightarrow>
       directory_page_ids h ! j \<noteq> INVALID_PAGE_ID \<Longrightarrow> j = j'"
    by blast
  from da h have dj: "directory_page_ids h ! j = dp" "j < 2 ^ hdn ht" "dp \<noteq> INVALID_PAGE_ID"
    "store ht dp = Some (DirectoryPage d)"
    by (auto simp: dir_at_def dest: header_of_unique)
  have kind: "\<And>p. owns ht j p \<Longrightarrow> p \<noteq> dp \<and> p \<noteq> header_page_id ht"
  proof -
    fix p assume "owns ht j p"
    from owns_bucket [OF ok this] obtain b where "store ht p = Some (BucketPage b)" ..
    with dj(4) h show "p \<noteq> dp \<and> p \<noteq> header_page_id ht" by (auto simp: header_of_def)
  qed
  have hp: "store ht' (header_page_id ht) = store ht (header_page_id ht)"
  proof -
    have "header_page_id ht \<noteq> dp" using h dj(4) by (auto simp: header_of_def)
    moreover have "\<not> owns ht j (header_page_id ht)" using kind by blast
    moreover have "header_page_id ht \<in> dom (store ht)" using h by (auto simp: header_of_def)
    ultimately show ?thesis using frame by blast
  qed
  have h': "\<And>x. header_of ht' x = header_of ht x" using header_of_frame [OF cfg hp] .
  have hd: "hdn ht' = hdn ht" using cfg by (rule same_config_simps)
  have other: "\<And>j2 dp2 d2. j2 \<noteq> j \<Longrightarrow> dir_at ht' j2 dp2 d2 = dir_at ht j2 dp2 d2"
  proof -
    fix j2 dp2 d2 assume n: "j2 \<noteq> j"
    show "dir_at ht' j2 dp2 d2 = dir_at ht j2 dp2 d2"
    proof (cases "header_of ht h \<and> directory_page_ids h ! j2 = dp2 \<and> j2 < 2 ^ hdn ht \<and> dp2 \<noteq> INVALID_PAGE_ID")
      case False
      then show ?thesis using h by (auto simp: dir_at_def h' hd dest: header_of_unique)
    next
      case True
      then have ne: "dp2 \<noteq> dp" using hsep [of j2 j] dj n by auto
      from True ok obtain d0 where d0: "store ht dp2 = Some (DirectoryPage d0)"
        using table_ok_dir [OF ok h, of j2] by (auto simp: dir_at_def)
      have "\<not> owns ht j dp2"
      proof
        assume "owns ht j dp2"
        from owns_bucket [OF ok this] d0 show False by auto
      qed
      then have "store ht' dp2 = store ht dp2" using frame ne d0 by blast
      then show ?thesis by (simp add: dir_at_def h' hd)
    qed
  qed
  have this_dir: "\<And>dp2 d2. dir_at ht' j dp2 d2 \<longleftrightarrow> dp2 = dp \<and> d2 = d'"
    using h dj d' by (auto simp: dir_at_def h' hd dest: header_of_unique)
  have owns_other: "\<And>j2 p. j2 \<noteq> j \<Longrightarrow> owns ht' j2 p = owns ht j2 p"
    by (simp add: owns_def other)
  have owns_this: "\<And>p. owns ht' j p \<Longrightarrow> owns ht j p \<or> p \<notin> dom (store ht)"
    using own' by (auto simp: owns_def this_dir)
  have c1: "config_ok ht'" using ok cfg by (simp add: same_config_simps table_ok_def)
  have c2: "\<exists>h. header_of ht' h
          \<and> (\<forall>j<2 ^ hdn ht'. \<forall>j'<2 ^ hdn ht'.
                directory_page_ids h ! j = directory_page_ids h ! j'
                \<longrightarrow> directory_page_ids h ! j \<noteq> INVALID_PAGE_ID \<longrightarrow> j = j')"
    using h hsep by (auto simp: h' hd)
  have c3: "\<forall>j2 dp2 d2. dir_at ht' j2 dp2 d2 \<longrightarrow>
            dir_ok (directory_array_size ht') (directory_max_depth ht') d2 \<and> buckets_ok ht' j2 d2"
  proof (intro allI impI)
    fix j2 dp2 d2 assume a: "dir_at ht' j2 dp2 d2"
    show "dir_ok (directory_array_size ht') (directory_max_depth ht') d2 \<and> buckets_ok ht' j2 d2"
    proof (cases "j2 = j")
      case True
      with a this_dir d' cfg show ?thesis by (simp add: same_config_simps)
    next
      case False
      with a other have a0: "dir_at ht j2 dp2 d2" by simp
      with ok have o: "dir_ok (directory_array_size ht) (directory_max_depth ht) d2" "buckets_ok ht j2 d2"
        by (auto simp: table_ok_def)
      have "buckets_ok ht' j2 d2"
        unfolding buckets_ok_def
      proof (intro conjI allI impI)
        fix i assume i: "i < 2 ^ gdn d2" "slot_pid d2 i \<noteq> INVALID_PAGE_ID"
        with o(2) obtain b where b: "store ht (slot_pid d2 i) = Some (BucketPage b)"
          "bucket_ok ht j2 (slot_ld d2 i) i b" by (auto simp: buckets_ok_def)
        have ow: "owns ht j2 (slot_pid d2 i)" using a0 i by (auto simp: owns_def)
        have "\<not> owns ht j (slot_pid d2 i)"
          using ow ok False by (auto simp: table_ok_def)
        moreover have "slot_pid d2 i \<noteq> dp" using b(1) dj(4) by auto
        ultimately have "store ht' (slot_pid d2 i) = store ht (slot_pid d2 i)"
          using frame b(1) by blast
        with b cfg show "\<exists>b. store ht' (slot_pid d2 i) = Some (BucketPage b)
                 \<and> bucket_ok ht' j2 (slot_ld d2 i) i b"
          by (simp add: same_config_simps)
      next
        assume "\<exists>i<2 ^ gdn d2. slot_pid d2 i = INVALID_PAGE_ID"
        with o(2) show "gdn d2 = 0" by (auto simp: buckets_ok_def)
      qed
      with o(1) cfg show ?thesis by (simp add: same_config_simps)
    qed
  qed
  have c4: "\<forall>j2 dp2. (\<exists>h. header_of ht' h \<and> directory_page_ids h ! j2 = dp2) \<and> j2 < 2 ^ hdn ht'
            \<and> dp2 \<noteq> INVALID_PAGE_ID \<longrightarrow> (\<exists>d. store ht' dp2 = Some (DirectoryPage d))"
  proof (intro allI impI)
    fix j2 dp2
    assume a: "(\<exists>h. header_of ht' h \<and> directory_page_ids h ! j2 = dp2) \<and> j2 < 2 ^ hdn ht'
            \<and> dp2 \<noteq> INVALID_PAGE_ID"
    then have a': "directory_page_ids h ! j2 = dp2" "j2 < 2 ^ hdn ht" "dp2 \<noteq> INVALID_PAGE_ID"
      using h by (auto simp: h' hd dest: header_of_unique)
    show "\<exists>d. store ht' dp2 = Some (DirectoryPage d)"
    proof (cases "j2 = j")
      case True
      with a' dj d' show ?thesis by simp
    next
      case False
      from table_ok_dir [OF ok h a'(2)] a' obtain d0 where "dir_at ht j2 dp2 d0" by auto
      with other [OF False] have "dir_at ht' j2 dp2 d0" by simp
      then show ?thesis by (auto simp: dir_at_def)
    qed
  qed
  have c6: "\<forall>j1 j2 p. owns ht' j1 p \<longrightarrow> owns ht' j2 p \<longrightarrow> j1 = j2"
  proof (intro allI impI)
    fix j1 j2 p assume a: "owns ht' j1 p" "owns ht' j2 p"
    have sep: "\<And>a b. owns ht a p \<Longrightarrow> owns ht b p \<Longrightarrow> a = b" using ok by (auto simp: table_ok_def)
    have indom: "\<And>a. owns ht a p \<Longrightarrow> p \<in> dom (store ht)" using owns_bucket [OF ok] by blast
    show "j1 = j2"
    proof (cases "j1 = j"; cases "j2 = j")
      assume "j1 = j" "j2 = j" then show ?thesis by simp
    next
      assume b: "j1 = j" "j2 \<noteq> j"
      with a owns_other have o2: "owns ht j2 p" by simp
      from a(1) b(1) owns_this have "owns ht j p \<or> p \<notin> dom (store ht)" by simp
      with indom [OF o2] have "owns ht j p" by simp
      with o2 sep b show ?thesis by blast
    next
      assume b: "j1 \<noteq> j" "j2 = j"
      with a owns_other have o1: "owns ht j1 p" by simp
      from a(2) b(2) owns_this have "owns ht j p \<or> p \<notin> dom (store ht)" by simp
      with indom [OF o1] have "owns ht j p" by simp
      with o1 sep b show ?thesis by blast
    next
      assume b: "j1 \<noteq> j" "j2 \<noteq> j"
      with a owns_other have "owns ht j1 p" "owns ht j2 p" by simp_all
      with sep show ?thesis by blast
    qed
  qed
  show ?thesis
    unfolding table_ok_def using c1 c2 c3 c4 dom' c6 by blast
qed

subsection \<open>Directory page: growth\<close>

lemma dir_ok_slots:
  assumes "dir_ok das dmd d"
  shows "\<forall>i<2 ^ gdn d. slot_ld d i \<le> gdn d"
    and "\<forall>i<2 ^ gdn d. \<forall>i'<2 ^ gdn d.
           (slot_pid d i = slot_pid d i') = (take_bit (slot_ld d i) i = take_bit (slot_ld d i) i')"
    and "\<forall>i<2 ^ gdn d. \<forall>i'<2 ^ gdn d. slot_pid d i = slot_pid d i' \<longrightarrow> slot_ld d i = slot_ld d i'"
  using assms unfolding dir_ok_def by blast+

lemma copy_slots_spec:
  assumes "\<forall>x\<in>set xs. x < base \<and> base + x < length (bucket_page_ids d) \<and> base + x < length (local_depths d)"
  shows "\<exists>d'. copy_slots xs base d = Some d'
           \<and> max_depth d' = max_depth d \<and> global_depth d' = global_depth d
           \<and> length (bucket_page_ids d') = length (bucket_page_ids d)
           \<and> length (local_depths d') = length (local_depths d)
           \<and> (\<forall>i. i < length (bucket_page_ids d) \<longrightarrow>
                 bucket_page_ids d' ! i =
                   (if base \<le> i \<and> i - base \<in> set xs then bucket_page_ids d ! (i - base)
                    else bucket_page_ids d ! i))
           \<and> (\<forall>i. i < length (local_depths d) \<longrightarrow>
                 local_depths d' ! i =
                   (if base \<le> i \<and> i - base \<in> set xs then local_depths d ! (i - base)
                    else local_depths d ! i))"
  using assms
proof (induction xs arbitrary: d)
  case Nil
  then show ?case by simp
next
  case (Cons x xs)
  define d1 where "d1 = d\<lparr>bucket_page_ids := (bucket_page_ids d)[base + x := bucket_page_ids d ! x],
                local_depths := (local_depths d)[base + x := local_depths d ! x]\<rparr>"
  from Cons.prems have x: "x < base" "base + x < length (bucket_page_ids d)" "base + x < length (local_depths d)"
    by auto
  have c: "copy_slots (x # xs) base d = copy_slots xs base d1"
    using x by (simp add: d1_def)
  have p1: "\<forall>y\<in>set xs. y < base \<and> base + y < length (bucket_page_ids d1) \<and> base + y < length (local_depths d1)"
    using Cons.prems by (simp add: d1_def)
  from Cons.IH [OF p1] obtain d' where
    r: "copy_slots xs base d1 = Some d'"
       "max_depth d' = max_depth d1" "global_depth d' = global_depth d1"
       "length (bucket_page_ids d') = length (bucket_page_ids d1)"
       "length (local_depths d') = length (local_depths d1)"
       "\<forall>i. i < length (bucket_page_ids d1) \<longrightarrow>
                 bucket_page_ids d' ! i =
                   (if base \<le> i \<and> i - base \<in> set xs then bucket_page_ids d1 ! (i - base)
                    else bucket_page_ids d1 ! i)"
       "\<forall>i. i < length (local_depths d1) \<longrightarrow>
                 local_depths d' ! i =
                   (if base \<le> i \<and> i - base \<in> set xs then local_depths d1 ! (i - base)
                    else local_depths d1 ! i)"
    by blast
  have low: "\<And>i. base \<le> i \<and> i - base \<in> set xs \<Longrightarrow> base + x \<noteq> i - base"
    using Cons.prems by auto
  have a: "\<forall>i. i < length (bucket_page_ids d) \<longrightarrow>
                 bucket_page_ids d' ! i =
                   (if base \<le> i \<and> i - base \<in> set (x # xs) then bucket_page_ids d ! (i - base)
                    else bucket_page_ids d ! i)"
  proof (intro allI impI)
    fix i assume i: "i < length (bucket_page_ids d)"
    then have e: "bucket_page_ids d' ! i =
                   (if base \<le> i \<and> i - base \<in> set xs then bucket_page_ids d1 ! (i - base)
                    else bucket_page_ids d1 ! i)"
      using r(6) by (simp add: d1_def)
    show "bucket_page_ids d' ! i =
                   (if base \<le> i \<and> i - base \<in> set (x # xs) then bucket_page_ids d ! (i - base)
                    else bucket_page_ids d ! i)"
    proof (cases "base \<le> i \<and> i - base \<in> set xs")
      case True
      with low have "bucket_page_ids d1 ! (i - base) = bucket_page_ids d ! (i - base)"
        by (simp add: d1_def)
      with e True show ?thesis by simp
    next
      case False
      show ?thesis
      proof (cases "i = base + x")
        case True
        with e False i show ?thesis by (simp add: d1_def)
      next
        case ne: False
        then have "\<not> (base \<le> i \<and> i - base = x)" by auto
        with e False ne show ?thesis by (auto simp: d1_def)
      qed
    qed
  qed
  have b: "\<forall>i. i < length (local_depths d) \<longrightarrow>
                 local_depths d' ! i =
                   (if base \<le> i \<and> i - base \<in> set (x # xs) then local_depths d ! (i - base)
                    else local_depths d ! i)"
  proof (intro allI impI)
    fix i assume i: "i < length (local_depths d)"
    then have e: "local_depths d' ! i =
                   (if base \<le> i \<and> i - base \<in> set xs then local_depths d1 ! (i - base)
                    else local_depths d1 ! i)"
      using r(7) by (simp add: d1_def)
    show "local_depths d' ! i =
                   (if base \<le> i \<and> i - base \<in> set (x # xs) then local_depths d ! (i - base)
                    else local_depths d ! i)"
    proof (cases "base \<le> i \<and> i - base \<in> set xs")
      case True
      with low have "local_depths d1 ! (i - base) = local_depths d ! (i - base)"
        by (simp add: d1_def)
      with e True show ?thesis by simp
    next
      case False
      show ?thesis
      proof (cases "i = base + x")
        case True
        with e False i show ?thesis by (simp add: d1_def)
      next
        case ne: False
        then have "\<not> (base \<le> i \<and> i - base = x)" by auto
        with e False ne show ?thesis by (auto simp: d1_def)
      qed
    qed
  qed
  from c r a b show ?case by (simp add: d1_def)
qed

lemma take_bit_upper_half:
  assumes "2 ^ g \<le> (i::nat)" "i < 2 ^ (g + 1)"
  shows "take_bit g i = i - 2 ^ g"
proof -
  have "i - 2 ^ g < 2 ^ g" using assms by simp
  then have "take_bit g (i - 2 ^ g) = i - 2 ^ g" by (simp add: take_bit_nat_eq_self)
  moreover have "take_bit g (i - 2 ^ g) = take_bit g i"
  proof -
    have "i = (i - 2 ^ g) + 2 ^ g * 1" using assms by simp
    then have "i mod 2 ^ g = (i - 2 ^ g) mod 2 ^ g"
      by (metis mod_mult_self2)
    then show ?thesis by (simp add: take_bit_eq_mod)
  qed
  ultimately show ?thesis by simp
qed

lemma IncrGlobalDepth_spec:
  assumes ok: "dir_ok das dmd d" and lt: "gdn d < unat dmd"
  shows "\<exists>dg. IncrGlobalDepth d = Some dg \<and> dir_ok das dmd dg \<and> gdn dg = gdn d + 1
           \<and> (\<forall>i<2 ^ (gdn d + 1). slot_pid dg i = slot_pid d (take_bit (gdn d) i)
                  \<and> slot_ld dg i = slot_ld d (take_bit (gdn d) i))"
proof -
  let ?g = "gdn d"
  from dir_ok_bounds [OF ok] have b: "?g < 32" "unat dmd \<le> 31" "length (bucket_page_ids d) = das"
    "length (local_depths d) = das" "max_depth d = dmd"
    by simp_all
  from ok have dm: "2 ^ unat dmd \<le> das" by (simp add: dir_ok_def)
  have "(2::nat) ^ (?g + 1) \<le> 2 ^ unat dmd" using lt by (intro power_increasing) simp_all
  with dm have big: "2 ^ (?g + 1) \<le> das" by linarith
  have pre: "\<forall>x\<in>set [0..<2 ^ ?g]. x < 2 ^ ?g \<and> 2 ^ ?g + x < length (bucket_page_ids d)
               \<and> 2 ^ ?g + x < length (local_depths d)"
    using big b by auto
  from copy_slots_spec [OF pre] obtain d' where
    r: "copy_slots [0..<2 ^ ?g] (2 ^ ?g) d = Some d'"
       "max_depth d' = max_depth d" "global_depth d' = global_depth d"
       "length (bucket_page_ids d') = length (bucket_page_ids d)"
       "length (local_depths d') = length (local_depths d)"
       "\<forall>i. i < length (bucket_page_ids d) \<longrightarrow>
                 bucket_page_ids d' ! i =
                   (if 2 ^ ?g \<le> i \<and> i - 2 ^ ?g \<in> set [0..<2 ^ ?g] then bucket_page_ids d ! (i - 2 ^ ?g)
                    else bucket_page_ids d ! i)"
       "\<forall>i. i < length (local_depths d) \<longrightarrow>
                 local_depths d' ! i =
                   (if 2 ^ ?g \<le> i \<and> i - 2 ^ ?g \<in> set [0..<2 ^ ?g] then local_depths d ! (i - 2 ^ ?g)
                    else local_depths d ! i)"
    by blast
  define dg where "dg = d'\<lparr>global_depth := global_depth d' + 1\<rparr>"
  have ng: "\<not> global_depth d > max_depth d"
    using lt b(5) by (simp add: word_less_nat_alt gdn_def)
  have n31: "\<not> unat (global_depth d) \<ge> 31" using lt b(2) by (simp add: gdn_def)
  have inc: "IncrGlobalDepth d = Some dg"
    using ng n31 r(1) by (simp add: IncrGlobalDepth_def dg_def gdn_def)
  have "unat (global_depth d + 1) = unat (global_depth d) + 1"
  proof -
    have "unat (global_depth d) + unat (1 :: 32 word) < 2 ^ LENGTH(32)" using n31 by simp
    then have "unat (global_depth d + 1) = unat (global_depth d) + unat (1 :: 32 word)"
      by (simp only: unat_add_lem)
    then show ?thesis by simp
  qed
  then have g': "gdn dg = ?g + 1" by (simp add: gdn_def dg_def r(3))
  have slots: "\<forall>i<2 ^ (?g + 1). slot_pid dg i = slot_pid d (take_bit ?g i)
                  \<and> slot_ld dg i = slot_ld d (take_bit ?g i)"
  proof (intro allI impI)
    fix i :: nat assume i: "i < 2 ^ (?g + 1)"
    then have il: "i < das" using big by simp
    show "slot_pid dg i = slot_pid d (take_bit ?g i) \<and> slot_ld dg i = slot_ld d (take_bit ?g i)"
    proof (cases "i < 2 ^ ?g")
      case True
      then have "take_bit ?g i = i" by (simp add: take_bit_nat_eq_self)
      with True r(6,7) il b show ?thesis by (simp add: slot_pid_def slot_ld_def dg_def)
    next
      case False
      then have t: "take_bit ?g i = i - 2 ^ ?g" using i by (intro take_bit_upper_half) simp_all
      have "i - 2 ^ ?g < 2 ^ ?g" using i False by simp
      with False r(6,7) il b t show ?thesis by (simp add: slot_pid_def slot_ld_def dg_def)
    qed
  qed
  have tb: "\<And>i::nat. take_bit ?g i < 2 ^ ?g" by simp
  note old = dir_ok_slots [OF ok]
  have tt: "\<And>(i::nat) l. l \<le> ?g \<Longrightarrow> take_bit l (take_bit ?g i) = take_bit l i"
    by (simp add: min.absorb1)
  have ok': "dir_ok das dmd dg"
    unfolding dir_ok_def
  proof (intro conjI allI impI)
    show "max_depth dg = dmd" using b r by (simp add: dg_def)
    show "unat dmd \<le> 31" by fact
    show "2 ^ unat dmd \<le> das" by fact
    show "gdn dg \<le> unat dmd" using g' lt by simp
    show "length (bucket_page_ids dg) = das" using b r by (simp add: dg_def)
    show "length (local_depths dg) = das" using b r by (simp add: dg_def)
  next
    fix i :: nat assume "i < 2 ^ gdn dg"
    then have i: "i < 2 ^ (?g + 1)" using g' by simp
    have "slot_ld d (take_bit ?g i) \<le> ?g" using old(1) [rule_format, OF tb] .
    moreover have "slot_ld dg i = slot_ld d (take_bit ?g i)" using slots [rule_format, OF i] by simp
    ultimately show "slot_ld dg i \<le> gdn dg" using g' by simp
  next
    fix i i' :: nat assume "i < 2 ^ gdn dg" "i' < 2 ^ gdn dg"
    then have i: "i < 2 ^ (?g + 1)" "i' < 2 ^ (?g + 1)" using g' by simp_all
    have l: "slot_ld d (take_bit ?g i) \<le> ?g" using old(1) [rule_format, OF tb] .
    note si = slots [rule_format, OF i(1)] and si' = slots [rule_format, OF i(2)]
    have "(slot_pid dg i = slot_pid dg i') = (slot_pid d (take_bit ?g i) = slot_pid d (take_bit ?g i'))"
      using si si' by simp
    also have "\<dots> = (take_bit (slot_ld d (take_bit ?g i)) (take_bit ?g i)
                    = take_bit (slot_ld d (take_bit ?g i)) (take_bit ?g i'))"
      using old(2) [rule_format, OF tb tb] .
    also have "\<dots> = (take_bit (slot_ld dg i) i = take_bit (slot_ld dg i) i')"
      using si l by (simp only: tt)
    finally show "(slot_pid dg i = slot_pid dg i') = (take_bit (slot_ld dg i) i = take_bit (slot_ld dg i) i')" .
  next
    fix i i' :: nat assume "i < 2 ^ gdn dg" "i' < 2 ^ gdn dg" and e: "slot_pid dg i = slot_pid dg i'"
    then have i: "i < 2 ^ (?g + 1)" "i' < 2 ^ (?g + 1)" using g' by simp_all
    note si = slots [rule_format, OF i(1)] and si' = slots [rule_format, OF i(2)]
    from e si si' have "slot_pid d (take_bit ?g i) = slot_pid d (take_bit ?g i')" by simp
    with old(3) [rule_format, OF tb tb] have "slot_ld d (take_bit ?g i) = slot_ld d (take_bit ?g i')" .
    with si si' show "slot_ld dg i = slot_ld dg i'" by simp
  qed
  from inc ok' g' slots show ?thesis by blast
qed

subsection \<open>Directory page: the slots after a split\<close>

lemma dir_okI:
  assumes "max_depth d = dmd" "unat dmd \<le> 31" "2 ^ unat dmd \<le> das" "gdn d \<le> unat dmd"
    "length (bucket_page_ids d) = das" "length (local_depths d) = das"
    "\<And>i. i < 2 ^ gdn d \<Longrightarrow> slot_ld d i \<le> gdn d"
    "\<And>i i'. i < 2 ^ gdn d \<Longrightarrow> i' < 2 ^ gdn d \<Longrightarrow>
       (slot_pid d i = slot_pid d i') = (take_bit (slot_ld d i) i = take_bit (slot_ld d i) i')"
    "\<And>i i'. i < 2 ^ gdn d \<Longrightarrow> i' < 2 ^ gdn d \<Longrightarrow> slot_pid d i = slot_pid d i' \<Longrightarrow> slot_ld d i = slot_ld d i'"
  shows "dir_ok das dmd d"
  unfolding dir_ok_def using assms by blast

lemma dir_ok_same_bucket:
  assumes ok: "dir_ok das dmd d" and b: "bidx < 2 ^ gdn d" and i: "i < 2 ^ gdn d"
  shows "(slot_pid d i = slot_pid d bidx) = (take_bit (slot_ld d bidx) i = take_bit (slot_ld d bidx) bidx)"
proof -
  have "(slot_pid d bidx = slot_pid d i) = (take_bit (slot_ld d bidx) bidx = take_bit (slot_ld d bidx) i)"
    using dir_ok_slots(2) [OF ok, rule_format, OF b i] .
  then show ?thesis by metis
qed

lemma split_dir_ok:
  fixes bidx :: nat
  assumes ok: "dir_ok das dmd d" and b: "bidx < 2 ^ gdn d" and l: "slot_ld d bidx < gdn d"
    and p: "p = slot_pid d bidx" and q: "\<forall>i<2 ^ gdn d. slot_pid d i \<noteq> q"
    and g': "gdn d' = gdn d" "max_depth d' = max_depth d"
            "length (bucket_page_ids d') = length (bucket_page_ids d)"
            "length (local_depths d') = length (local_depths d)"
    and s: "\<forall>i<2 ^ gdn d.
              slot_pid d' i = (if slot_pid d i = p
                               then if take_bit (Suc (slot_ld d bidx)) i = take_bit (Suc (slot_ld d bidx)) bidx
                                    then p else q
                               else slot_pid d i)
              \<and> slot_ld d' i = (if slot_pid d i = p then Suc (slot_ld d bidx) else slot_ld d i)"
  shows "dir_ok das dmd d'"
proof -
  let ?g = "gdn d"
  let ?l = "slot_ld d bidx"
  note old = dir_ok_slots [OF ok]
  from dir_ok_bounds [OF ok] have bd: "unat dmd \<le> 31" "?g \<le> unat dmd" "length (bucket_page_ids d) = das"
    "length (local_depths d) = das" "max_depth d = dmd"
    by simp_all
  from ok have dm: "2 ^ unat dmd \<le> das" by (simp add: dir_ok_def)
  have pq: "p \<noteq> q" using q b p by auto
  have inS: "\<And>i. i < 2 ^ ?g \<Longrightarrow> (slot_pid d i = p) = (take_bit ?l i = take_bit ?l bidx)"
    using dir_ok_same_bucket [OF ok b] p by simp
  have nq: "\<And>i. i < 2 ^ ?g \<Longrightarrow> slot_pid d i \<noteq> q" using q by simp
  have two: "\<And>i i'. take_bit ?l i = take_bit ?l bidx \<Longrightarrow> take_bit ?l i' = take_bit ?l bidx \<Longrightarrow>
               take_bit (Suc ?l) i \<noteq> take_bit (Suc ?l) bidx \<Longrightarrow>
               take_bit (Suc ?l) i' \<noteq> take_bit (Suc ?l) bidx \<Longrightarrow>
               take_bit (Suc ?l) i = take_bit (Suc ?l) i'"
  proof -
    fix i i' :: nat
    assume a: "take_bit ?l i = take_bit ?l bidx" "take_bit ?l i' = take_bit ?l bidx"
      "take_bit (Suc ?l) i \<noteq> take_bit (Suc ?l) bidx" "take_bit (Suc ?l) i' \<noteq> take_bit (Suc ?l) bidx"
    from take_bit_two_classes [OF a(1)] a(3)
    have "take_bit (Suc ?l) i = take_bit (Suc ?l) (bidx XOR 2 ^ ?l)" by simp
    moreover from take_bit_two_classes [OF a(2)] a(4)
    have "take_bit (Suc ?l) i' = take_bit (Suc ?l) (bidx XOR 2 ^ ?l)" by simp
    ultimately show "take_bit (Suc ?l) i = take_bit (Suc ?l) i'" by simp
  qed
  show ?thesis
  proof (rule dir_okI)
    show "max_depth d' = dmd" using g' bd by simp
    show "unat dmd \<le> 31" by fact
    show "2 ^ unat dmd \<le> das" by fact
    show "gdn d' \<le> unat dmd" using g' bd by simp
    show "length (bucket_page_ids d') = das" using g' bd by simp
    show "length (local_depths d') = das" using g' bd by simp
  next
    fix i :: nat assume "i < 2 ^ gdn d'"
    then have i: "i < 2 ^ ?g" using g' by simp
    from s [rule_format, OF i] old(1) [rule_format, OF i] l
    show "slot_ld d' i \<le> gdn d'" using g' by (simp split: if_splits)
  next
    fix i i' :: nat assume "i < 2 ^ gdn d'" "i' < 2 ^ gdn d'"
    then have i: "i < 2 ^ ?g" and i': "i' < 2 ^ ?g" using g' by simp_all
    note si = s [rule_format, OF i] and si' = s [rule_format, OF i']
    show "(slot_pid d' i = slot_pid d' i') = (take_bit (slot_ld d' i) i = take_bit (slot_ld d' i) i')"
    proof (cases "slot_pid d i = p")
      case T: True
      then have ti: "take_bit ?l i = take_bit ?l bidx" using inS [OF i] by simp
      have ldi: "slot_ld d' i = Suc ?l" using si T by simp
      show ?thesis
      proof (cases "slot_pid d i' = p")
        case True
        then have ti': "take_bit ?l i' = take_bit ?l bidx" using inS [OF i'] by simp
        have "(slot_pid d' i = slot_pid d' i') =
                ((take_bit (Suc ?l) i = take_bit (Suc ?l) bidx) = (take_bit (Suc ?l) i' = take_bit (Suc ?l) bidx))"
          using si si' T True pq by auto
        also have "\<dots> = (take_bit (Suc ?l) i = take_bit (Suc ?l) i')"
          using two [OF ti ti'] by metis
        finally show ?thesis using ldi by simp
      next
        case False
        then have "slot_pid d' i' = slot_pid d i'" using si' by simp
        with False nq [OF i'] have "slot_pid d' i' \<noteq> p" "slot_pid d' i' \<noteq> q" by simp_all
        moreover have "slot_pid d' i = p \<or> slot_pid d' i = q" using si T by simp
        ultimately have lhs: "slot_pid d' i \<noteq> slot_pid d' i'" by metis
        have "take_bit (Suc ?l) i \<noteq> take_bit (Suc ?l) i'"
        proof
          assume "take_bit (Suc ?l) i = take_bit (Suc ?l) i'"
          then have "take_bit ?l i = take_bit ?l i'" by (rule take_bit_eq_mono) simp
          with ti have "take_bit ?l i' = take_bit ?l bidx" by simp
          with inS [OF i'] False show False by simp
        qed
        with lhs ldi show ?thesis by simp
      qed
    next
      case F: False
      then have e: "slot_pid d' i = slot_pid d i" "slot_ld d' i = slot_ld d i" using si by simp_all
      show ?thesis
      proof (cases "slot_pid d i' = p")
        case True
        then have "slot_pid d' i' = p \<or> slot_pid d' i' = q" using si' by simp
        with e F nq [OF i] have lhs: "slot_pid d' i \<noteq> slot_pid d' i'" by metis
        have "slot_pid d i \<noteq> slot_pid d i'" using F True by simp
        then have "take_bit (slot_ld d i) i \<noteq> take_bit (slot_ld d i) i'"
          using old(2) [rule_format, OF i i'] by simp
        with lhs e show ?thesis by simp
      next
        case False
        then have "slot_pid d' i' = slot_pid d i'" using si' by simp
        with e old(2) [rule_format, OF i i'] show ?thesis by simp
      qed
    qed
  next
    fix i i' :: nat assume "i < 2 ^ gdn d'" "i' < 2 ^ gdn d'" and e: "slot_pid d' i = slot_pid d' i'"
    then have i: "i < 2 ^ ?g" and i': "i' < 2 ^ ?g" using g' by simp_all
    note si = s [rule_format, OF i] and si' = s [rule_format, OF i']
    show "slot_ld d' i = slot_ld d' i'"
    proof (cases "slot_pid d i = p")
      case T: True
      show ?thesis
      proof (cases "slot_pid d i' = p")
        case True
        with T si si' show ?thesis by simp
      next
        case False
        then have "slot_pid d' i' = slot_pid d i'" using si' by simp
        with False nq [OF i'] have "slot_pid d' i' \<noteq> p" "slot_pid d' i' \<noteq> q" by simp_all
        moreover have "slot_pid d' i = p \<or> slot_pid d' i = q" using si T by simp
        ultimately show ?thesis using e by metis
      qed
    next
      case F: False
      then have e': "slot_pid d' i = slot_pid d i" "slot_ld d' i = slot_ld d i" using si by simp_all
      show ?thesis
      proof (cases "slot_pid d i' = p")
        case True
        then have "slot_pid d' i' = p \<or> slot_pid d' i' = q" using si' by simp
        with e' F nq [OF i] e show ?thesis by metis
      next
        case False
        then have "slot_pid d' i' = slot_pid d i'" "slot_ld d' i' = slot_ld d i'" using si' by simp_all
        with e e' old(3) [rule_format, OF i i'] show ?thesis by simp
      qed
    qed
  qed
qed

subsection \<open>Directory page: the slots after a merge\<close>

lemma merge_dir_ok:
  fixes bidx :: nat
  assumes ok: "dir_ok das dmd d" and b: "bidx < 2 ^ gdn d" and l: "slot_ld d bidx = Suc m"
    and img: "slot_ld d (bidx XOR 2 ^ m) = Suc m"
    and p: "p = slot_pid d bidx" and p': "p' = slot_pid d (bidx XOR 2 ^ m)"
    and sv: "sv = p \<or> sv = p'"
    and g': "gdn d' = gdn d" "max_depth d' = max_depth d"
            "length (bucket_page_ids d') = length (bucket_page_ids d)"
            "length (local_depths d') = length (local_depths d)"
    and s: "\<forall>i<2 ^ gdn d.
              slot_pid d' i = (if slot_pid d i = p \<or> slot_pid d i = p' then sv else slot_pid d i)
              \<and> slot_ld d' i = (if slot_pid d i = p \<or> slot_pid d i = p' then m else slot_ld d i)"
  shows "dir_ok das dmd d'"
proof -
  let ?g = "gdn d"
  let ?img = "bidx XOR 2 ^ m"
  note old = dir_ok_slots [OF ok]
  from dir_ok_bounds [OF ok] have bd: "unat dmd \<le> 31" "?g \<le> unat dmd" "length (bucket_page_ids d) = das"
    "length (local_depths d) = das" "max_depth d = dmd"
    by simp_all
  from ok have dm: "2 ^ unat dmd \<le> das" by (simp add: dir_ok_def)
  have mg: "m < ?g" using old(1) [rule_format, OF b] l by simp
  have ib: "?img < 2 ^ ?g" using b mg by (rule xor_exp_less)
  have inS: "\<And>i. i < 2 ^ ?g \<Longrightarrow>
               (slot_pid d i = p \<or> slot_pid d i = p') = (take_bit m i = take_bit m bidx)"
  proof -
    fix i :: nat assume i: "i < 2 ^ ?g"
    have a: "(slot_pid d i = p) = (take_bit (Suc m) i = take_bit (Suc m) bidx)"
      using dir_ok_same_bucket [OF ok b i] p l by simp
    have a': "(slot_pid d i = p') = (take_bit (Suc m) i = take_bit (Suc m) ?img)"
      using dir_ok_same_bucket [OF ok ib i] p' img by simp
    show "(slot_pid d i = p \<or> slot_pid d i = p') = (take_bit m i = take_bit m bidx)"
    proof
      assume "slot_pid d i = p \<or> slot_pid d i = p'"
      then show "take_bit m i = take_bit m bidx"
      proof
        assume "slot_pid d i = p"
        with a have "take_bit (Suc m) i = take_bit (Suc m) bidx" by simp
        then show ?thesis by (rule take_bit_eq_mono) simp
      next
        assume "slot_pid d i = p'"
        with a' have "take_bit (Suc m) i = take_bit (Suc m) ?img" by simp
        then have "take_bit m i = take_bit m ?img" by (rule take_bit_eq_mono) simp
        then show ?thesis by (simp only: take_bit_xor_exp_low)
      qed
    next
      assume "take_bit m i = take_bit m bidx"
      from take_bit_two_classes [OF this] a a' show "slot_pid d i = p \<or> slot_pid d i = p'" by simp
    qed
  qed
  show ?thesis
  proof (rule dir_okI)
    show "max_depth d' = dmd" using g' bd by simp
    show "unat dmd \<le> 31" by fact
    show "2 ^ unat dmd \<le> das" by fact
    show "gdn d' \<le> unat dmd" using g' bd by simp
    show "length (bucket_page_ids d') = das" using g' bd by simp
    show "length (local_depths d') = das" using g' bd by simp
  next
    fix i :: nat assume "i < 2 ^ gdn d'"
    then have i: "i < 2 ^ ?g" using g' by simp
    from s [rule_format, OF i] old(1) [rule_format, OF i] mg
    show "slot_ld d' i \<le> gdn d'" using g' by (simp split: if_splits)
  next
    fix i i' :: nat assume "i < 2 ^ gdn d'" "i' < 2 ^ gdn d'"
    then have i: "i < 2 ^ ?g" and i': "i' < 2 ^ ?g" using g' by simp_all
    note si = s [rule_format, OF i] and si' = s [rule_format, OF i']
    show "(slot_pid d' i = slot_pid d' i') = (take_bit (slot_ld d' i) i = take_bit (slot_ld d' i) i')"
    proof (cases "slot_pid d i = p \<or> slot_pid d i = p'")
      case T: True
      then have ti: "take_bit m i = take_bit m bidx" using inS [OF i] by simp
      have e: "slot_pid d' i = sv" "slot_ld d' i = m" using si T by simp_all
      show ?thesis
      proof (cases "slot_pid d i' = p \<or> slot_pid d i' = p'")
        case True
        then have ti': "take_bit m i' = take_bit m bidx" using inS [OF i'] by simp
        have "slot_pid d' i' = sv" using si' True by simp
        with e ti ti' show ?thesis by simp
      next
        case False
        then have "slot_pid d' i' = slot_pid d i'" using si' by simp
        with False sv e have lhs: "slot_pid d' i \<noteq> slot_pid d' i'" by metis
        have "take_bit m i' \<noteq> take_bit m bidx" using inS [OF i'] False by simp
        with ti lhs e show ?thesis by simp
      qed
    next
      case F: False
      then have e: "slot_pid d' i = slot_pid d i" "slot_ld d' i = slot_ld d i" using si by simp_all
      show ?thesis
      proof (cases "slot_pid d i' = p \<or> slot_pid d i' = p'")
        case True
        then have "slot_pid d' i' = sv" using si' by simp
        with e F sv have lhs: "slot_pid d' i \<noteq> slot_pid d' i'" by metis
        have "slot_pid d i \<noteq> slot_pid d i'" using F True by metis
        then have "take_bit (slot_ld d i) i \<noteq> take_bit (slot_ld d i) i'"
          using old(2) [rule_format, OF i i'] by simp
        with lhs e show ?thesis by simp
      next
        case False
        then have "slot_pid d' i' = slot_pid d i'" using si' by simp
        with e old(2) [rule_format, OF i i'] show ?thesis by simp
      qed
    qed
  next
    fix i i' :: nat assume "i < 2 ^ gdn d'" "i' < 2 ^ gdn d'" and e: "slot_pid d' i = slot_pid d' i'"
    then have i: "i < 2 ^ ?g" and i': "i' < 2 ^ ?g" using g' by simp_all
    note si = s [rule_format, OF i] and si' = s [rule_format, OF i']
    show "slot_ld d' i = slot_ld d' i'"
    proof (cases "slot_pid d i = p \<or> slot_pid d i = p'")
      case T: True
      show ?thesis
      proof (cases "slot_pid d i' = p \<or> slot_pid d i' = p'")
        case True
        with T si si' show ?thesis by simp
      next
        case False
        then have "slot_pid d' i' = slot_pid d i'" using si' by simp
        moreover have "slot_pid d' i = sv" using si T by simp
        ultimately show ?thesis using e False sv by metis
      qed
    next
      case F: False
      then have e': "slot_pid d' i = slot_pid d i" "slot_ld d' i = slot_ld d i" using si by simp_all
      show ?thesis
      proof (cases "slot_pid d i' = p \<or> slot_pid d i' = p'")
        case True
        then have "slot_pid d' i' = sv" using si' by simp
        with e' F sv e show ?thesis by metis
      next
        case False
        then have "slot_pid d' i' = slot_pid d i'" "slot_ld d' i' = slot_ld d i'" using si' by simp_all
        with e e' old(3) [rule_format, OF i i'] show ?thesis by simp
      qed
    qed
  qed
qed

lemma map_slots_spec:
  assumes "gdn d < 32" "2 ^ gdn d \<le> length (bucket_page_ids d)" "2 ^ gdn d \<le> length (local_depths d)"
  shows "\<exists>d'. map_slots f d = Inr d' \<and> max_depth d' = max_depth d \<and> gdn d' = gdn d
           \<and> length (bucket_page_ids d') = length (bucket_page_ids d)
           \<and> length (local_depths d') = length (local_depths d)
           \<and> (\<forall>i<2 ^ gdn d.
                 bucket_page_ids d' ! i = fst (f i (bucket_page_ids d ! i, local_depths d ! i))
               \<and> local_depths d' ! i = snd (f i (bucket_page_ids d ! i, local_depths d ! i)))"
proof -
  have n: "unat (Size_directory d) = 2 ^ gdn d"
    using assms(1) by (simp add: unat_Size_directory gdn_def)
  show ?thesis
    using assms(2,3) by (simp add: map_slots_def n Let_def gdn_def nth_append)
qed

subsection \<open>Presence under changes inside one directory\<close>

lemma dir_at_unique:
  assumes "dir_at ht j dp d" "dir_at ht j dp2 d2"
  shows "dp2 = dp \<and> d2 = d"
  using assms by (auto simp: dir_at_def dest: header_of_unique)

lemma dir_frame:
  assumes ok: "table_ok ht" and da: "dir_at ht j dp d"
    and cfg: "same_config ht ht'"
    and frame: "\<forall>p. p \<noteq> dp \<longrightarrow> \<not> owns ht j p \<longrightarrow> p \<in> dom (store ht) \<longrightarrow> store ht' p = store ht p"
    and d': "store ht' dp = Some (DirectoryPage d')"
  shows "dir_at ht' j dp d'"
    and "\<And>j2 dp2 d2. j2 \<noteq> j \<Longrightarrow> dir_at ht j2 dp2 d2 \<Longrightarrow> dir_at ht' j2 dp2 d2"
    and "\<And>j2 dp2 d2 i. j2 \<noteq> j \<Longrightarrow> dir_at ht j2 dp2 d2 \<Longrightarrow> i < 2 ^ gdn d2 \<Longrightarrow>
            slot_pid d2 i \<noteq> INVALID_PAGE_ID \<Longrightarrow> store ht' (slot_pid d2 i) = store ht (slot_pid d2 i)"
proof -
  from table_ok_header [OF ok] obtain h where h: "header_of ht h"
    and hsep: "\<And>j j'. j < 2 ^ hdn ht \<Longrightarrow> j' < 2 ^ hdn ht \<Longrightarrow>
       directory_page_ids h ! j = directory_page_ids h ! j' \<Longrightarrow>
       directory_page_ids h ! j \<noteq> INVALID_PAGE_ID \<Longrightarrow> j = j'"
    by blast
  from da h have dj: "directory_page_ids h ! j = dp" "j < 2 ^ hdn ht" "dp \<noteq> INVALID_PAGE_ID"
    "store ht dp = Some (DirectoryPage d)"
    by (auto simp: dir_at_def dest: header_of_unique)
  have kind: "\<And>p. owns ht j p \<Longrightarrow> p \<noteq> dp \<and> p \<noteq> header_page_id ht"
  proof -
    fix p assume "owns ht j p"
    from owns_bucket [OF ok this] obtain b where "store ht p = Some (BucketPage b)" ..
    with dj(4) h show "p \<noteq> dp \<and> p \<noteq> header_page_id ht" by (auto simp: header_of_def)
  qed
  have hp: "store ht' (header_page_id ht) = store ht (header_page_id ht)"
  proof -
    have "header_page_id ht \<noteq> dp" using h dj(4) by (auto simp: header_of_def)
    moreover have "\<not> owns ht j (header_page_id ht)" using kind by blast
    moreover have "header_page_id ht \<in> dom (store ht)" using h by (auto simp: header_of_def)
    ultimately show ?thesis using frame by blast
  qed
  have h': "\<And>x. header_of ht' x = header_of ht x" using header_of_frame [OF cfg hp] .
  have hd: "hdn ht' = hdn ht" using cfg by (rule same_config_simps)
  show "dir_at ht' j dp d'"
    using h dj d' by (auto simp: dir_at_def h' hd)
  show "\<And>j2 dp2 d2. j2 \<noteq> j \<Longrightarrow> dir_at ht j2 dp2 d2 \<Longrightarrow> dir_at ht' j2 dp2 d2"
  proof -
    fix j2 dp2 d2 assume n: "j2 \<noteq> j" and a: "dir_at ht j2 dp2 d2"
    from a h have t: "directory_page_ids h ! j2 = dp2" "j2 < 2 ^ hdn ht" "dp2 \<noteq> INVALID_PAGE_ID"
      "store ht dp2 = Some (DirectoryPage d2)"
      by (auto simp: dir_at_def dest: header_of_unique)
    have ne: "dp2 \<noteq> dp" using hsep [of j2 j] dj n t by auto
    have "\<not> owns ht j dp2"
    proof
      assume "owns ht j dp2"
      from owns_bucket [OF ok this] t(4) show False by auto
    qed
    then have "store ht' dp2 = store ht dp2" using frame ne t(4) by blast
    with a show "dir_at ht' j2 dp2 d2" by (simp add: dir_at_def h' hd)
  qed
  show "\<And>j2 dp2 d2 i. j2 \<noteq> j \<Longrightarrow> dir_at ht j2 dp2 d2 \<Longrightarrow> i < 2 ^ gdn d2 \<Longrightarrow>
            slot_pid d2 i \<noteq> INVALID_PAGE_ID \<Longrightarrow> store ht' (slot_pid d2 i) = store ht (slot_pid d2 i)"
  proof -
    fix j2 dp2 d2 and i :: nat
    assume n: "j2 \<noteq> j" and a: "dir_at ht j2 dp2 d2" and i: "i < 2 ^ gdn d2" "slot_pid d2 i \<noteq> INVALID_PAGE_ID"
    have ow: "owns ht j2 (slot_pid d2 i)" using a i by (auto simp: owns_def)
    from owns_bucket [OF ok ow] obtain b where b: "store ht (slot_pid d2 i) = Some (BucketPage b)" ..
    have "\<not> owns ht j (slot_pid d2 i)"
      using ow ok n unfolding table_ok_def by blast
    moreover have "slot_pid d2 i \<noteq> dp" using b dj(4) by auto
    ultimately show "store ht' (slot_pid d2 i) = store ht (slot_pid d2 i)"
      using frame b by blast
  qed
qed

lemma dir_update_present:
  assumes ok: "table_ok ht" and da: "dir_at ht j dp d"
    and cfg: "same_config ht ht'"
    and frame: "\<forall>p. p \<noteq> dp \<longrightarrow> \<not> owns ht j p \<longrightarrow> p \<in> dom (store ht) \<longrightarrow> store ht' p = store ht p"
    and d': "store ht' dp = Some (DirectoryPage d')"
    and same: "\<And>b. dir_index ht k = j \<Longrightarrow> slot_pid d (bkt_index d ht k) \<noteq> INVALID_PAGE_ID \<Longrightarrow>
                 store ht (slot_pid d (bkt_index d ht k)) = Some (BucketPage b) \<Longrightarrow>
                 (k, v) \<in> set (entries b) \<Longrightarrow>
                 \<exists>b'. slot_pid d' (bkt_index d' ht k) \<noteq> INVALID_PAGE_ID
                    \<and> store ht' (slot_pid d' (bkt_index d' ht k)) = Some (BucketPage b')
                    \<and> (k, v) \<in> set (entries b')"
    and pr: "present ht k v"
  shows "present ht' k v"
proof -
  note fr = dir_frame [OF ok da cfg frame d']
  from pr obtain dp2 d2 b where p: "dir_at ht (dir_index ht k) dp2 d2"
    "slot_pid d2 (bkt_index d2 ht k) \<noteq> INVALID_PAGE_ID"
    "store ht (slot_pid d2 (bkt_index d2 ht k)) = Some (BucketPage b)"
    "(k, v) \<in> set (entries b)"
    unfolding present_def by blast
  have di: "dir_index ht' k = dir_index ht k" using cfg by (rule same_config_simps)
  have bi: "\<And>x. bkt_index x ht' k = bkt_index x ht k" using cfg by (rule same_config_simps)
  show ?thesis
  proof (cases "dir_index ht k = j")
    case True
    with p(1) da have e: "dp2 = dp" "d2 = d" using dir_at_unique by blast+
    from same [OF True] p(2,3,4) e obtain b' where
      b': "slot_pid d' (bkt_index d' ht k) \<noteq> INVALID_PAGE_ID"
          "store ht' (slot_pid d' (bkt_index d' ht k)) = Some (BucketPage b')"
          "(k, v) \<in> set (entries b')"
      by blast
    have "dir_at ht' (dir_index ht' k) dp d'" using fr(1) True di by simp
    with b' show ?thesis unfolding present_def bi by blast
  next
    case False
    have a: "dir_at ht' (dir_index ht' k) dp2 d2" using fr(2) [OF False p(1)] di by simp
    have "store ht' (slot_pid d2 (bkt_index d2 ht k)) = store ht (slot_pid d2 (bkt_index d2 ht k))"
      using fr(3) [OF False p(1) bkt_index_less p(2)] .
    with p a show ?thesis unfolding present_def bi by auto
  qed
qed

subsection \<open>Replacing a bucket page\<close>

lemma put_page_simps [simp]:
  "store (put_page ht p c) = (store ht)(p \<mapsto> c)"
  "next_page (put_page ht p c) = next_page ht"
  "same_config ht (put_page ht p c)"
  by (simp_all add: put_page_def same_config_def)

lemma bucket_ok_config:
  "same_config ht ht' \<Longrightarrow> bucket_ok ht' j ld i b = bucket_ok ht j ld i b"
  by (simp add: bucket_ok_def same_config_simps)

lemma table_ok_dir_ok:
  assumes "table_ok ht" "dir_at ht j dp d"
  shows "dir_ok (directory_array_size ht) (directory_max_depth ht) d" "buckets_ok ht j d"
  using assms unfolding table_ok_def by blast+

lemma buckets_ok_slot:
  assumes "buckets_ok ht j d" "i < 2 ^ gdn d" "slot_pid d i \<noteq> INVALID_PAGE_ID"
  shows "\<exists>b. store ht (slot_pid d i) = Some (BucketPage b) \<and> bucket_ok ht j (slot_ld d i) i b"
  using assms unfolding buckets_ok_def by blast

lemma buckets_ok_invalid:
  assumes "buckets_ok ht j d" "i < 2 ^ gdn d" "slot_pid d i = INVALID_PAGE_ID"
  shows "gdn d = 0"
  using assms unfolding buckets_ok_def by blast

lemma owns_slot:
  assumes "dir_at ht j dp d" "i < 2 ^ gdn d" "slot_pid d i \<noteq> INVALID_PAGE_ID"
  shows "owns ht j (slot_pid d i)"
  using assms unfolding owns_def by blast

lemma table_ok_dom: "table_ok ht \<Longrightarrow> p \<in> dom (store ht) \<Longrightarrow> p < next_page ht"
  unfolding table_ok_def by blast

lemma bucket_update:
  assumes ok: "table_ok ht" and da: "dir_at ht j dp d"
    and i0: "i0 < 2 ^ gdn d" and pid: "slot_pid d i0 = pid" "pid \<noteq> INVALID_PAGE_ID"
    and st: "store ht pid = Some (BucketPage b)"
    and b': "max_size b' = max_size b" "length (array b') = length (array b)"
            "bsize b' \<le> max_size b'" "sorted_wrt (<) (map fst (entries b'))"
    and ent: "\<forall>e\<in>set (entries b'). e \<in> set (entries b)
                \<or> (dir_index ht (fst e) = j \<and> take_bit (gdn d) (unat (Hash ht (fst e))) = i0)"
  shows "table_ok (put_page ht pid (BucketPage b'))"
proof -
  let ?ht' = "put_page ht pid (BucketPage b')"
  note dok = table_ok_dir_ok [OF ok da]
  note sl = dir_ok_slots [OF dok(1)]
  have own0: "owns ht j pid" using owns_slot [OF da i0] pid by simp
  have dpst: "store ht dp = Some (DirectoryPage d)" using da by (simp add: dir_at_def)
  have ne: "pid \<noteq> dp" using st dpst by auto
  show ?thesis
  proof (rule dir_update [OF ok da, where d' = d])
    show "same_config ht ?ht'" by simp
    show "\<forall>p\<in>dom (store ?ht'). p < next_page ?ht'"
      using table_ok_dom [OF ok] st by auto
    show "\<forall>p. p \<noteq> dp \<longrightarrow> \<not> owns ht j p \<longrightarrow> p \<in> dom (store ht) \<longrightarrow> store ?ht' p = store ht p"
      using own0 by auto
    show "store ?ht' dp = Some (DirectoryPage d)" using ne dpst by simp
    show "dir_ok (directory_array_size ht) (directory_max_depth ht) d" by fact
    show "\<forall>i<2 ^ gdn d. slot_pid d i \<noteq> INVALID_PAGE_ID \<longrightarrow>
            owns ht j (slot_pid d i) \<or> slot_pid d i \<notin> dom (store ht)"
      using owns_slot [OF da] by blast
    show "buckets_ok ?ht' j d"
      unfolding buckets_ok_def
    proof (intro conjI allI impI)
      assume "\<exists>i<2 ^ gdn d. slot_pid d i = INVALID_PAGE_ID"
      then show "gdn d = 0" using buckets_ok_invalid [OF dok(2)] by blast
    next
      fix i :: nat assume i: "i < 2 ^ gdn d" "slot_pid d i \<noteq> INVALID_PAGE_ID"
      from buckets_ok_slot [OF dok(2) i] obtain bi where
        bi: "store ht (slot_pid d i) = Some (BucketPage bi)" "bucket_ok ht j (slot_ld d i) i bi"
        by blast
      show "\<exists>b. store ?ht' (slot_pid d i) = Some (BucketPage b) \<and> bucket_ok ?ht' j (slot_ld d i) i b"
      proof (cases "slot_pid d i = pid")
        case False
        with bi show ?thesis by (simp add: bucket_ok_config [of ht ?ht'])
      next
        case True
        with bi st have e: "bi = b" by simp
        have ldle: "slot_ld d i \<le> gdn d" using sl(1) i by blast
        have al: "take_bit (slot_ld d i) i = take_bit (slot_ld d i) i0"
          using sl(2) [rule_format, OF i(1) i0] True pid by simp
        have "bucket_ok ht j (slot_ld d i) i b'"
          unfolding bucket_ok_def
        proof (intro conjI ballI)
          show "max_size b' = bucket_max_size ht" using bi(2) e b' by (simp add: bucket_ok_def)
          show "bsize b' \<le> max_size b'" by fact
          show "length (array b') = bucket_array_size ht" using bi(2) e b' by (simp add: bucket_ok_def)
          show "sorted_wrt (<) (map fst (entries b'))" by fact
        next
          fix x assume x: "x \<in> set (entries b')"
          from ent x have c: "x \<in> set (entries b)
                \<or> (dir_index ht (fst x) = j \<and> take_bit (gdn d) (unat (Hash ht (fst x))) = i0)"
            by blast
          from c show "dir_index ht (fst x) = j"
            using bi(2) e by (auto simp: bucket_ok_def)
          from c show "take_bit (slot_ld d i) (unat (Hash ht (fst x))) = take_bit (slot_ld d i) i"
          proof
            assume "x \<in> set (entries b)"
            then show ?thesis using bi(2) e by (auto simp: bucket_ok_def)
          next
            assume n: "dir_index ht (fst x) = j \<and> take_bit (gdn d) (unat (Hash ht (fst x))) = i0"
            have "take_bit (slot_ld d i) (take_bit (gdn d) (unat (Hash ht (fst x))))
                    = take_bit (slot_ld d i) (unat (Hash ht (fst x)))"
              using ldle by (simp add: min.absorb1)
            with n al show ?thesis by simp
          qed
        qed
        with True show ?thesis by (simp add: bucket_ok_config [of ht ?ht'])
      qed
    qed
  qed
qed

lemma bucket_update_present:
  assumes ok: "table_ok ht" and da: "dir_at ht j dp d"
    and i0: "i0 < 2 ^ gdn d" and pid: "slot_pid d i0 = pid" "pid \<noteq> INVALID_PAGE_ID"
    and st: "store ht pid = Some (BucketPage b)"
    and keep: "(k, v) \<in> set (entries b) \<Longrightarrow> (k, v) \<in> set (entries b')"
    and pr: "present ht k v"
  shows "present (put_page ht pid (BucketPage b')) k v"
proof -
  let ?ht' = "put_page ht pid (BucketPage b')"
  have own0: "owns ht j pid" using owns_slot [OF da i0] pid by simp
  have dpst: "store ht dp = Some (DirectoryPage d)" using da by (simp add: dir_at_def)
  have ne: "pid \<noteq> dp" using st dpst by auto
  show ?thesis
  proof (rule dir_update_present [OF ok da _ _ _ _ pr, where d' = d])
    show "same_config ht ?ht'" by simp
    show "\<forall>p. p \<noteq> dp \<longrightarrow> \<not> owns ht j p \<longrightarrow> p \<in> dom (store ht) \<longrightarrow> store ?ht' p = store ht p"
      using own0 by auto
    show "store ?ht' dp = Some (DirectoryPage d)" using ne dpst by simp
  next
    fix bk
    assume a: "slot_pid d (bkt_index d ht k) \<noteq> INVALID_PAGE_ID"
      "store ht (slot_pid d (bkt_index d ht k)) = Some (BucketPage bk)"
      "(k, v) \<in> set (entries bk)"
    show "\<exists>b'a. slot_pid d (bkt_index d ht k) \<noteq> INVALID_PAGE_ID
             \<and> store ?ht' (slot_pid d (bkt_index d ht k)) = Some (BucketPage b'a)
             \<and> (k, v) \<in> set (entries b'a)"
    proof (cases "slot_pid d (bkt_index d ht k) = pid")
      case True
      with a st have "bk = b" by simp
      with a keep True show ?thesis by simp
    next
      case False
      with a show ?thesis by simp
    qed
  qed
qed

subsection \<open>Insertion into a bucket that has room\<close>

lemma step_ok_refl: "table_ok ht \<Longrightarrow> step_ok ht ht"
  by (simp add: step_ok_def)

lemma step_ok_trans: "step_ok a b \<Longrightarrow> step_ok b c \<Longrightarrow> step_ok a c"
  by (simp add: step_ok_def)

lemma slot_bucket:
  assumes ok: "table_ok ht" and da: "dir_at ht j dp d"
    and i0: "i0 < 2 ^ gdn d" and pid: "slot_pid d i0 = pid" "pid \<noteq> INVALID_PAGE_ID"
    and st: "store ht pid = Some (BucketPage b)"
  shows "bucket_ok ht j (slot_ld d i0) i0 b"
proof -
  from buckets_ok_slot [OF table_ok_dir_ok(2) [OF ok da] i0] pid
  obtain b0 where "store ht pid = Some (BucketPage b0)" "bucket_ok ht j (slot_ld d i0) i0 b0" by auto
  with st show ?thesis by simp
qed

lemma bucket_ok_wf:
  assumes "config_ok ht" "bucket_ok ht j ld i b"
  shows "bucket_wf b" "bsize b \<le> length (array b)"
  using assms by (auto simp: bucket_wf_def bucket_ok_def config_ok_def)

lemma insert_nonfull:
  assumes ok: "table_ok ht" and da: "dir_at ht j dp d"
    and j: "dir_index ht k' = j" and i0: "bkt_index d ht k' = i0"
    and pid: "slot_pid d i0 = pid" "pid \<noteq> INVALID_PAGE_ID"
    and st: "store ht pid = Some (BucketPage b)"
    and ins: "Insert_bucket b k' v' = Inr (r, b')"
  shows "step_ok ht (put_page ht pid (BucketPage b'))"
    and "r \<Longrightarrow> present (put_page ht pid (BucketPage b')) k' v'"
proof -
  let ?ht' = "put_page ht pid (BucketPage b')"
  have il: "i0 < 2 ^ gdn d" using i0 bkt_index_less [of d ht k'] by simp
  note bo = slot_bucket [OF ok da il pid st]
  have cf: "config_ok ht" using ok by (simp add: table_ok_def)
  note wf = bucket_ok_wf [OF cf bo]
  have facts: "max_size b' = max_size b \<and> length (array b') = length (array b)
               \<and> bsize b' \<le> max_size b' \<and> sorted_wrt (<) (map fst (entries b'))
               \<and> set (entries b) \<subseteq> set (entries b')
               \<and> set (entries b') \<subseteq> insert (k', v') (set (entries b))
               \<and> (r \<longrightarrow> (k', v') \<in> set (entries b'))"
  proof (cases r)
    case False
    with ins have "b' = b" by (simp add: Insert_bucket_False)
    with bo False show ?thesis by (auto simp: bucket_ok_def)
  next
    case True
    with ins have "Insert_bucket b k' v' = Inr (True, b')" by simp
    from Insert_bucket_True [OF wf(1) this] True show ?thesis by auto
  qed
  have t: "table_ok ?ht'"
  proof (rule bucket_update [OF ok da il pid st])
    show "max_size b' = max_size b" "length (array b') = length (array b)"
      "bsize b' \<le> max_size b'" "sorted_wrt (<) (map fst (entries b'))"
      using facts by simp_all
    show "\<forall>e\<in>set (entries b'). e \<in> set (entries b)
            \<or> (dir_index ht (fst e) = j \<and> take_bit (gdn d) (unat (Hash ht (fst e))) = i0)"
    proof
      fix e assume "e \<in> set (entries b')"
      with facts have "e = (k', v') \<or> e \<in> set (entries b)" by auto
      then show "e \<in> set (entries b)
            \<or> (dir_index ht (fst e) = j \<and> take_bit (gdn d) (unat (Hash ht (fst e))) = i0)"
        using j i0 by (auto simp: bkt_index_def)
    qed
  qed
  have p: "\<And>k v. present ht k v \<Longrightarrow> present ?ht' k v"
  proof -
    fix k v assume pr: "present ht k v"
    show "present ?ht' k v"
      by (rule bucket_update_present [OF ok da il pid st _ pr]) (use facts in auto)
  qed
  from t p show "step_ok ht ?ht'" by (simp add: step_ok_def)
  show "r \<Longrightarrow> present ?ht' k' v'"
  proof -
    assume r
    have own0: "owns ht j pid" using owns_slot [OF da il] pid by simp
    have dpst: "store ht dp = Some (DirectoryPage d)" using da by (simp add: dir_at_def)
    have ne: "pid \<noteq> dp" using st dpst by auto
    have "dir_at ?ht' j dp d"
    proof (rule dir_frame(1) [OF ok da])
      show "same_config ht ?ht'" by simp
      show "\<forall>p. p \<noteq> dp \<longrightarrow> \<not> owns ht j p \<longrightarrow> p \<in> dom (store ht) \<longrightarrow> store ?ht' p = store ht p"
        using own0 by auto
      show "store ?ht' dp = Some (DirectoryPage d)" using ne dpst by simp
    qed
    moreover have "dir_index ?ht' k' = j" "bkt_index d ?ht' k' = i0"
      using j i0 same_config_simps [of ht ?ht'] by simp_all
    moreover have "store ?ht' pid = Some (BucketPage b')" by simp
    moreover have "(k', v') \<in> set (entries b')" using facts \<open>r\<close> by simp
    ultimately show "present ?ht' k' v'"
      unfolding present_def using pid by auto
  qed
qed

subsection \<open>Replacing the directory page\<close>

lemma word_less_succ:
  assumes "(n :: page_id_t) \<noteq> INVALID_PAGE_ID" "p < n \<or> p = n"
  shows "p < n + 1"
proof -
  have "unat n \<noteq> unat (- 1 :: page_id_t)"
    using assms(1) unsigned_word_eqI [of n "- 1"] by (auto simp: INVALID_PAGE_ID_def)
  moreover have "unat (- 1 :: page_id_t) = 4294967295"
    by (simp add: unsigned_minus_1_eq_mask mask_eq_exp_minus_1)
  moreover have "unat n < 2 ^ 32" using unsigned_less [of n] by simp
  ultimately have "unat n + unat (1 :: page_id_t) < 2 ^ LENGTH(32)" by simp
  then have "unat (n + 1) = unat n + unat (1 :: page_id_t)" by (simp only: unat_add_lem)
  then have "unat (n + 1) = Suc (unat n)" by simp
  moreover have "unat p \<le> unat n" using assms(2) by (auto simp: word_less_nat_alt)
  ultimately show ?thesis by (simp add: word_less_nat_alt)
qed

lemma dir_only_update:
  assumes ok: "table_ok ht" and da: "dir_at ht j dp d"
    and dok: "dir_ok (directory_array_size ht) (directory_max_depth ht) d'"
    and slots: "\<forall>i<2 ^ gdn d'. \<exists>i0<2 ^ gdn d. slot_pid d' i = slot_pid d i0
                  \<and> slot_ld d' i \<le> slot_ld d i0
                  \<and> take_bit (slot_ld d' i) i = take_bit (slot_ld d' i) i0"
    and inv: "(\<exists>i<2 ^ gdn d'. slot_pid d' i = INVALID_PAGE_ID) \<longrightarrow> gdn d' = 0"
    and pres: "\<forall>h. slot_pid d' (take_bit (gdn d') h) = slot_pid d (take_bit (gdn d) h)"
  shows "step_ok ht (put_page ht dp (DirectoryPage d'))"
    and "dir_at (put_page ht dp (DirectoryPage d')) j dp d'"
proof -
  let ?ht' = "put_page ht dp (DirectoryPage d')"
  have dpst: "store ht dp = Some (DirectoryPage d)" using da by (simp add: dir_at_def)
  have cfg: "same_config ht ?ht'" by simp
  have frame: "\<forall>p. p \<noteq> dp \<longrightarrow> \<not> owns ht j p \<longrightarrow> p \<in> dom (store ht) \<longrightarrow> store ?ht' p = store ht p"
    by simp
  have st': "store ?ht' dp = Some (DirectoryPage d')" by simp
  note old = table_ok_dir_ok [OF ok da]
  have t: "table_ok ?ht'"
  proof (rule dir_update [OF ok da cfg _ frame st' dok])
    show "\<forall>p\<in>dom (store ?ht'). p < next_page ?ht'"
      using table_ok_dom [OF ok] dpst by auto
    show "\<forall>i<2 ^ gdn d'. slot_pid d' i \<noteq> INVALID_PAGE_ID \<longrightarrow>
            owns ht j (slot_pid d' i) \<or> slot_pid d' i \<notin> dom (store ht)"
    proof (intro allI impI)
      fix i :: nat assume i: "i < 2 ^ gdn d'" "slot_pid d' i \<noteq> INVALID_PAGE_ID"
      from slots i(1) obtain i0 where "i0 < 2 ^ gdn d" "slot_pid d' i = slot_pid d i0" by blast
      with i(2) owns_slot [OF da, of i0]
      show "owns ht j (slot_pid d' i) \<or> slot_pid d' i \<notin> dom (store ht)" by simp
    qed
    show "buckets_ok ?ht' j d'"
      unfolding buckets_ok_def
    proof (intro conjI allI impI)
      assume "\<exists>i<2 ^ gdn d'. slot_pid d' i = INVALID_PAGE_ID"
      with inv show "gdn d' = 0" by blast
    next
      fix i :: nat assume i: "i < 2 ^ gdn d'" "slot_pid d' i \<noteq> INVALID_PAGE_ID"
      from slots i(1) obtain i0 where i0: "i0 < 2 ^ gdn d" "slot_pid d' i = slot_pid d i0"
        "slot_ld d' i \<le> slot_ld d i0" "take_bit (slot_ld d' i) i = take_bit (slot_ld d' i) i0"
        by blast
      from buckets_ok_slot [OF old(2) i0(1)] i(2) i0(2) obtain b where
        b: "store ht (slot_pid d i0) = Some (BucketPage b)" "bucket_ok ht j (slot_ld d i0) i0 b"
        by auto
      have ne: "slot_pid d i0 \<noteq> dp" using b(1) dpst by auto
      have "bucket_ok ht j (slot_ld d' i) i b"
        unfolding bucket_ok_def
      proof (intro conjI ballI)
        show "max_size b = bucket_max_size ht" "bsize b \<le> max_size b"
          "length (array b) = bucket_array_size ht" "sorted_wrt (<) (map fst (entries b))"
          using b(2) by (simp_all add: bucket_ok_def)
      next
        fix e assume e: "e \<in> set (entries b)"
        with b(2) have f: "dir_index ht (fst e) = j"
          "take_bit (slot_ld d i0) (unat (Hash ht (fst e))) = take_bit (slot_ld d i0) i0"
          by (auto simp: bucket_ok_def)
        show "dir_index ht (fst e) = j" by fact
        have "take_bit (slot_ld d' i) (unat (Hash ht (fst e))) = take_bit (slot_ld d' i) i0"
          using f(2) i0(3) by (rule take_bit_eq_mono)
        with i0(4) show "take_bit (slot_ld d' i) (unat (Hash ht (fst e))) = take_bit (slot_ld d' i) i"
          by simp
      qed
      with b(1) ne i0(2)
      show "\<exists>b. store ?ht' (slot_pid d' i) = Some (BucketPage b) \<and> bucket_ok ?ht' j (slot_ld d' i) i b"
        by (simp add: bucket_ok_config [of ht ?ht'])
    qed
  qed
  have p: "\<And>k v. present ht k v \<Longrightarrow> present ?ht' k v"
  proof -
    fix k v assume pr: "present ht k v"
    show "present ?ht' k v"
    proof (rule dir_update_present [OF ok da cfg frame st' _ pr])
      fix b
      assume a: "slot_pid d (bkt_index d ht k) \<noteq> INVALID_PAGE_ID"
        "store ht (slot_pid d (bkt_index d ht k)) = Some (BucketPage b)"
        "(k, v) \<in> set (entries b)"
      have e: "slot_pid d' (bkt_index d' ht k) = slot_pid d (bkt_index d ht k)"
        using pres by (simp add: bkt_index_def)
      have "slot_pid d (bkt_index d ht k) \<noteq> dp" using a(2) dpst by auto
      with a e show "\<exists>b'. slot_pid d' (bkt_index d' ht k) \<noteq> INVALID_PAGE_ID
                 \<and> store ?ht' (slot_pid d' (bkt_index d' ht k)) = Some (BucketPage b')
                 \<and> (k, v) \<in> set (entries b')"
        by simp
    qed
  qed
  from t p show "step_ok ht ?ht'" by (simp add: step_ok_def)
  show "dir_at ?ht' j dp d'" by (rule dir_frame(1) [OF ok da cfg frame st'])
qed

lemma no_invalid_slot:
  assumes "buckets_ok ht j d" "i0 < 2 ^ gdn d" "slot_pid d i0 \<noteq> INVALID_PAGE_ID" "i < 2 ^ gdn d"
  shows "slot_pid d i \<noteq> INVALID_PAGE_ID"
proof
  assume "slot_pid d i = INVALID_PAGE_ID"
  from buckets_ok_invalid [OF assms(1,4) this] have "gdn d = 0" .
  with assms(2,4) have "i0 = i" by simp
  with assms(3) \<open>slot_pid d i = INVALID_PAGE_ID\<close> show False by simp
qed

lemma grow_step:
  assumes ok: "table_ok ht" and da: "dir_at ht j dp d"
    and i0: "i0 < 2 ^ gdn d" "slot_pid d i0 \<noteq> INVALID_PAGE_ID"
    and lt: "gdn d < unat (directory_max_depth ht)"
  shows "\<exists>dg. IncrGlobalDepth d = Some dg
           \<and> step_ok ht (put_page ht dp (DirectoryPage dg))
           \<and> dir_at (put_page ht dp (DirectoryPage dg)) j dp dg
           \<and> gdn dg = gdn d + 1
           \<and> (\<forall>i<2 ^ (gdn d + 1). slot_pid dg i = slot_pid d (take_bit (gdn d) i)
                  \<and> slot_ld dg i = slot_ld d (take_bit (gdn d) i))"
proof -
  note old = table_ok_dir_ok [OF ok da]
  from IncrGlobalDepth_spec [OF old(1) lt] obtain dg where
    dg: "IncrGlobalDepth d = Some dg" "dir_ok (directory_array_size ht) (directory_max_depth ht) dg"
        "gdn dg = gdn d + 1"
        "\<forall>i<2 ^ (gdn d + 1). slot_pid dg i = slot_pid d (take_bit (gdn d) i)
                  \<and> slot_ld dg i = slot_ld d (take_bit (gdn d) i)"
    by blast
  have tb: "\<And>i::nat. take_bit (gdn d) i < 2 ^ gdn d" by simp
  have a: "\<forall>i<2 ^ gdn dg. \<exists>i0<2 ^ gdn d. slot_pid dg i = slot_pid d i0
                  \<and> slot_ld dg i \<le> slot_ld d i0
                  \<and> take_bit (slot_ld dg i) i = take_bit (slot_ld dg i) i0"
  proof (intro allI impI)
    fix i :: nat assume "i < 2 ^ gdn dg"
    then have i: "i < 2 ^ (gdn d + 1)" using dg(3) by simp
    note s = dg(4) [rule_format, OF i]
    have "slot_ld d (take_bit (gdn d) i) \<le> gdn d"
      using dir_ok_slots(1) [OF old(1), rule_format, OF tb] .
    then have "take_bit (slot_ld d (take_bit (gdn d) i)) (take_bit (gdn d) i)
                 = take_bit (slot_ld d (take_bit (gdn d) i)) i"
      by (simp add: min.absorb1)
    with s tb [of i] show "\<exists>i0<2 ^ gdn d. slot_pid dg i = slot_pid d i0
                  \<and> slot_ld dg i \<le> slot_ld d i0
                  \<and> take_bit (slot_ld dg i) i = take_bit (slot_ld dg i) i0"
      by (intro exI [of _ "take_bit (gdn d) i"]) simp
  qed
  have b: "(\<exists>i<2 ^ gdn dg. slot_pid dg i = INVALID_PAGE_ID) \<longrightarrow> gdn dg = 0"
  proof
    assume "\<exists>i<2 ^ gdn dg. slot_pid dg i = INVALID_PAGE_ID"
    then obtain i where i: "i < 2 ^ (gdn d + 1)" "slot_pid dg i = INVALID_PAGE_ID"
      using dg(3) by auto
    with dg(4) have "slot_pid d (take_bit (gdn d) i) = INVALID_PAGE_ID" by simp
    with no_invalid_slot [OF old(2) i0 tb] show "gdn dg = 0" by simp
  qed
  have c: "\<forall>h. slot_pid dg (take_bit (gdn dg) h) = slot_pid d (take_bit (gdn d) h)"
  proof
    fix h :: nat
    have "take_bit (gdn d + 1) h < 2 ^ (gdn d + 1)" by (rule take_bit_nat_less_exp)
    from dg(4) [rule_format, OF this]
    have "slot_pid dg (take_bit (gdn d + 1) h) = slot_pid d (take_bit (gdn d) (take_bit (gdn d + 1) h))"
      by simp
    also have "take_bit (gdn d) (take_bit (gdn d + 1) h) = take_bit (gdn d) h"
      by (simp add: min.absorb1)
    finally show "slot_pid dg (take_bit (gdn dg) h) = slot_pid d (take_bit (gdn d) h)"
      using dg(3) by simp
  qed
  from dir_only_update [OF ok da dg(2) a b c] dg show ?thesis by blast
qed

subsection \<open>Directory page: the calls of a split\<close>

lemma unat_ucast_8_32: "unat (ucast (x :: uint8_t) :: uint32_t) = unat x"
proof -
  have "unat x < 2 ^ 8" using unsigned_less [of x] by simp
  then have "unat x < 2 ^ 32" by simp
  then show ?thesis by (simp add: unsigned_ucast_eq take_bit_nat_eq_self)
qed

lemma unat_ucast_32_8: "unat (y :: uint32_t) < 256 \<Longrightarrow> unat (ucast y :: uint8_t) = unat y"
  by (simp add: unsigned_ucast_eq take_bit_nat_eq_self)

lemma unat_succ_8: "unat (x :: uint8_t) < 255 \<Longrightarrow> unat (x + 1) = Suc (unat x)"
proof -
  assume "unat x < 255"
  then have "unat x + unat (1 :: uint8_t) < 2 ^ LENGTH(8)" by simp
  then have "unat (x + 1) = unat x + unat (1 :: uint8_t)" by (simp only: unat_add_lem)
  then show ?thesis by simp
qed

lemma split_dir_run:
  assumes ok: "dir_ok das dmd d" and bl: "unat bidx < 2 ^ gdn d"
    and l: "slot_ld d (unat bidx) < gdn d"
  shows "\<exists>d1 ld d'. IncrLocalDepth d bidx = Inr d1
           \<and> GetBucketPageId d1 bidx = Inr (slot_pid d (unat bidx))
           \<and> GetLocalDepth d1 bidx = Inr ld \<and> unat ld = Suc (slot_ld d (unat bidx))
           \<and> map_slots (split_slot (slot_pid d (unat bidx)) q bidx ld) d1 = Inr d'
           \<and> gdn d' = gdn d \<and> max_depth d' = max_depth d
           \<and> length (bucket_page_ids d') = length (bucket_page_ids d)
           \<and> length (local_depths d') = length (local_depths d)
           \<and> (\<forall>i<2 ^ gdn d.
                slot_pid d' i = (if slot_pid d i = slot_pid d (unat bidx)
                                 then if take_bit (Suc (slot_ld d (unat bidx))) i
                                           = take_bit (Suc (slot_ld d (unat bidx))) (unat bidx)
                                      then slot_pid d (unat bidx) else q
                                 else slot_pid d i)
              \<and> slot_ld d' i = (if slot_pid d i = slot_pid d (unat bidx)
                                then Suc (slot_ld d (unat bidx)) else slot_ld d i))"
proof -
  let ?bi = "unat bidx"
  let ?l = "slot_ld d ?bi"
  let ?p = "slot_pid d ?bi"
  from dir_ok_bounds [OF ok] have bd: "gdn d < 32" "gdn d \<le> unat dmd" "unat dmd \<le> 31"
    "2 ^ gdn d \<le> length (bucket_page_ids d)" "2 ^ gdn d \<le> length (local_depths d)"
    "max_depth d = dmd"
    by simp_all
  have g32: "unat (global_depth d) < 32" using bd(1) by (simp add: gdn_def)
  have sz: "bidx < Size_directory d" using bl g32 by (simp add: less_Size_directory gdn_def)
  have inl: "?bi < length (local_depths d)" "?bi < length (bucket_page_ids d)"
    using bl bd by simp_all
  have l31: "?l < 31" using l bd by simp
  have nmax: "\<not> (ucast (local_depths d ! ?bi) :: uint32_t) \<ge> max_depth d"
    using l bd by (simp add: word_le_nat_alt unat_ucast_8_32 slot_ld_def)
  define d1 where "d1 = d\<lparr>local_depths := (local_depths d)[?bi := local_depths d ! ?bi + 1]\<rparr>"
  have inc: "IncrLocalDepth d bidx = Inr d1"
    using sz inl nmax by (simp add: IncrLocalDepth_def d1_def)
  have g1: "gdn d1 = gdn d" "global_depth d1 = global_depth d" "max_depth d1 = max_depth d"
    "bucket_page_ids d1 = bucket_page_ids d"
    "length (local_depths d1) = length (local_depths d)"
    by (simp_all add: d1_def gdn_def)
  have sz1: "bidx < Size_directory d1" using sz by (simp add: Size_directory_def g1)
  have gb: "GetBucketPageId d1 bidx = Inr ?p"
    using sz1 inl by (simp add: GetBucketPageId_def g1 slot_pid_def)
  define ld where "ld = (ucast (local_depths d ! ?bi + 1) :: uint32_t)"
  have gl: "GetLocalDepth d1 bidx = Inr ld"
    using sz1 inl by (simp add: GetLocalDepth_def ld_def d1_def)
  have u8: "unat (local_depths d ! ?bi + 1) = Suc ?l"
    using l31 by (simp add: unat_succ_8 slot_ld_def)
  have uld: "unat ld = Suc ?l" by (simp add: ld_def unat_ucast_8_32 u8)
  have bk8: "unat (ucast ld :: uint8_t) = Suc ?l"
    using uld l31 by (simp add: unat_ucast_32_8)
  have pre: "gdn d1 < 32" "2 ^ gdn d1 \<le> length (bucket_page_ids d1)"
    "2 ^ gdn d1 \<le> length (local_depths d1)"
    using bd g1 by simp_all
  from map_slots_spec [OF pre, of "split_slot ?p q bidx ld"] obtain d' where
    m: "map_slots (split_slot ?p q bidx ld) d1 = Inr d'"
       "max_depth d' = max_depth d1" "gdn d' = gdn d1"
       "length (bucket_page_ids d') = length (bucket_page_ids d1)"
       "length (local_depths d') = length (local_depths d1)"
       "\<forall>i<2 ^ gdn d1.
           bucket_page_ids d' ! i = fst (split_slot ?p q bidx ld i (bucket_page_ids d1 ! i, local_depths d1 ! i))
         \<and> local_depths d' ! i = snd (split_slot ?p q bidx ld i (bucket_page_ids d1 ! i, local_depths d1 ! i))"
    by blast
  have s: "\<forall>i<2 ^ gdn d.
                slot_pid d' i = (if slot_pid d i = ?p
                                 then if take_bit (Suc ?l) i = take_bit (Suc ?l) ?bi then ?p else q
                                 else slot_pid d i)
              \<and> slot_ld d' i = (if slot_pid d i = ?p then Suc ?l else slot_ld d i)"
  proof (intro allI impI)
    fix i :: nat assume i: "i < 2 ^ gdn d"
    then have i1: "i < 2 ^ gdn d1" using g1 by simp
    note mi = m(6) [rule_format, OF i1]
    show "slot_pid d' i = (if slot_pid d i = ?p
                                 then if take_bit (Suc ?l) i = take_bit (Suc ?l) ?bi then ?p else q
                                 else slot_pid d i)
              \<and> slot_ld d' i = (if slot_pid d i = ?p then Suc ?l else slot_ld d i)"
    proof (cases "slot_pid d i = ?p")
      case True
      then have "bucket_page_ids d ! i = ?p" by (simp add: slot_pid_def)
      with mi bk8 show ?thesis
        by (simp add: split_slot_def g1 slot_pid_def slot_ld_def uld take_bit_eq_mod)
    next
      case False
      then have ne: "i \<noteq> ?bi" by auto
      from False have "bucket_page_ids d ! i \<noteq> bucket_page_ids d ! ?bi" by (simp add: slot_pid_def)
      with mi ne show ?thesis
        by (simp add: split_slot_def g1 slot_pid_def slot_ld_def d1_def)
    qed
  qed
  from inc gb gl uld m g1 s show ?thesis by simp
qed

subsection \<open>Bucket page: redistribution of the entries\<close>

lemma take_bit_other_class:
  assumes "take_bit n (a::nat) = take_bit n c" "take_bit n (b::nat) = take_bit n c"
    "take_bit (Suc n) a \<noteq> take_bit (Suc n) c" "take_bit (Suc n) b \<noteq> take_bit (Suc n) c"
  shows "take_bit (Suc n) a = take_bit (Suc n) b"
proof -
  from take_bit_two_classes [OF assms(1)] assms(3)
  have "take_bit (Suc n) a = take_bit (Suc n) (c XOR 2 ^ n)" by simp
  moreover from take_bit_two_classes [OF assms(2)] assms(4)
  have "take_bit (Suc n) b = take_bit (Suc n) (c XOR 2 ^ n)" by simp
  ultimately show ?thesis by simp
qed

lemma refill_simps:
  "entries (refill xs b) = xs" "max_size (refill xs b) = max_size b" "bsize (refill xs b) = length xs"
  "length xs \<le> length (array b) \<Longrightarrow> length (array (refill xs b)) = length (array b)"
  by (simp_all add: refill_def entries_def)

lemma sorted_keys_filter:
  "sorted_wrt (<) (map fst xs) \<Longrightarrow> sorted_wrt (<) (map fst (filter P xs))"
  by (induction xs) auto

lemma bucket_ok_refill:
  assumes cf: "config_ok ht" and bo: "bucket_ok ht j l i0 b"
    and nb: "max_size nb = bucket_max_size ht" "length (array nb) = bucket_array_size ht"
    and sel: "\<forall>e\<in>set (entries b). P e \<longrightarrow> take_bit l' (unat (Hash ht (fst e))) = take_bit l' i"
  shows "bucket_ok ht j l' i (refill (filter P (entries b)) nb)"
proof -
  from bo have f: "max_size b = bucket_max_size ht" "bsize b \<le> max_size b"
    "length (array b) = bucket_array_size ht" "sorted_wrt (<) (map fst (entries b))"
    "\<forall>e\<in>set (entries b). dir_index ht (fst e) = j"
    by (simp_all add: bucket_ok_def)
  have "length (entries b) \<le> bsize b" by (simp add: entries_def)
  then have len: "length (filter P (entries b)) \<le> bsize b"
    using length_filter_le [of P "entries b"] by linarith
  from cf have "bucket_max_size ht \<le> bucket_array_size ht" by (simp add: config_ok_def)
  with len f nb have len2: "length (filter P (entries b)) \<le> length (array nb)"
    "length (filter P (entries b)) \<le> max_size nb"
    by simp_all
  show ?thesis
    unfolding bucket_ok_def
  proof (intro conjI ballI)
    show "max_size (refill (filter P (entries b)) nb) = bucket_max_size ht"
      using nb by (simp add: refill_simps)
    show "bsize (refill (filter P (entries b)) nb) \<le> max_size (refill (filter P (entries b)) nb)"
      using len2 by (simp add: refill_simps)
    show "length (array (refill (filter P (entries b)) nb)) = bucket_array_size ht"
      using len2 nb by (simp add: refill_simps)
    show "sorted_wrt (<) (map fst (entries (refill (filter P (entries b)) nb)))"
      using f(4) by (simp add: refill_simps sorted_keys_filter)
  next
    fix e assume "e \<in> set (entries (refill (filter P (entries b)) nb))"
    then have e: "e \<in> set (entries b)" "P e" by (simp_all add: refill_simps)
    show "dir_index ht (fst e) = j" using f(5) e by blast
    show "take_bit l' (unat (Hash ht (fst e))) = take_bit l' i" using sel e by blast
  qed
qed

subsection \<open>The split\<close>

lemma next_page_fresh: "table_ok ht \<Longrightarrow> next_page ht \<notin> dom (store ht)"
  using table_ok_dom [of ht "next_page ht"] by auto

lemma split_table:
  fixes bi :: nat
  assumes ok: "table_ok ht" and da: "dir_at ht j dp d"
    and bl: "bi < 2 ^ gdn d" and pv: "slot_pid d bi = p" "p \<noteq> INVALID_PAGE_ID"
    and l: "slot_ld d bi < gdn d"
    and st: "store ht p = Some (BucketPage b)"
    and q: "q = next_page ht" "q \<noteq> INVALID_PAGE_ID"
    and g': "gdn d' = gdn d" "max_depth d' = max_depth d"
            "length (bucket_page_ids d') = length (bucket_page_ids d)"
            "length (local_depths d') = length (local_depths d)"
    and s: "\<forall>i<2 ^ gdn d.
              slot_pid d' i = (if slot_pid d i = p
                               then if take_bit (Suc (slot_ld d bi)) i = take_bit (Suc (slot_ld d bi)) bi
                                    then p else q
                               else slot_pid d i)
              \<and> slot_ld d' i = (if slot_pid d i = p then Suc (slot_ld d bi) else slot_ld d i)"
    and nb: "max_size nb = bucket_max_size ht" "length (array nb) = bucket_array_size ht"
    and stay: "\<forall>e. stay e = (take_bit (Suc (slot_ld d bi)) (unat (Hash ht (fst e)))
                                 = take_bit (Suc (slot_ld d bi)) bi)"
    and st': "store ht' = (store ht)(p \<mapsto> BucketPage (refill (filter stay (entries b)) b),
                                   q \<mapsto> BucketPage (refill (filter (\<lambda>e. \<not> stay e) (entries b)) nb),
                                   dp \<mapsto> DirectoryPage d')"
    and np: "next_page ht' = q + 1" and cfg: "same_config ht ht'"
  shows "step_ok ht ht'"
proof -
  let ?g = "gdn d"
  let ?l = "slot_ld d bi"
  note old = table_ok_dir_ok [OF ok da]
  note bo = slot_bucket [OF ok da bl pv st]
  have cf: "config_ok ht" using ok by (simp add: table_ok_def)
  have stayD: "\<And>e. stay e = (take_bit (Suc ?l) (unat (Hash ht (fst e))) = take_bit (Suc ?l) bi)"
    using stay by blast
  have dpst: "store ht dp = Some (DirectoryPage d)" using da by (simp add: dir_at_def)
  have qf: "q \<notin> dom (store ht)" using next_page_fresh [OF ok] q by simp
  have pdp: "p \<noteq> dp" using st dpst by auto
  have qdp: "q \<noteq> dp" using qf dpst by auto
  have pq: "p \<noteq> q" using qf st by auto
  have valid: "\<And>i. i < 2 ^ ?g \<Longrightarrow> slot_pid d i \<noteq> INVALID_PAGE_ID"
    using no_invalid_slot [OF old(2) bl] pv by simp
  have slotb: "\<And>i. i < 2 ^ ?g \<Longrightarrow>
                 \<exists>bx. store ht (slot_pid d i) = Some (BucketPage bx) \<and> bucket_ok ht j (slot_ld d i) i bx"
    using buckets_ok_slot [OF old(2)] valid by blast
  have qs: "\<forall>i<2 ^ ?g. slot_pid d i \<noteq> q"
  proof (intro allI impI)
    fix i :: nat assume "i < 2 ^ ?g"
    from slotb [OF this] have "slot_pid d i \<in> dom (store ht)" by auto
    with qf show "slot_pid d i \<noteq> q" by auto
  qed
  have dok': "dir_ok (directory_array_size ht) (directory_max_depth ht) d'"
    using split_dir_ok [OF old(1) bl l pv(1) [symmetric] qs g' s] .
  have inS: "\<And>i. i < 2 ^ ?g \<Longrightarrow> (slot_pid d i = p) = (take_bit ?l i = take_bit ?l bi)"
    using dir_ok_same_bucket [OF old(1) bl] pv by simp
  have stp: "store ht' p = Some (BucketPage (refill (filter stay (entries b)) b))"
    using st' pq pdp by simp
  have stq: "store ht' q = Some (BucketPage (refill (filter (\<lambda>e. \<not> stay e) (entries b)) nb))"
    using st' qdp by simp
  have std: "store ht' dp = Some (DirectoryPage d')" using st' by simp
  have sto: "\<And>x. x \<noteq> p \<Longrightarrow> x \<noteq> q \<Longrightarrow> x \<noteq> dp \<Longrightarrow> store ht' x = store ht x"
    using st' by simp
  have ownp: "owns ht j p" using owns_slot [OF da bl] pv by simp
  have frame: "\<forall>x. x \<noteq> dp \<longrightarrow> \<not> owns ht j x \<longrightarrow> x \<in> dom (store ht) \<longrightarrow> store ht' x = store ht x"
  proof (intro allI impI)
    fix x assume x: "x \<noteq> dp" "\<not> owns ht j x" "x \<in> dom (store ht)"
    from x(2) ownp have "x \<noteq> p" by auto
    moreover from x(3) qf have "x \<noteq> q" by auto
    ultimately show "store ht' x = store ht x" using x(1) by (intro sto)
  qed
  have bks: "buckets_ok ht' j d'"
    unfolding buckets_ok_def
  proof (intro conjI allI impI)
    fix i :: nat assume "i < 2 ^ gdn d'" "slot_pid d' i \<noteq> INVALID_PAGE_ID"
    then have i: "i < 2 ^ ?g" using g' by simp
    note si = s [rule_format, OF i]
    show "\<exists>bx. store ht' (slot_pid d' i) = Some (BucketPage bx) \<and> bucket_ok ht' j (slot_ld d' i) i bx"
    proof (cases "slot_pid d i = p")
      case T: True
      then have ti: "take_bit ?l i = take_bit ?l bi" using inS [OF i] by simp
      have ldi: "slot_ld d' i = Suc ?l" using si T by simp
      show ?thesis
      proof (cases "take_bit (Suc ?l) i = take_bit (Suc ?l) bi")
        case True
        then have sp: "slot_pid d' i = p" using si T by simp
        have "bucket_ok ht j (Suc ?l) i (refill (filter stay (entries b)) b)"
        proof (rule bucket_ok_refill [OF cf bo])
          show "max_size b = bucket_max_size ht" "length (array b) = bucket_array_size ht"
            using bo by (simp_all add: bucket_ok_def)
          show "\<forall>e\<in>set (entries b). stay e \<longrightarrow>
                  take_bit (Suc ?l) (unat (Hash ht (fst e))) = take_bit (Suc ?l) i"
            using True by (simp add: stayD)
        qed
        with sp ldi stp show ?thesis by (simp add: bucket_ok_config [OF cfg])
      next
        case False
        then have sp: "slot_pid d' i = q" using si T by simp
        have "bucket_ok ht j (Suc ?l) i (refill (filter (\<lambda>e. \<not> stay e) (entries b)) nb)"
        proof (rule bucket_ok_refill [OF cf bo nb])
          show "\<forall>e\<in>set (entries b). \<not> stay e \<longrightarrow>
                  take_bit (Suc ?l) (unat (Hash ht (fst e))) = take_bit (Suc ?l) i"
          proof (intro ballI impI)
            fix e assume e: "e \<in> set (entries b)" "\<not> stay e"
            from bo e(1) have "take_bit ?l (unat (Hash ht (fst e))) = take_bit ?l bi"
              by (auto simp: bucket_ok_def)
            moreover from e(2)
            have "take_bit (Suc ?l) (unat (Hash ht (fst e))) \<noteq> take_bit (Suc ?l) bi"
              by (simp add: stayD)
            ultimately show "take_bit (Suc ?l) (unat (Hash ht (fst e))) = take_bit (Suc ?l) i"
              using ti False by (intro take_bit_other_class [of ?l _ bi i])
          qed
        qed
        with sp ldi stq show ?thesis by (simp add: bucket_ok_config [OF cfg])
      qed
    next
      case False
      then have e: "slot_pid d' i = slot_pid d i" "slot_ld d' i = slot_ld d i" using si by simp_all
      from slotb [OF i] obtain bx where
        bx: "store ht (slot_pid d i) = Some (BucketPage bx)" "bucket_ok ht j (slot_ld d i) i bx"
        by blast
      have "slot_pid d i \<noteq> dp" using bx(1) dpst by auto
      with False qs i have "store ht' (slot_pid d i) = store ht (slot_pid d i)"
        by (intro sto) simp_all
      with bx e show ?thesis by (simp add: bucket_ok_config [OF cfg])
    qed
  next
    assume "\<exists>i<2 ^ gdn d'. slot_pid d' i = INVALID_PAGE_ID"
    then obtain i where i: "i < 2 ^ ?g" "slot_pid d' i = INVALID_PAGE_ID" using g' by auto
    from s [rule_format, OF i(1)] i(2) valid [OF i(1)] pv(2) q(2)
    show "gdn d' = 0" by (simp split: if_splits)
  qed
  have own': "\<forall>i<2 ^ gdn d'. slot_pid d' i \<noteq> INVALID_PAGE_ID \<longrightarrow>
                owns ht j (slot_pid d' i) \<or> slot_pid d' i \<notin> dom (store ht)"
  proof (intro allI impI)
    fix i :: nat assume "i < 2 ^ gdn d'" "slot_pid d' i \<noteq> INVALID_PAGE_ID"
    then have i: "i < 2 ^ ?g" using g' by simp
    from s [rule_format, OF i] ownp qf owns_slot [OF da i valid [OF i]]
    show "owns ht j (slot_pid d' i) \<or> slot_pid d' i \<notin> dom (store ht)"
      by (simp split: if_splits)
  qed
  have dom': "\<forall>x\<in>dom (store ht'). x < next_page ht'"
  proof
    fix x assume "x \<in> dom (store ht')"
    then have "x \<in> dom (store ht) \<or> x = q" using st' st dpst by (auto split: if_splits)
    then have "x < q \<or> x = q" using table_ok_dom [OF ok] q by auto
    with q(2) show "x < next_page ht'" using np by (simp add: word_less_succ)
  qed
  have t: "table_ok ht'"
    using dir_update [OF ok da cfg dom' frame std dok' bks own'] .
  have p: "\<And>k v. present ht k v \<Longrightarrow> present ht' k v"
  proof -
    fix k v assume pr: "present ht k v"
    show "present ht' k v"
    proof (rule dir_update_present [OF ok da cfg frame std _ pr])
      fix bk
      assume a: "dir_index ht k = j" "slot_pid d (bkt_index d ht k) \<noteq> INVALID_PAGE_ID"
        "store ht (slot_pid d (bkt_index d ht k)) = Some (BucketPage bk)"
        "(k, v) \<in> set (entries bk)"
      let ?i = "bkt_index d ht k"
      have i: "?i < 2 ^ ?g" by (rule bkt_index_less)
      have bi': "bkt_index d' ht k = ?i" using g' by (simp add: bkt_index_def)
      note si = s [rule_format, OF i]
      show "\<exists>b'. slot_pid d' (bkt_index d' ht k) \<noteq> INVALID_PAGE_ID
               \<and> store ht' (slot_pid d' (bkt_index d' ht k)) = Some (BucketPage b')
               \<and> (k, v) \<in> set (entries b')"
      proof (cases "slot_pid d ?i = p")
        case T: True
        with a st have bk: "bk = b" by simp
        have "Suc ?l \<le> ?g" using l by simp
        then have "take_bit (Suc ?l) ?i = take_bit (Suc ?l) (unat (Hash ht k))"
          by (simp add: bkt_index_def min.absorb1 del: take_bit_Suc)
        then have sk: "stay (k, v) = (take_bit (Suc ?l) ?i = take_bit (Suc ?l) bi)"
          by (simp add: stayD del: take_bit_Suc)
        show ?thesis
        proof (cases "stay (k, v)")
          case True
          with sk si T have "slot_pid d' ?i = p" by simp
          moreover have "(k, v) \<in> set (entries (refill (filter stay (entries b)) b))"
            using True a(4) bk by (simp add: refill_simps)
          ultimately show ?thesis using stp pv(2) bi' by simp
        next
          case False
          with sk si T have "slot_pid d' ?i = q" by simp
          moreover have "(k, v) \<in> set (entries (refill (filter (\<lambda>e. \<not> stay e) (entries b)) nb))"
            using False a(4) bk by (simp add: refill_simps)
          ultimately show ?thesis using stq q(2) bi' by simp
        qed
      next
        case False
        then have e: "slot_pid d' ?i = slot_pid d ?i" using si by simp
        have "slot_pid d ?i \<noteq> dp" using a(3) dpst by auto
        with False qs i have "store ht' (slot_pid d ?i) = store ht (slot_pid d ?i)"
          by (intro sto) simp_all
        with a e bi' show ?thesis by simp
      qed
    qed
  qed
  from t p show ?thesis by (simp add: step_ok_def)
qed

lemma Hash_put_page [simp]: "Hash (put_page ht p c) = Hash ht"
  by (simp add: Hash_def put_page_def fun_eq_iff)

lemma put_page_fields [simp]:
  "bucket_max_size (put_page ht p c) = bucket_max_size ht"
  "bucket_array_size (put_page ht p c) = bucket_array_size ht"
  "directory_max_depth (put_page ht p c) = directory_max_depth ht"
  "directory_array_size (put_page ht p c) = directory_array_size ht"
  "header_page_id (put_page ht p c) = header_page_id ht"
  by (simp_all add: put_page_def)

lemma split_and_retry_step:
  assumes ok: "table_ok ht" and da: "dir_at ht j dp d"
    and bl: "unat bidx < 2 ^ gdn d" and pv: "slot_pid d (unat bidx) \<noteq> INVALID_PAGE_ID"
    and l: "slot_ld d (unat bidx) < gdn d"
  shows "case split_and_retry ht dp d bidx of
           Finished (Inl e) \<Rightarrow> True
         | Finished (Inr x) \<Rightarrow> False
         | Again ht' \<Rightarrow> step_ok ht ht'"
proof -
  let ?bi = "unat bidx"
  let ?p = "slot_pid d ?bi"
  let ?q = "next_page ht"
  let ?l = "slot_ld d ?bi"
  note old = table_ok_dir_ok [OF ok da]
  from split_dir_run [OF old(1) bl l, of ?q] obtain d1 ld d' where
    r: "IncrLocalDepth d bidx = Inr d1"
       "GetBucketPageId d1 bidx = Inr ?p"
       "GetLocalDepth d1 bidx = Inr ld" "unat ld = Suc ?l"
       "map_slots (split_slot ?p ?q bidx ld) d1 = Inr d'"
       "gdn d' = gdn d" "max_depth d' = max_depth d"
       "length (bucket_page_ids d') = length (bucket_page_ids d)"
       "length (local_depths d') = length (local_depths d)"
       "\<forall>i<2 ^ gdn d.
                slot_pid d' i = (if slot_pid d i = ?p
                                 then if take_bit (Suc ?l) i = take_bit (Suc ?l) ?bi then ?p else ?q
                                 else slot_pid d i)
              \<and> slot_ld d' i = (if slot_pid d i = ?p then Suc ?l else slot_ld d i)"
    by blast
  from buckets_ok_slot [OF old(2) bl pv] obtain b where
    b: "store ht ?p = Some (BucketPage b)" by blast
  have dpst: "store ht dp = Some (DirectoryPage d)" using da by (simp add: dir_at_def)
  have pdp: "?p \<noteq> dp" using b dpst by auto
  define ht0 where "ht0 = put_page ht dp (DirectoryPage d1)"
  define B0 :: "('a, 'b) ExtendibleHTableBucketPage"
    where "B0 = Init_bucket (bucket_max_size ht) (zero_bucket (bucket_array_size ht))"
  have fd: "fetch_directory ht0 dp = Inr d1" by (simp add: fetch_directory_def ht0_def)
  have fb: "fetch_bucket ht0 ?p = Inr b" using b pdp by (simp add: fetch_bucket_def ht0_def)
  have sz: "bucket_max_size ht0 = bucket_max_size ht" "bucket_array_size ht0 = bucket_array_size ht"
    by (simp_all add: ht0_def)
  show ?thesis
  proof (cases "?q = INVALID_PAGE_ID")
    case True
    then have "new_page ht0 (BucketPage B0) = Inl UndefinedBehaviour"
      by (simp add: new_page_def ht0_def)
    then have "SplitBucket ht0 dp bidx = Inl UndefinedBehaviour"
      by (simp add: SplitBucket_def fd r(2) fb r(3) sz B0_def)
    then show ?thesis by (simp add: split_and_retry_def r(1) ht0_def)
  next
    case False
    define ht1 where "ht1 = ht0\<lparr>store := (store ht0)(?q \<mapsto> BucketPage B0), next_page := ?q + 1\<rparr>"
    have np: "new_page ht0 (BucketPage B0) = Inr (?q, ht1)"
      using False by (simp add: new_page_def ht0_def ht1_def)
    have fb1: "fetch_bucket ht1 ?q = Inr B0" by (simp add: fetch_bucket_def ht1_def)
    define stay where "stay = (\<lambda>e :: 'a \<times> 'b. unat (Hash ht0 (fst e)) mod 2 ^ unat ld = unat bidx mod 2 ^ unat ld)"
    define ht' where "ht' = put_page
                     (put_page
                        (put_page ht1 ?p (BucketPage (refill (filter stay (take (bsize b) (array b))) b)))
                        ?q (BucketPage (refill (filter (\<lambda>e. \<not> stay e) (take (bsize b) (array b))) B0)))
                     dp (DirectoryPage d')"
    have sb: "SplitBucket ht0 dp bidx = Inr (True, ht')"
      by (simp add: SplitBucket_def fd r(2) fb r(3) sz np fb1 r(5) Let_def ht'_def stay_def
            flip: B0_def)
    have sr: "split_and_retry ht dp d bidx = Again ht'"
      using sb by (simp add: split_and_retry_def r(1) ht0_def)
    have "step_ok ht ht'"
    proof (rule split_table [OF ok da bl refl pv l b refl False r(6,7,8,9) r(10), where nb = B0 and stay = stay])
      show "max_size B0 = bucket_max_size ht" "length (array B0) = bucket_array_size ht"
        by (simp_all add: B0_def Init_bucket_def zero_bucket_def)
      show "\<forall>e. stay e = (take_bit (Suc ?l) (unat (Hash ht (fst e))) = take_bit (Suc ?l) ?bi)"
        by (simp add: stay_def r(4) take_bit_eq_mod ht0_def del: take_bit_Suc)
      show "store ht' = (store ht)(?p \<mapsto> BucketPage (refill (filter stay (entries b)) b),
                                   ?q \<mapsto> BucketPage (refill (filter (\<lambda>e. \<not> stay e) (entries b)) B0),
                                   dp \<mapsto> DirectoryPage d')"
        by (rule ext) (simp add: ht'_def ht1_def ht0_def entries_def)
      show "next_page ht' = ?q + 1" by (simp add: ht'_def ht1_def)
      show "same_config ht ht'"
        by (simp add: same_config_def ht'_def ht1_def ht0_def put_page_def)
    qed
    with sr show ?thesis by simp
  qed
qed

subsection \<open>The pass of \<open>Insert\<close> through a bucket\<close>

lemma put_page_put: "put_page (put_page ht dp x) dp y = put_page ht dp y"
  by (simp add: put_page_def)

lemma split_and_retry_put:
  "split_and_retry (put_page ht dp x) dp d bidx = split_and_retry ht dp d bidx"
  unfolding split_and_retry_def put_page_put ..

lemma insert_into_bucket_step:
  assumes ok: "table_ok ht" and da: "dir_at ht j dp d"
    and j: "dir_index ht k' = j" and bi: "unat bidx = bkt_index d ht k'"
    and pid: "slot_pid d (unat bidx) = pid" "pid \<noteq> INVALID_PAGE_ID"
  shows "case insert_into_bucket ht dp d bidx pid k' v' of
           Finished (Inl e) \<Rightarrow> True
         | Finished (Inr (r, ht')) \<Rightarrow> step_ok ht ht' \<and> (r \<longrightarrow> present ht' k' v')
         | Again ht' \<Rightarrow> step_ok ht ht'"
proof -
  let ?bi = "unat bidx"
  note old = table_ok_dir_ok [OF ok da]
  have bl: "?bi < 2 ^ gdn d" using bi bkt_index_less [of d ht k'] by simp
  from buckets_ok_slot [OF old(2) bl] pid obtain b where
    b: "store ht pid = Some (BucketPage b)" by auto
  have fb: "fetch_bucket ht pid = Inr b" using b by (simp add: fetch_bucket_def)
  show ?thesis
  proof (cases "Lookup b k'")
    case (Inl e)
    then show ?thesis by (simp add: insert_into_bucket_def fb)
  next
    case (Inr found)
    show ?thesis
    proof (cases found)
      case (Some v)
      with Inr show ?thesis by (simp add: insert_into_bucket_def fb step_ok_refl [OF ok])
    next
      case None
      show ?thesis
      proof (cases "IsFull b")
        case False
        show ?thesis
        proof (cases "Insert_bucket b k' v'")
          case (Inl e)
          with Inr None False show ?thesis by (simp add: insert_into_bucket_def fb)
        next
          case ins: (Inr res)
          obtain r b' where res: "res = (r, b')" by (cases res)
          from ins res have i: "Insert_bucket b k' v' = Inr (r, b')" by simp
          note n = insert_nonfull [OF ok da j bi [symmetric] pid b i]
          from Inr None False i n show ?thesis by (simp add: insert_into_bucket_def fb)
        qed
      next
        case True
        from dir_ok_GetLocalDepth [OF old(1) bl] obtain ld where
          ld: "GetLocalDepth d bidx = Inr ld" "unat ld = slot_ld d ?bi" by blast
        have lle: "slot_ld d ?bi \<le> gdn d" using dir_ok_slots(1) [OF old(1)] bl by blast
        have pv: "slot_pid d ?bi \<noteq> INVALID_PAGE_ID" using pid by simp
        show ?thesis
        proof (cases "ld = GetGlobalDepth d")
          case eq: True
          then have leq: "slot_ld d ?bi = gdn d" using ld(2) by (simp add: GetGlobalDepth_def gdn_def)
          show ?thesis
          proof (cases "GetGlobalDepth d \<ge> GetMaxDepth d")
            case True
            with Inr None \<open>IsFull b\<close> ld eq show ?thesis
              by (simp add: insert_into_bucket_def fb step_ok_refl [OF ok])
          next
            case False
            have md: "max_depth d = directory_max_depth ht" using dir_ok_bounds [OF old(1)] by simp
            from False have lt: "gdn d < unat (directory_max_depth ht)"
              by (simp add: GetGlobalDepth_def GetMaxDepth_def word_le_nat_alt gdn_def md)
            from grow_step [OF ok da bl pv lt] obtain dg where
              dg: "IncrGlobalDepth d = Some dg"
                  "step_ok ht (put_page ht dp (DirectoryPage dg))"
                  "dir_at (put_page ht dp (DirectoryPage dg)) j dp dg"
                  "gdn dg = gdn d + 1"
                  "\<forall>i<2 ^ (gdn d + 1). slot_pid dg i = slot_pid d (take_bit (gdn d) i)
                       \<and> slot_ld dg i = slot_ld d (take_bit (gdn d) i)"
              by blast
            let ?htg = "put_page ht dp (DirectoryPage dg)"
            have okg: "table_ok ?htg" using dg(2) by (simp add: step_ok_def)
            have bl2: "?bi < 2 ^ (gdn d + 1)" using bl by simp
            have tb: "take_bit (gdn d) ?bi = ?bi" using bl by (simp add: take_bit_nat_eq_self)
            note sb = dg(5) [rule_format, OF bl2]
            have g1: "?bi < 2 ^ gdn dg" using bl2 dg(4) by simp
            have g2: "slot_pid dg ?bi \<noteq> INVALID_PAGE_ID" using sb tb pv by simp
            have g3: "slot_ld dg ?bi < gdn dg" using sb tb leq dg(4) by simp
            note st = split_and_retry_step [OF okg dg(3) g1 g2 g3, unfolded split_and_retry_put]
            have e: "insert_into_bucket ht dp d bidx pid k' v' = split_and_retry ht dp dg bidx"
              using Inr None \<open>IsFull b\<close> ld eq False dg(1) by (simp add: insert_into_bucket_def fb)
            show ?thesis
            proof (cases "split_and_retry ht dp dg bidx")
              case (Finished x)
              with st e show ?thesis by (cases x) simp_all
            next
              case (Again ht')
              with st have "step_ok ?htg ht'" by simp
              with dg(2) have "step_ok ht ht'" by (rule step_ok_trans)
              with Again e show ?thesis by simp
            qed
          qed
        next
          case ne: False
          have "slot_ld d ?bi \<noteq> gdn d"
          proof
            assume "slot_ld d ?bi = gdn d"
            with ld(2) have "unat ld = unat (global_depth d)" by (simp add: gdn_def)
            then have "ld = global_depth d" by (rule unsigned_word_eqI)
            with ne show False by (simp add: GetGlobalDepth_def)
          qed
          with lle have l: "slot_ld d ?bi < gdn d" by simp
          note st = split_and_retry_step [OF ok da bl pv l]
          have e: "insert_into_bucket ht dp d bidx pid k' v' = split_and_retry ht dp d bidx"
            using Inr None \<open>IsFull b\<close> ld ne by (simp add: insert_into_bucket_def fb)
          show ?thesis
          proof (cases "split_and_retry ht dp d bidx")
            case (Finished x)
            with st e show ?thesis by (cases x) simp_all
          next
            case (Again ht')
            with st e show ?thesis by simp
          qed
        qed
      qed
    qed
  qed
qed

subsection \<open>A new bucket\<close>

lemma new_bucket_step:
  fixes bi :: nat
  assumes ok: "table_ok ht" and da: "dir_at ht j dp d"
    and bl: "bi < 2 ^ gdn d" and inv: "slot_pid d bi = INVALID_PAGE_ID"
    and q: "q = next_page ht" "q \<noteq> INVALID_PAGE_ID"
    and d2: "d2 = d\<lparr>bucket_page_ids := (bucket_page_ids d)[bi := q],
                     local_depths := (local_depths d)[bi := 0]\<rparr>"
    and nb: "max_size nb = bucket_max_size ht" "length (array nb) = bucket_array_size ht" "bsize nb = 0"
    and st': "store ht' = (store ht)(q \<mapsto> BucketPage nb, dp \<mapsto> DirectoryPage d2)"
    and np: "next_page ht' = q + 1" and cfg: "same_config ht ht'"
  shows "step_ok ht ht'" and "dir_at ht' j dp d2" and "slot_pid d2 bi = q" and "gdn d2 = gdn d"
proof -
  note old = table_ok_dir_ok [OF ok da]
  have g0: "gdn d = 0" using buckets_ok_invalid [OF old(2) bl inv] .
  then have b0: "bi = 0" using bl by simp
  from dir_ok_bounds [OF old(1)] have bd:
    "2 ^ gdn d \<le> length (bucket_page_ids d)" "2 ^ gdn d \<le> length (local_depths d)"
    "length (bucket_page_ids d) = directory_array_size ht"
    "length (local_depths d) = directory_array_size ht"
    "max_depth d = directory_max_depth ht" "unat (directory_max_depth ht) \<le> 31"
    by simp_all
  from old(1) have dm: "2 ^ unat (directory_max_depth ht) \<le> directory_array_size ht"
    by (simp add: dir_ok_def)
  have pos: "0 < length (bucket_page_ids d)" "0 < length (local_depths d)"
    using bd g0 by simp_all
  have g2: "gdn d2 = 0" using g0 by (simp add: d2 gdn_def)
  have s2: "slot_pid d2 0 = q" "slot_ld d2 0 = 0"
    using pos by (simp_all add: d2 b0 slot_pid_def slot_ld_def)
  show "slot_pid d2 bi = q" using s2 b0 by simp
  show "gdn d2 = gdn d" using g0 g2 by simp
  have dpst: "store ht dp = Some (DirectoryPage d)" using da by (simp add: dir_at_def)
  have qf: "q \<notin> dom (store ht)" using next_page_fresh [OF ok] q by simp
  have qdp: "q \<noteq> dp" using qf dpst by auto
  have dok: "dir_ok (directory_array_size ht) (directory_max_depth ht) d2"
  proof (rule dir_okI)
    show "max_depth d2 = directory_max_depth ht" using bd by (simp add: d2)
    show "unat (directory_max_depth ht) \<le> 31" by fact
    show "2 ^ unat (directory_max_depth ht) \<le> directory_array_size ht" by fact
    show "gdn d2 \<le> unat (directory_max_depth ht)" using g2 by simp
    show "length (bucket_page_ids d2) = directory_array_size ht" using bd by (simp add: d2)
    show "length (local_depths d2) = directory_array_size ht" using bd by (simp add: d2)
  next
    fix i :: nat assume "i < 2 ^ gdn d2"
    then have "i = 0" using g2 by simp
    then show "slot_ld d2 i \<le> gdn d2" using s2 by simp
  next
    fix i i' :: nat assume "i < 2 ^ gdn d2" "i' < 2 ^ gdn d2"
    then have "i = 0" "i' = 0" using g2 by simp_all
    then show "(slot_pid d2 i = slot_pid d2 i') = (take_bit (slot_ld d2 i) i = take_bit (slot_ld d2 i) i')"
      by simp
  next
    fix i i' :: nat assume "i < 2 ^ gdn d2" "i' < 2 ^ gdn d2"
    then have "i = 0" "i' = 0" using g2 by simp_all
    then show "slot_ld d2 i = slot_ld d2 i'" by simp
  qed
  have frame: "\<forall>x. x \<noteq> dp \<longrightarrow> \<not> owns ht j x \<longrightarrow> x \<in> dom (store ht) \<longrightarrow> store ht' x = store ht x"
  proof (intro allI impI)
    fix x assume x: "x \<noteq> dp" "x \<in> dom (store ht)"
    with qf have "x \<noteq> q" by auto
    with x(1) show "store ht' x = store ht x" by (simp add: st')
  qed
  have std: "store ht' dp = Some (DirectoryPage d2)" by (simp add: st')
  have stq: "store ht' q = Some (BucketPage nb)" using qdp by (simp add: st')
  have bks: "buckets_ok ht' j d2"
    unfolding buckets_ok_def
  proof (intro conjI allI impI)
    fix i :: nat assume "i < 2 ^ gdn d2" "slot_pid d2 i \<noteq> INVALID_PAGE_ID"
    then have i: "i = 0" using g2 by simp
    have "bucket_ok ht j 0 0 nb" using nb by (simp add: bucket_ok_def entries_def)
    with i s2 stq
    show "\<exists>bx. store ht' (slot_pid d2 i) = Some (BucketPage bx) \<and> bucket_ok ht' j (slot_ld d2 i) i bx"
      by (simp add: bucket_ok_config [OF cfg])
  next
    show "gdn d2 = 0" by fact
  qed
  have own': "\<forall>i<2 ^ gdn d2. slot_pid d2 i \<noteq> INVALID_PAGE_ID \<longrightarrow>
                owns ht j (slot_pid d2 i) \<or> slot_pid d2 i \<notin> dom (store ht)"
    using g2 s2 qf by simp
  have dom': "\<forall>x\<in>dom (store ht'). x < next_page ht'"
  proof
    fix x assume "x \<in> dom (store ht')"
    then have "x \<in> dom (store ht) \<or> x = q" using st' dpst by (auto split: if_splits)
    then have "x < q \<or> x = q" using table_ok_dom [OF ok] q by auto
    with q(2) show "x < next_page ht'" using np by (simp add: word_less_succ)
  qed
  have t: "table_ok ht'"
    using dir_update [OF ok da cfg dom' frame std dok bks own'] .
  have p: "\<And>k v. present ht k v \<Longrightarrow> present ht' k v"
  proof -
    fix k v assume pr: "present ht k v"
    show "present ht' k v"
    proof (rule dir_update_present [OF ok da cfg frame std _ pr])
      fix bk
      assume a: "slot_pid d (bkt_index d ht k) \<noteq> INVALID_PAGE_ID"
      have "bkt_index d ht k < 2 ^ gdn d" by (rule bkt_index_less)
      with g0 b0 have "bkt_index d ht k = bi" by simp
      with a inv show "\<exists>b'. slot_pid d2 (bkt_index d2 ht k) \<noteq> INVALID_PAGE_ID
               \<and> store ht' (slot_pid d2 (bkt_index d2 ht k)) = Some (BucketPage b')
               \<and> (k, v) \<in> set (entries b')"
        by simp
    qed
  qed
  from t p show "step_ok ht ht'" by (simp add: step_ok_def)
  show "dir_at ht' j dp d2" by (rule dir_frame(1) [OF ok da cfg frame std])
qed

lemma insert_post_simps [simp]:
  "insert_post ht k v (Finished (Inl e))"
  "insert_post ht k v (Finished (Inr (r, ht'))) = (step_ok ht ht' \<and> (r \<longrightarrow> present ht' k v))"
  "insert_post ht k v (Again ht') = step_ok ht ht'"
  by (simp_all add: insert_post_def)

lemma insert_post_trans:
  assumes "step_ok ht ht1" "insert_post ht1 k v x"
  shows "insert_post ht k v x"
proof (cases x)
  case (Finished y)
  show ?thesis
  proof (cases y)
    case (Inl e)
    with Finished show ?thesis by simp
  next
    case (Inr z)
    obtain r ht' where "z = (r, ht')" by (cases z)
    with Finished Inr assms show ?thesis by (auto intro: step_ok_trans)
  qed
next
  case (Again ht')
  with assms show ?thesis by (auto intro: step_ok_trans)
qed

lemma insert_into_directory_step:
  assumes ok: "table_ok ht" and da: "dir_at ht j dp d" and j: "dir_index ht k' = j"
  shows "insert_post ht k' v' (insert_into_directory ht dp k' v')"
proof -
  note old = table_ok_dir_ok [OF ok da]
  define bidx where "bidx = HashToBucketIndex d (Hash ht k')"
  let ?bi = "unat bidx"
  have bi: "?bi = bkt_index d ht k'"
    by (simp add: bidx_def unat_HashToBucketIndex bkt_index_def gdn_def)
  have bl: "?bi < 2 ^ gdn d" using bi bkt_index_less [of d ht k'] by simp
  have dpst: "store ht dp = Some (DirectoryPage d)" using da by (simp add: dir_at_def)
  have fd: "fetch_directory ht dp = Inr d" using dpst by (simp add: fetch_directory_def)
  have gb: "GetBucketPageId d bidx = Inr (slot_pid d ?bi)"
    using dir_ok_GetBucketPageId [OF old(1) bl] .
  show ?thesis
  proof (cases "slot_pid d ?bi = INVALID_PAGE_ID")
    case False
    have e: "insert_into_directory ht dp k' v'
               = insert_into_bucket ht dp d bidx (slot_pid d ?bi) k' v'"
      using False by (simp add: insert_into_directory_def fd Let_def gb flip: bidx_def)
    from insert_into_bucket_step [OF ok da j bi refl False, of v']
    show ?thesis unfolding e insert_post_def .
  next
    case True
    define B0 :: "('a, 'b) ExtendibleHTableBucketPage"
      where "B0 = Init_bucket (bucket_max_size ht) (zero_bucket (bucket_array_size ht))"
    show ?thesis
    proof (cases "next_page ht = INVALID_PAGE_ID")
      case inv: True
      then have "new_page ht (BucketPage B0) = Inl UndefinedBehaviour" by (simp add: new_page_def)
      then show ?thesis
        using True by (simp add: insert_into_directory_def fd Let_def gb flip: bidx_def B0_def)
    next
      case False
      let ?q = "next_page ht"
      define ht1 where "ht1 = ht\<lparr>store := (store ht)(?q \<mapsto> BucketPage B0), next_page := ?q + 1\<rparr>"
      have np: "new_page ht (BucketPage B0) = Inr (?q, ht1)"
        using False by (simp add: new_page_def ht1_def)
      from dir_ok_bounds [OF old(1)] have bd: "gdn d < 32"
        "2 ^ gdn d \<le> length (bucket_page_ids d)" "2 ^ gdn d \<le> length (local_depths d)"
        by simp_all
      have sz: "bidx < Size_directory d" using bl bd(1) by (simp add: less_Size_directory gdn_def)
      have inl: "?bi < length (bucket_page_ids d)" "?bi < length (local_depths d)"
        using bl bd by simp_all
      define d1 where "d1 = d\<lparr>bucket_page_ids := (bucket_page_ids d)[?bi := ?q]\<rparr>"
      define d2 where "d2 = d\<lparr>bucket_page_ids := (bucket_page_ids d)[?bi := ?q],
                              local_depths := (local_depths d)[?bi := 0]\<rparr>"
      have sb: "SetBucketPageId d bidx ?q = Inr d1"
        using sz inl by (simp add: SetBucketPageId_def d1_def)
      have sz1: "bidx < Size_directory d1" using sz by (simp add: Size_directory_def d1_def)
      have sl: "SetLocalDepth d1 bidx 0 = Inr d2"
        using sz1 inl by (simp add: SetLocalDepth_def d1_def d2_def)
      define htb where "htb = put_page ht1 dp (DirectoryPage d2)"
      have e: "insert_into_directory ht dp k' v' = insert_into_bucket htb dp d2 bidx ?q k' v'"
        using True by (simp add: insert_into_directory_def fd Let_def gb np sb sl htb_def
                         flip: bidx_def B0_def)
      have cfg: "same_config ht htb" by (simp add: same_config_def htb_def ht1_def put_page_def)
      note nbs = new_bucket_step [OF ok da bl True refl False d2_def, where nb = B0 and ht' = htb]
      have a1: "max_size B0 = bucket_max_size ht" "length (array B0) = bucket_array_size ht" "bsize B0 = 0"
        by (simp_all add: B0_def Init_bucket_def zero_bucket_def)
      have a2: "store htb = (store ht)(?q \<mapsto> BucketPage B0, dp \<mapsto> DirectoryPage d2)"
        by (simp add: htb_def ht1_def)
      have a3: "next_page htb = ?q + 1" by (simp add: htb_def ht1_def)
      note n = nbs [OF a1 a2 a3 cfg]
      have okb: "table_ok htb" using n(1) by (simp add: step_ok_def)
      have jb: "dir_index htb k' = j" using j same_config_simps(2) [OF cfg] by simp
      have bib: "?bi = bkt_index d2 htb k'"
        using bi n(4) same_config_simps(3) [OF cfg, of d2 k'] by (simp add: bkt_index_def)
      from insert_into_bucket_step [OF okb n(2) jb bib n(3) False, of v']
      have "insert_post htb k' v' (insert_into_bucket htb dp d2 bidx ?q k' v')"
        unfolding insert_post_def .
      with n(1) show ?thesis unfolding e by (rule insert_post_trans)
    qed
  qed
qed

subsection \<open>A new directory\<close>

lemma Init_directory_simps:
  "gdn (Init_directory dmd (zero_directory das)) = 0"
  "max_depth (Init_directory dmd (zero_directory das)) = dmd"
  "length (bucket_page_ids (Init_directory dmd (zero_directory das))) = das"
  "length (local_depths (Init_directory dmd (zero_directory das))) = das"
  "i < das \<Longrightarrow> slot_pid (Init_directory dmd (zero_directory das)) i = INVALID_PAGE_ID"
  "i < das \<Longrightarrow> slot_ld (Init_directory dmd (zero_directory das)) i = 0"
  by (simp_all add: Init_directory_def zero_directory_def gdn_def slot_pid_def slot_ld_def)

lemma Init_directory_ok:
  assumes "unat dmd \<le> 31" "2 ^ unat dmd \<le> das"
  shows "dir_ok das dmd (Init_directory dmd (zero_directory das))"
proof -
  have "(0::nat) < 2 ^ unat dmd" by simp
  with assms(2) have pos: "0 < das" by linarith
  show ?thesis
    using assms pos by (intro dir_okI) (simp_all add: Init_directory_simps)
qed

lemma table_okI:
  assumes "config_ok ht" "header_of ht h"
    "\<And>j j'. j < 2 ^ hdn ht \<Longrightarrow> j' < 2 ^ hdn ht \<Longrightarrow>
        directory_page_ids h ! j = directory_page_ids h ! j' \<Longrightarrow>
        directory_page_ids h ! j \<noteq> INVALID_PAGE_ID \<Longrightarrow> j = j'"
    "\<And>j dp d. dir_at ht j dp d \<Longrightarrow>
        dir_ok (directory_array_size ht) (directory_max_depth ht) d \<and> buckets_ok ht j d"
    "\<And>j. j < 2 ^ hdn ht \<Longrightarrow> directory_page_ids h ! j \<noteq> INVALID_PAGE_ID \<Longrightarrow>
        \<exists>d. store ht (directory_page_ids h ! j) = Some (DirectoryPage d)"
    "\<And>p. p \<in> dom (store ht) \<Longrightarrow> p < next_page ht"
    "\<And>j j' p. owns ht j p \<Longrightarrow> owns ht j' p \<Longrightarrow> j = j'"
  shows "table_ok ht"
proof -
  have c2: "\<exists>h. header_of ht h
          \<and> (\<forall>j<2 ^ hdn ht. \<forall>j'<2 ^ hdn ht.
                directory_page_ids h ! j = directory_page_ids h ! j'
                \<longrightarrow> directory_page_ids h ! j \<noteq> INVALID_PAGE_ID \<longrightarrow> j = j')"
    using assms(2,3) by blast
  have c4: "\<forall>j dp. (\<exists>h. header_of ht h \<and> directory_page_ids h ! j = dp) \<and> j < 2 ^ hdn ht
            \<and> dp \<noteq> INVALID_PAGE_ID \<longrightarrow> (\<exists>d. store ht dp = Some (DirectoryPage d))"
  proof (intro allI impI)
    fix j dp
    assume a: "(\<exists>h. header_of ht h \<and> directory_page_ids h ! j = dp) \<and> j < 2 ^ hdn ht
            \<and> dp \<noteq> INVALID_PAGE_ID"
    then have "directory_page_ids h ! j = dp" using assms(2) by (auto dest: header_of_unique)
    with a assms(5) [of j] show "\<exists>d. store ht dp = Some (DirectoryPage d)" by auto
  qed
  show ?thesis
    unfolding table_ok_def using assms(1) c2 assms(4) c4 assms(6) assms(7) by blast
qed

lemma table_ok_config: "table_ok ht \<Longrightarrow> config_ok ht"
  by (simp add: table_ok_def)

lemma table_ok_owns_sep: "table_ok ht \<Longrightarrow> owns ht j p \<Longrightarrow> owns ht j' p \<Longrightarrow> j = j'"
  unfolding table_ok_def by blast

lemma new_directory_step:
  assumes ok: "table_ok ht" and h: "header_of ht h" and jl: "j < 2 ^ hdn ht"
    and inv: "directory_page_ids h ! j = INVALID_PAGE_ID"
    and q: "q = next_page ht" "q \<noteq> INVALID_PAGE_ID"
    and D0: "D0 = Init_directory (directory_max_depth ht) (zero_directory (directory_array_size ht))"
    and h': "h' = h\<lparr>directory_page_ids := (directory_page_ids h)[j := q]\<rparr>"
    and st': "store ht' = (store ht)(q \<mapsto> DirectoryPage D0, header_page_id ht \<mapsto> HeaderPage h')"
    and np: "next_page ht' = q + 1" and cfg: "same_config ht ht'"
  shows "step_ok ht ht'" and "dir_at ht' j q D0"
proof -
  let ?hid = "header_page_id ht"
  note cf = table_ok_config [OF ok]
  from table_ok_header [OF ok] h have hsep: "\<And>j j'. j < 2 ^ hdn ht \<Longrightarrow> j' < 2 ^ hdn ht \<Longrightarrow>
       directory_page_ids h ! j = directory_page_ids h ! j' \<Longrightarrow>
       directory_page_ids h ! j \<noteq> INVALID_PAGE_ID \<Longrightarrow> j = j'"
    by (auto dest: header_of_unique)
  have hst: "store ht ?hid = Some (HeaderPage h)" "hmax_depth h = header_max_depth ht"
    "length (directory_page_ids h) = header_array_size ht"
    using h by (simp_all add: header_of_def)
  have qf: "q \<notin> dom (store ht)" using next_page_fresh [OF ok] q by simp
  have qh: "q \<noteq> ?hid" using qf hst by auto
  have hd: "hdn ht' = hdn ht" using cfg by (rule same_config_simps)
  have hid': "header_page_id ht' = ?hid" using cfg by (simp add: same_config_def)
  have jlen: "j < length (directory_page_ids h)"
    using jl cf hst by (simp add: config_ok_def)
  have h'of: "header_of ht' h'"
    using hst cfg by (simp add: header_of_def st' h' same_config_def)
  have ids': "directory_page_ids h' ! j = q"
    "\<And>j2. j2 \<noteq> j \<Longrightarrow> directory_page_ids h' ! j2 = directory_page_ids h ! j2"
    using jlen by (simp_all add: h')
  have stq: "store ht' q = Some (DirectoryPage D0)" using qh by (simp add: st')
  have sto: "\<And>x. x \<in> dom (store ht) \<Longrightarrow> x \<noteq> ?hid \<Longrightarrow> store ht' x = store ht x"
    using qf by (auto simp: st')
  have dirs: "\<And>j2. j2 < 2 ^ hdn ht \<Longrightarrow> directory_page_ids h ! j2 \<noteq> INVALID_PAGE_ID \<Longrightarrow>
                \<exists>d. store ht (directory_page_ids h ! j2) = Some (DirectoryPage d)"
  proof -
    fix j2 assume a: "j2 < 2 ^ hdn ht" "directory_page_ids h ! j2 \<noteq> INVALID_PAGE_ID"
    from table_ok_dir [OF ok h a] obtain d where "dir_at ht j2 (directory_page_ids h ! j2) d" .
    then show "\<exists>d. store ht (directory_page_ids h ! j2) = Some (DirectoryPage d)"
      by (auto simp: dir_at_def)
  qed
  have old_to_new: "\<And>j2 dp2 d2. dir_at ht j2 dp2 d2 \<Longrightarrow> j2 \<noteq> j \<and> dir_at ht' j2 dp2 d2"
  proof -
    fix j2 dp2 d2 assume a: "dir_at ht j2 dp2 d2"
    with h have t: "directory_page_ids h ! j2 = dp2" "j2 < 2 ^ hdn ht" "dp2 \<noteq> INVALID_PAGE_ID"
      "store ht dp2 = Some (DirectoryPage d2)"
      by (auto simp: dir_at_def dest: header_of_unique)
    have ne: "j2 \<noteq> j" using t inv by auto
    have "dp2 \<noteq> ?hid" using t(4) hst by auto
    then have "store ht' dp2 = Some (DirectoryPage d2)" using sto [of dp2] t(4) by auto
    with t ne h'of ids' show "j2 \<noteq> j \<and> dir_at ht' j2 dp2 d2"
      by (auto simp: dir_at_def hd)
  qed
  have new_to_old: "\<And>j2 dp2 d2. dir_at ht' j2 dp2 d2 \<Longrightarrow>
                      (j2 = j \<and> dp2 = q \<and> d2 = D0) \<or> (j2 \<noteq> j \<and> dir_at ht j2 dp2 d2)"
  proof -
    fix j2 dp2 d2 assume a: "dir_at ht' j2 dp2 d2"
    with h'of have t: "directory_page_ids h' ! j2 = dp2" "j2 < 2 ^ hdn ht" "dp2 \<noteq> INVALID_PAGE_ID"
      "store ht' dp2 = Some (DirectoryPage d2)"
      by (auto simp: dir_at_def hd dest: header_of_unique)
    show "(j2 = j \<and> dp2 = q \<and> d2 = D0) \<or> (j2 \<noteq> j \<and> dir_at ht j2 dp2 d2)"
    proof (cases "j2 = j")
      case True
      with t ids' stq show ?thesis by auto
    next
      case False
      then have e: "directory_page_ids h ! j2 = dp2" using t ids' by simp
      from dirs [OF t(2)] e t(3) obtain d0 where d0: "store ht dp2 = Some (DirectoryPage d0)" by auto
      have "dp2 \<noteq> ?hid" using d0 hst by auto
      then have "store ht' dp2 = store ht dp2" using sto [of dp2] d0 by auto
      with t(4) have "store ht dp2 = Some (DirectoryPage d2)" by simp
      with False e t h show ?thesis by (auto simp: dir_at_def)
    qed
  qed
  have das: "0 < directory_array_size ht"
  proof -
    have "(0::nat) < 2 ^ unat (directory_max_depth ht)" by simp
    with cf show ?thesis unfolding config_ok_def by linarith
  qed
  have D0ok: "dir_ok (directory_array_size ht) (directory_max_depth ht) D0"
    using cf unfolding D0 by (intro Init_directory_ok) (simp_all add: config_ok_def)
  have D0s: "gdn D0 = 0" "slot_pid D0 0 = INVALID_PAGE_ID"
    using das by (simp_all add: D0 Init_directory_simps)
  have bucket_same: "\<And>p. (\<exists>b. store ht p = Some (BucketPage b)) \<Longrightarrow> store ht' p = store ht p"
  proof -
    fix p assume "\<exists>b. store ht p = Some (BucketPage b)"
    then obtain b where b: "store ht p = Some (BucketPage b)" ..
    then have "p \<noteq> ?hid" using hst by auto
    with b show "store ht' p = store ht p" using sto [of p] by auto
  qed
  have owns_new: "\<And>j2 p. owns ht' j2 p \<Longrightarrow> owns ht j2 p"
  proof -
    fix j2 p assume "owns ht' j2 p"
    then obtain dp2 d2 i where a: "dir_at ht' j2 dp2 d2" "i < 2 ^ gdn d2" "slot_pid d2 i = p"
      "p \<noteq> INVALID_PAGE_ID"
      by (auto simp: owns_def)
    from new_to_old [OF a(1)] show "owns ht j2 p"
    proof
      assume "j2 = j \<and> dp2 = q \<and> d2 = D0"
      with a D0s show ?thesis by simp
    next
      assume "j2 \<noteq> j \<and> dir_at ht j2 dp2 d2"
      with a show ?thesis by (auto simp: owns_def)
    qed
  qed
  have t: "table_ok ht'"
  proof (rule table_okI [where h = h'])
    show "config_ok ht'" using cf cfg by (simp add: config_ok_def same_config_def hdn_def)
    show "header_of ht' h'" by fact
  next
    fix j1 j2
    assume a: "j1 < 2 ^ hdn ht'" "j2 < 2 ^ hdn ht'"
      "directory_page_ids h' ! j1 = directory_page_ids h' ! j2"
      "directory_page_ids h' ! j1 \<noteq> INVALID_PAGE_ID"
    have nq: "\<And>x. x < 2 ^ hdn ht \<Longrightarrow> x \<noteq> j \<Longrightarrow> directory_page_ids h ! x \<noteq> INVALID_PAGE_ID
                \<Longrightarrow> directory_page_ids h ! x \<noteq> q"
      using dirs qf by force
    show "j1 = j2"
    proof (cases "j1 = j"; cases "j2 = j")
      assume "j1 = j" "j2 = j" then show ?thesis by simp
    next
      assume b: "j1 = j" "j2 \<noteq> j"
      with a ids' have "directory_page_ids h ! j2 = q" by simp
      with nq [of j2] a(2) b(2) q(2) show ?thesis by (simp add: hd)
    next
      assume b: "j1 \<noteq> j" "j2 = j"
      with a ids' have "directory_page_ids h ! j1 = q" by simp
      with nq [of j1] a(1) b(1) q(2) show ?thesis by (simp add: hd)
    next
      assume b: "j1 \<noteq> j" "j2 \<noteq> j"
      with a ids' hsep [of j1 j2] show ?thesis by (simp add: hd)
    qed
  next
    fix j2 dp2 d2 assume a: "dir_at ht' j2 dp2 d2"
    from new_to_old [OF a]
    show "dir_ok (directory_array_size ht') (directory_max_depth ht') d2 \<and> buckets_ok ht' j2 d2"
    proof
      assume e: "j2 = j \<and> dp2 = q \<and> d2 = D0"
      have "buckets_ok ht' j D0" using D0s by (simp add: buckets_ok_def)
      with e D0ok cfg show ?thesis by (simp add: same_config_def)
    next
      assume e: "j2 \<noteq> j \<and> dir_at ht j2 dp2 d2"
      then have o: "dir_ok (directory_array_size ht) (directory_max_depth ht) d2" "buckets_ok ht j2 d2"
        using table_ok_dir_ok [OF ok] by blast+
      have "buckets_ok ht' j2 d2"
        unfolding buckets_ok_def
      proof (intro conjI allI impI)
        fix i :: nat assume i: "i < 2 ^ gdn d2" "slot_pid d2 i \<noteq> INVALID_PAGE_ID"
        from buckets_ok_slot [OF o(2) i] obtain b where
          b: "store ht (slot_pid d2 i) = Some (BucketPage b)" "bucket_ok ht j2 (slot_ld d2 i) i b"
          by blast
        have "store ht' (slot_pid d2 i) = store ht (slot_pid d2 i)"
          using bucket_same b(1) by blast
        with b show "\<exists>b. store ht' (slot_pid d2 i) = Some (BucketPage b)
                 \<and> bucket_ok ht' j2 (slot_ld d2 i) i b"
          by (simp add: bucket_ok_config [OF cfg])
      next
        assume "\<exists>i<2 ^ gdn d2. slot_pid d2 i = INVALID_PAGE_ID"
        then show "gdn d2 = 0" using buckets_ok_invalid [OF o(2)] by blast
      qed
      with o(1) cfg show ?thesis by (simp add: same_config_def)
    qed
  next
    fix j2
    assume a: "j2 < 2 ^ hdn ht'" "directory_page_ids h' ! j2 \<noteq> INVALID_PAGE_ID"
    show "\<exists>d. store ht' (directory_page_ids h' ! j2) = Some (DirectoryPage d)"
    proof (cases "j2 = j")
      case True
      with ids' stq show ?thesis by simp
    next
      case False
      with a ids' have v: "j2 < 2 ^ hdn ht" "directory_page_ids h ! j2 \<noteq> INVALID_PAGE_ID"
        by (simp_all add: hd)
      from table_ok_dir [OF ok h v] obtain d where "dir_at ht j2 (directory_page_ids h ! j2) d" .
      from old_to_new [OF this] False ids' show ?thesis by (auto simp: dir_at_def)
    qed
  next
    fix x assume "x \<in> dom (store ht')"
    then have "x \<in> dom (store ht) \<or> x = q" using st' hst by (auto split: if_splits)
    then have "x < q \<or> x = q" using table_ok_dom [OF ok] q by auto
    with q(2) show "x < next_page ht'" using np by (simp add: word_less_succ)
  next
    fix j1 j2 p assume "owns ht' j1 p" "owns ht' j2 p"
    then have "owns ht j1 p" "owns ht j2 p" using owns_new by blast+
    then show "j1 = j2" by (rule table_ok_owns_sep [OF ok])
  qed
  have p: "\<And>k v. present ht k v \<Longrightarrow> present ht' k v"
  proof -
    fix k v assume "present ht k v"
    then obtain dp2 d2 b where a: "dir_at ht (dir_index ht k) dp2 d2"
      "slot_pid d2 (bkt_index d2 ht k) \<noteq> INVALID_PAGE_ID"
      "store ht (slot_pid d2 (bkt_index d2 ht k)) = Some (BucketPage b)"
      "(k, v) \<in> set (entries b)"
      unfolding present_def by blast
    from old_to_new [OF a(1)] have "dir_at ht' (dir_index ht' k) dp2 d2"
      using same_config_simps(2) [OF cfg] by simp
    moreover have "store ht' (slot_pid d2 (bkt_index d2 ht k)) = Some (BucketPage b)"
      using bucket_same a(3) by (metis)
    ultimately show "present ht' k v"
      unfolding present_def using a same_config_simps(3) [OF cfg] by auto
  qed
  from t p show "step_ok ht ht'" by (simp add: step_ok_def)
  show "dir_at ht' j q D0"
    using h'of ids' jl q(2) stq by (auto simp: dir_at_def hd)
qed

subsection \<open>\<open>Insert\<close>\<close>

lemma insert_pass_step:
  assumes ok: "table_ok ht"
  shows "insert_post ht k' v' (insert_pass ht k' v')"
proof (cases "header_page_id ht = INVALID_PAGE_ID")
  case True
  then show ?thesis by (simp add: insert_pass_def step_ok_refl [OF ok])
next
  case hv: False
  note cf = table_ok_config [OF ok]
  from table_ok_header [OF ok] obtain h where h: "header_of ht h" by blast
  have hst: "store ht (header_page_id ht) = Some (HeaderPage h)" "hmax_depth h = header_max_depth ht"
    "length (directory_page_ids h) = header_array_size ht"
    using h by (simp_all add: header_of_def)
  have fh: "fetch_header ht (header_page_id ht) = Inr h" using hst by (simp add: fetch_header_def)
  define didx where "didx = HashToDirectoryIndex h (Hash ht k')"
  let ?j = "unat didx"
  have j: "dir_index ht k' = ?j"
    by (simp add: didx_def unat_HashToDirectoryIndex dir_index_def hdn_def hst)
  have jl: "?j < 2 ^ hdn ht" using dir_index_less [of ht k'] cf j by (simp add: config_ok_def)
  have jlen: "?j < length (directory_page_ids h)" using jl cf hst by (simp add: config_ok_def)
  have gd: "GetDirectoryPageId h didx = Inr (directory_page_ids h ! ?j)"
    using jlen by (simp add: GetDirectoryPageId_def)
  show ?thesis
  proof (cases "directory_page_ids h ! ?j = INVALID_PAGE_ID")
    case False
    from table_ok_dir [OF ok h jl False] obtain d where da: "dir_at ht ?j (directory_page_ids h ! ?j) d" .
    have e: "insert_pass ht k' v' = insert_into_directory ht (directory_page_ids h ! ?j) k' v'"
      using hv False by (simp add: insert_pass_def fh Let_def gd flip: didx_def)
    show ?thesis unfolding e by (rule insert_into_directory_step [OF ok da j])
  next
    case True
    define D0 where "D0 = Init_directory (directory_max_depth ht) (zero_directory (directory_array_size ht))"
    show ?thesis
    proof (cases "next_page ht = INVALID_PAGE_ID")
      case inv: True
      then have "new_page ht (DirectoryPage D0) = Inl UndefinedBehaviour" by (simp add: new_page_def)
      then show ?thesis
        using hv True by (simp add: insert_pass_def fh Let_def gd flip: didx_def D0_def)
    next
      case False
      let ?q = "next_page ht"
      define ht1 where "ht1 = ht\<lparr>store := (store ht)(?q \<mapsto> DirectoryPage D0), next_page := ?q + 1\<rparr>"
      have np: "new_page ht (DirectoryPage D0) = Inr (?q, ht1)"
        using False by (simp add: new_page_def ht1_def)
      define h' where "h' = h\<lparr>directory_page_ids := (directory_page_ids h)[?j := ?q]\<rparr>"
      have sd: "SetDirectoryPageId h didx ?q = Inr h'"
        using jlen by (simp add: SetDirectoryPageId_def h'_def)
      define hta where "hta = put_page ht1 (header_page_id ht) (HeaderPage h')"
      have e: "insert_pass ht k' v' = insert_into_directory hta ?q k' v'"
        using hv True by (simp add: insert_pass_def fh Let_def gd np sd hta_def flip: didx_def D0_def)
      have cfg: "same_config ht hta" by (simp add: same_config_def hta_def ht1_def put_page_def)
      have a2: "store hta = (store ht)(?q \<mapsto> DirectoryPage D0, header_page_id ht \<mapsto> HeaderPage h')"
        by (simp add: hta_def ht1_def)
      have a3: "next_page hta = ?q + 1" by (simp add: hta_def ht1_def)
      note n = new_directory_step [OF ok h jl True refl False D0_def h'_def a2 a3 cfg]
      have oka: "table_ok hta" using n(1) by (simp add: step_ok_def)
      have ja: "dir_index hta k' = ?j" using j same_config_simps(2) [OF cfg] by simp
      have "insert_post hta k' v' (insert_into_directory hta ?q k' v')"
        by (rule insert_into_directory_step [OF oka n(2) ja])
      with n(1) show ?thesis unfolding e by (rule insert_post_trans)
    qed
  qed
qed

lemma Insert_step_aux:
  assumes a: "Insert ht k v = Some y"
  shows "table_ok ht \<longrightarrow> (\<forall>r ht'. y = Inr (r, ht') \<longrightarrow> step_ok ht ht' \<and> (r \<longrightarrow> present ht' k v))"
proof (rule Insert.raw_induct
         [where P = "\<lambda>ht k v y. table_ok ht \<longrightarrow>
                       (\<forall>r ht'. y = Inr (r, ht') \<longrightarrow> step_ok ht ht' \<and> (r \<longrightarrow> present ht' k v))",
          OF _ a])
  fix ins ht key val y
  assume IH: "\<And>ht key val y. ins ht key val = Some y \<Longrightarrow>
                table_ok ht \<longrightarrow>
                  (\<forall>r ht'. y = Inr (r, ht') \<longrightarrow> step_ok ht ht' \<and> (r \<longrightarrow> present ht' key val))"
    and c: "(case insert_pass ht key val of Finished r \<Rightarrow> Some r | Again ht' \<Rightarrow> ins ht' key val) = Some y"
  show "table_ok ht \<longrightarrow>
          (\<forall>r ht'. y = Inr (r, ht') \<longrightarrow> step_ok ht ht' \<and> (r \<longrightarrow> present ht' key val))"
  proof (intro impI allI)
    fix r ht' assume ok: "table_ok ht" and y: "y = Inr (r, ht')"
    note post = insert_pass_step [OF ok, of key val]
    show "step_ok ht ht' \<and> (r \<longrightarrow> present ht' key val)"
    proof (cases "insert_pass ht key val")
      case (Finished x)
      with c y have "x = Inr (r, ht')" by simp
      with post Finished show ?thesis by simp
    next
      case (Again ht1)
      with post have s: "step_ok ht ht1" by simp
      then have ok1: "table_ok ht1" by (simp add: step_ok_def)
      from Again c have "ins ht1 key val = Some y" by simp
      from IH [OF this] ok1 y have "step_ok ht1 ht' \<and> (r \<longrightarrow> present ht' key val)" by blast
      with s show ?thesis by (auto intro: step_ok_trans)
    qed
  qed
qed

lemma Insert_step:
  assumes "Insert ht k v = Some (Inr (r, ht'))" "table_ok ht"
  shows "step_ok ht ht'" "r \<Longrightarrow> present ht' k v"
  using Insert_step_aux [OF assms(1)] assms(2) by blast+

subsection \<open>The merge\<close>

lemma merge_class:
  fixes bi :: nat
  assumes ok: "dir_ok das dmd d" and b: "bi < 2 ^ gdn d" and l: "slot_ld d bi = Suc m"
    and img: "slot_ld d (bi XOR 2 ^ m) = Suc m" and i: "i < 2 ^ gdn d"
  shows "bi XOR 2 ^ m < 2 ^ gdn d"
    and "(slot_pid d i = slot_pid d bi \<or> slot_pid d i = slot_pid d (bi XOR 2 ^ m))
           = (take_bit m i = take_bit m bi)"
    and "slot_pid d (bi XOR 2 ^ m) \<noteq> slot_pid d bi"
proof -
  let ?img = "bi XOR 2 ^ m"
  have mg: "m < gdn d" using dir_ok_slots(1) [OF ok, rule_format, OF b] l by simp
  show ib: "?img < 2 ^ gdn d" using b mg by (rule xor_exp_less)
  have a: "(slot_pid d i = slot_pid d bi) = (take_bit (Suc m) i = take_bit (Suc m) bi)"
    using dir_ok_same_bucket [OF ok b i] l by simp
  have a': "(slot_pid d i = slot_pid d ?img) = (take_bit (Suc m) i = take_bit (Suc m) ?img)"
    using dir_ok_same_bucket [OF ok ib i] img by simp
  show "(slot_pid d i = slot_pid d bi \<or> slot_pid d i = slot_pid d ?img)
           = (take_bit m i = take_bit m bi)"
  proof
    assume "slot_pid d i = slot_pid d bi \<or> slot_pid d i = slot_pid d ?img"
    then show "take_bit m i = take_bit m bi"
    proof
      assume "slot_pid d i = slot_pid d bi"
      with a have "take_bit (Suc m) i = take_bit (Suc m) bi" by simp
      then show ?thesis by (rule take_bit_eq_mono) simp
    next
      assume "slot_pid d i = slot_pid d ?img"
      with a' have "take_bit (Suc m) i = take_bit (Suc m) ?img" by simp
      then have "take_bit m i = take_bit m ?img" by (rule take_bit_eq_mono) simp
      then show ?thesis by (simp only: take_bit_xor_exp_low)
    qed
  next
    assume "take_bit m i = take_bit m bi"
    from take_bit_two_classes [OF this] a a'
    show "slot_pid d i = slot_pid d bi \<or> slot_pid d i = slot_pid d ?img" by simp
  qed
  have "(slot_pid d ?img = slot_pid d bi) = (take_bit (Suc m) ?img = take_bit (Suc m) bi)"
    using dir_ok_same_bucket [OF ok b ib] l by simp
  then show "slot_pid d ?img \<noteq> slot_pid d bi"
    using take_bit_xor_exp_neq [of m bi] by simp
qed

lemma all_slots_valid:
  assumes "buckets_ok ht j d" "0 < gdn d" "i < 2 ^ gdn d"
  shows "slot_pid d i \<noteq> INVALID_PAGE_ID"
  using buckets_ok_invalid [OF assms(1,3)] assms(2) by auto

lemma merge_table:
  fixes bi :: nat
  assumes ok: "table_ok ht" and da: "dir_at ht j dp d"
    and bl: "bi < 2 ^ gdn d" and l: "slot_ld d bi = Suc m"
    and img: "slot_ld d (bi XOR 2 ^ m) = Suc m"
    and ds: "(dead = slot_pid d bi \<and> sv = slot_pid d (bi XOR 2 ^ m))
             \<or> (dead = slot_pid d (bi XOR 2 ^ m) \<and> sv = slot_pid d bi)"
    and de: "store ht dead = Some (BucketPage db)" "bsize db = 0"
    and g': "gdn d' = gdn d" "max_depth d' = max_depth d"
            "length (bucket_page_ids d') = length (bucket_page_ids d)"
            "length (local_depths d') = length (local_depths d)"
    and s: "\<forall>i<2 ^ gdn d.
              slot_pid d' i = (if slot_pid d i = dead \<or> slot_pid d i = sv then sv else slot_pid d i)
              \<and> slot_ld d' i = (if slot_pid d i = dead \<or> slot_pid d i = sv then m else slot_ld d i)"
    and st': "store ht' = ((store ht)(dp \<mapsto> DirectoryPage d'))(dead := None)"
    and np: "next_page ht' = next_page ht" and cfg: "same_config ht ht'"
  shows "step_ok ht ht'" and "dir_at ht' j dp d'"
proof -
  let ?g = "gdn d"
  let ?img = "bi XOR 2 ^ m"
  let ?p = "slot_pid d bi"
  let ?p' = "slot_pid d ?img"
  note old = table_ok_dir_ok [OF ok da]
  note mc = merge_class [OF old(1) bl l img]
  have ib: "?img < 2 ^ ?g" using mc(1) [OF bl] .
  have ne: "?p' \<noteq> ?p" using mc(3) [OF bl] .
  have dsv: "dead \<noteq> sv" using ds ne by auto
  have gpos: "0 < ?g" using dir_ok_slots(1) [OF old(1), rule_format, OF bl] l by simp
  have valid: "\<And>i. i < 2 ^ ?g \<Longrightarrow> slot_pid d i \<noteq> INVALID_PAGE_ID"
    using all_slots_valid [OF old(2) gpos] .
  have dpst: "store ht dp = Some (DirectoryPage d)" using da by (simp add: dir_at_def)
  have ddp: "dead \<noteq> dp" using de dpst by auto
  have inS: "\<And>i. i < 2 ^ ?g \<Longrightarrow>
               (slot_pid d i = dead \<or> slot_pid d i = sv) = (take_bit m i = take_bit m bi)"
  proof -
    fix i :: nat assume i: "i < 2 ^ ?g"
    have "(slot_pid d i = dead \<or> slot_pid d i = sv) = (slot_pid d i = ?p \<or> slot_pid d i = ?p')"
      using ds by auto
    then show "(slot_pid d i = dead \<or> slot_pid d i = sv) = (take_bit m i = take_bit m bi)"
      using mc(2) [OF i] by simp
  qed
  have s': "\<forall>i<2 ^ gdn d.
              slot_pid d' i = (if slot_pid d i = ?p \<or> slot_pid d i = ?p' then sv else slot_pid d i)
              \<and> slot_ld d' i = (if slot_pid d i = ?p \<or> slot_pid d i = ?p' then m else slot_ld d i)"
  proof (intro allI impI)
    fix i :: nat assume i: "i < 2 ^ ?g"
    have "(slot_pid d i = dead \<or> slot_pid d i = sv) = (slot_pid d i = ?p \<or> slot_pid d i = ?p')"
      using ds by auto
    with s [rule_format, OF i]
    show "slot_pid d' i = (if slot_pid d i = ?p \<or> slot_pid d i = ?p' then sv else slot_pid d i)
              \<and> slot_ld d' i = (if slot_pid d i = ?p \<or> slot_pid d i = ?p' then m else slot_ld d i)"
      by simp
  qed
  have svd: "sv = ?p \<or> sv = ?p'" using ds by auto
  have dok': "dir_ok (directory_array_size ht) (directory_max_depth ht) d'"
    using merge_dir_ok [OF old(1) bl l img refl refl svd g' s'] .
  obtain s0 where s0: "s0 < 2 ^ ?g" "slot_pid d s0 = sv" "take_bit m s0 = take_bit m bi"
    "slot_ld d s0 = Suc m"
  proof (cases "sv = ?p")
    case True
    with bl l show ?thesis by (intro that [of bi]) simp_all
  next
    case False
    with svd have "sv = ?p'" by simp
    with ib img show ?thesis by (intro that [of ?img]) (simp_all add: take_bit_xor_exp_low)
  qed
  from buckets_ok_slot [OF old(2) s0(1)] valid [OF s0(1)] s0(2,4) obtain sb where
    sb: "store ht sv = Some (BucketPage sb)" "bucket_ok ht j (Suc m) s0 sb"
    by auto
  have svdp: "sv \<noteq> dp" using sb dpst by auto
  have std: "store ht' dp = Some (DirectoryPage d')" using ddp by (simp add: st')
  have sto: "\<And>x. x \<noteq> dead \<Longrightarrow> x \<noteq> dp \<Longrightarrow> store ht' x = store ht x" by (simp add: st')
  have owd: "owns ht j dead"
  proof -
    have "dead = ?p \<or> dead = ?p'" using ds by auto
    then show ?thesis
      using owns_slot [OF da bl valid [OF bl]] owns_slot [OF da ib valid [OF ib]] by auto
  qed
  have frame: "\<forall>x. x \<noteq> dp \<longrightarrow> \<not> owns ht j x \<longrightarrow> x \<in> dom (store ht) \<longrightarrow> store ht' x = store ht x"
  proof (intro allI impI)
    fix x assume x: "x \<noteq> dp" "\<not> owns ht j x"
    with owd have "x \<noteq> dead" by auto
    with x(1) show "store ht' x = store ht x" by (intro sto)
  qed
  have bks: "buckets_ok ht' j d'"
    unfolding buckets_ok_def
  proof (intro conjI allI impI)
    fix i :: nat assume "i < 2 ^ gdn d'" "slot_pid d' i \<noteq> INVALID_PAGE_ID"
    then have i: "i < 2 ^ ?g" using g' by simp
    note si = s [rule_format, OF i]
    show "\<exists>bx. store ht' (slot_pid d' i) = Some (BucketPage bx) \<and> bucket_ok ht' j (slot_ld d' i) i bx"
    proof (cases "slot_pid d i = dead \<or> slot_pid d i = sv")
      case True
      then have e: "slot_pid d' i = sv" "slot_ld d' i = m" using si by simp_all
      have ti: "take_bit m i = take_bit m bi" using inS [OF i] True by simp
      have "bucket_ok ht j m i sb"
        unfolding bucket_ok_def
      proof (intro conjI ballI)
        show "max_size sb = bucket_max_size ht" "bsize sb \<le> max_size sb"
          "length (array sb) = bucket_array_size ht" "sorted_wrt (<) (map fst (entries sb))"
          using sb(2) by (simp_all add: bucket_ok_def)
      next
        fix e assume "e \<in> set (entries sb)"
        with sb(2) have f: "dir_index ht (fst e) = j"
          "take_bit (Suc m) (unat (Hash ht (fst e))) = take_bit (Suc m) s0"
          by (auto simp: bucket_ok_def)
        show "dir_index ht (fst e) = j" by fact
        have "take_bit m (unat (Hash ht (fst e))) = take_bit m s0"
          using f(2) by (rule take_bit_eq_mono) simp
        with s0(3) ti show "take_bit m (unat (Hash ht (fst e))) = take_bit m i" by simp
      qed
      moreover have "store ht' sv = Some (BucketPage sb)"
        using sto [of sv] dsv svdp sb(1) by auto
      ultimately show ?thesis using e by (simp add: bucket_ok_config [OF cfg])
    next
      case False
      then have e: "slot_pid d' i = slot_pid d i" "slot_ld d' i = slot_ld d i" using si by simp_all
      from buckets_ok_slot [OF old(2) i valid [OF i]] obtain bx where
        bx: "store ht (slot_pid d i) = Some (BucketPage bx)" "bucket_ok ht j (slot_ld d i) i bx"
        by blast
      have "slot_pid d i \<noteq> dp" using bx(1) dpst by auto
      with False have "store ht' (slot_pid d i) = store ht (slot_pid d i)"
        by (intro sto) simp_all
      with bx e show ?thesis by (simp add: bucket_ok_config [OF cfg])
    qed
  next
    assume "\<exists>i<2 ^ gdn d'. slot_pid d' i = INVALID_PAGE_ID"
    then obtain i where i: "i < 2 ^ ?g" "slot_pid d' i = INVALID_PAGE_ID" using g' by auto
    from s [rule_format, OF i(1)] i(2) valid [OF i(1)] valid [OF s0(1)] s0(2)
    show "gdn d' = 0" by (simp split: if_splits)
  qed
  have own': "\<forall>i<2 ^ gdn d'. slot_pid d' i \<noteq> INVALID_PAGE_ID \<longrightarrow>
                owns ht j (slot_pid d' i) \<or> slot_pid d' i \<notin> dom (store ht)"
  proof (intro allI impI)
    fix i :: nat assume "i < 2 ^ gdn d'" "slot_pid d' i \<noteq> INVALID_PAGE_ID"
    then have i: "i < 2 ^ ?g" using g' by simp
    have "owns ht j sv" using owns_slot [OF da s0(1)] valid [OF s0(1)] s0(2) by simp
    with s [rule_format, OF i] owns_slot [OF da i valid [OF i]]
    show "owns ht j (slot_pid d' i) \<or> slot_pid d' i \<notin> dom (store ht)"
      by (simp split: if_splits)
  qed
  have dom': "\<forall>x\<in>dom (store ht'). x < next_page ht'"
  proof
    fix x assume "x \<in> dom (store ht')"
    then have "x \<in> dom (store ht)" using st' dpst by (auto split: if_splits)
    then show "x < next_page ht'" using table_ok_dom [OF ok] np by simp
  qed
  have t: "table_ok ht'"
    using dir_update [OF ok da cfg dom' frame std dok' bks own'] .
  have p: "\<And>k v. present ht k v \<Longrightarrow> present ht' k v"
  proof -
    fix k v assume pr: "present ht k v"
    show "present ht' k v"
    proof (rule dir_update_present [OF ok da cfg frame std _ pr])
      fix bk
      assume a: "slot_pid d (bkt_index d ht k) \<noteq> INVALID_PAGE_ID"
        "store ht (slot_pid d (bkt_index d ht k)) = Some (BucketPage bk)"
        "(k, v) \<in> set (entries bk)"
      let ?i = "bkt_index d ht k"
      have i: "?i < 2 ^ ?g" by (rule bkt_index_less)
      have bi': "bkt_index d' ht k = ?i" using g' by (simp add: bkt_index_def)
      note si = s [rule_format, OF i]
      have nd: "slot_pid d ?i \<noteq> dead"
      proof
        assume "slot_pid d ?i = dead"
        with a(2) de(1) have "bk = db" by simp
        with a(3) de(2) show False by (simp add: entries_def)
      qed
      have "slot_pid d ?i \<noteq> dp" using a(2) dpst by auto
      with nd have same: "store ht' (slot_pid d ?i) = store ht (slot_pid d ?i)" by (intro sto)
      have "slot_pid d' ?i = slot_pid d ?i" using si nd by auto
      with a same bi' show "\<exists>b'. slot_pid d' (bkt_index d' ht k) \<noteq> INVALID_PAGE_ID
               \<and> store ht' (slot_pid d' (bkt_index d' ht k)) = Some (BucketPage b')
               \<and> (k, v) \<in> set (entries b')"
        by simp
    qed
  qed
  from t p show "step_ok ht ht'" by (simp add: step_ok_def)
  show "dir_at ht' j dp d'" by (rule dir_frame(1) [OF ok da cfg frame std])
qed

lemma try_merge_step:
  "try_merge n ht dp bidx = Inr ht' \<Longrightarrow> table_ok ht \<Longrightarrow> dir_at ht j dp d \<Longrightarrow>
   unat bidx < 2 ^ gdn d \<Longrightarrow> step_ok ht ht' \<and> (\<exists>d'. dir_at ht' j dp d')"
proof (induction n arbitrary: ht d)
  case 0
  then show ?case by (auto simp: step_ok_refl)
next
  case (Suc n)
  note run = Suc.prems(1) and ok = Suc.prems(2) and da = Suc.prems(3) and bl = Suc.prems(4)
  let ?bi = "unat bidx"
  let ?g = "gdn d"
  let ?l = "slot_ld d ?bi"
  note old = table_ok_dir_ok [OF ok da]
  have stay: "step_ok ht ht \<and> (\<exists>d'. dir_at ht j dp d')" using ok da by (auto simp: step_ok_refl)
  have dpst: "store ht dp = Some (DirectoryPage d)" using da by (simp add: dir_at_def)
  have fd: "fetch_directory ht dp = Inr d" using dpst by (simp add: fetch_directory_def)
  from dir_ok_GetLocalDepth [OF old(1) bl] obtain ld where
    gl: "GetLocalDepth d bidx = Inr ld" "unat ld = ?l" by blast
  show ?case
  proof (cases "ld = 0")
    case True
    with run have "ht' = ht" by (simp add: fd gl)
    with stay show ?thesis by simp
  next
    case ldn: False
    then have "0 < unat ld" by (simp add: unat_gt_0)
    then have lpos: "0 < ?l" using gl(2) by simp
    from dir_ok_bounds [OF old(1)] have bd: "?g < 32"
      "2 ^ ?g \<le> length (bucket_page_ids d)" "2 ^ ?g \<le> length (local_depths d)"
      by simp_all
    have lg: "?l \<le> ?g" using dir_ok_slots(1) [OF old(1)] bl by blast
    obtain m where m: "?l = Suc m" using lpos by (cases ?l) simp_all
    have m31: "m < 31" using m lg bd by simp
    define img where "img = bidx XOR push_bit m 1"
    have gs: "GetSplitImageIndex d bidx = Inr img"
      using bl bd m m31 by (simp add: GetSplitImageIndex_def Let_def img_def slot_ld_def)
    have ui: "unat img = ?bi XOR 2 ^ m"
      using unat_split_image [of ?l bidx] m lg bd by (simp add: img_def)
    note mc = merge_class [OF old(1) bl m]
    have mg: "m < ?g" using m lg by simp
    have ib: "unat img < 2 ^ ?g" using ui xor_exp_less [OF bl mg] by simp
    from dir_ok_GetLocalDepth [OF old(1) ib] obtain ild where
      gli: "GetLocalDepth d img = Inr ild" "unat ild = slot_ld d (unat img)" by blast
    show ?thesis
    proof (cases "ild = ld")
      case False
      with run ldn have "ht' = ht" by (simp add: fd gl gs gli)
      with stay show ?thesis by simp
    next
      case True
      then have il: "slot_ld d (?bi XOR 2 ^ m) = Suc m" using gli(2) gl(2) m ui by simp
      have gpos: "0 < ?g" using mg by simp
      have valid: "\<And>i. i < 2 ^ ?g \<Longrightarrow> slot_pid d i \<noteq> INVALID_PAGE_ID"
        using all_slots_valid [OF old(2) gpos] .
      let ?p = "slot_pid d ?bi"
      let ?p' = "slot_pid d (unat img)"
      have gb: "GetBucketPageId d bidx = Inr ?p" using dir_ok_GetBucketPageId [OF old(1) bl] .
      have gbi: "GetBucketPageId d img = Inr ?p'" using dir_ok_GetBucketPageId [OF old(1) ib] .
      from buckets_ok_slot [OF old(2) bl valid [OF bl]] obtain b where
        b: "store ht ?p = Some (BucketPage b)" by blast
      from buckets_ok_slot [OF old(2) ib valid [OF ib]] obtain b2 where
        b2: "store ht ?p' = Some (BucketPage b2)" by blast
      have fb: "fetch_bucket ht ?p = Inr b" using b by (simp add: fetch_bucket_def)
      have fb2: "fetch_bucket ht ?p' = Inr b2" using b2 by (simp add: fetch_bucket_def)
      show ?thesis
      proof (cases "\<not> IsEmpty b \<and> \<not> IsEmpty b2")
        case True
        with run ldn \<open>ild = ld\<close> have "ht' = ht" by (simp add: fd gl gs gli gb gbi fb fb2)
        with stay show ?thesis by simp
      next
        case False
        define dead where "dead = (if IsEmpty b then ?p else ?p')"
        define sv where "sv = (if IsEmpty b then ?p' else ?p)"
        from map_slots_spec [OF bd, of "merge_slot dead sv (ld - 1)"] obtain d' where
          ms: "map_slots (merge_slot dead sv (ld - 1)) d = Inr d'"
              "max_depth d' = max_depth d" "gdn d' = gdn d"
              "length (bucket_page_ids d') = length (bucket_page_ids d)"
              "length (local_depths d') = length (local_depths d)"
              "\<forall>i<2 ^ gdn d.
                  bucket_page_ids d' ! i
                    = fst (merge_slot dead sv (ld - 1) i (bucket_page_ids d ! i, local_depths d ! i))
                \<and> local_depths d' ! i
                    = snd (merge_slot dead sv (ld - 1) i (bucket_page_ids d ! i, local_depths d ! i))"
          by blast
        define ht1 where "ht1 = (put_page ht dp (DirectoryPage d'))
                         \<lparr>store := (store (put_page ht dp (DirectoryPage d')))(dead := None)\<rparr>"
        have e: "try_merge (Suc n) ht dp bidx = try_merge n ht1 dp bidx"
        proof (cases "IsEmpty b")
          case True
          then have dd: "dead = ?p" "sv = ?p'" by (simp_all add: dead_def sv_def)
          from True ldn \<open>ild = ld\<close> show ?thesis
            by (simp add: fd gl gs gli gb gbi fb fb2 ms(1) [unfolded dd] Let_def ht1_def [unfolded dd])
        next
          case ne: False
          with False have e2: "IsEmpty b2" by simp
          from ne have dd: "dead = ?p'" "sv = ?p" by (simp_all add: dead_def sv_def)
          from ne e2 ldn \<open>ild = ld\<close> show ?thesis
            by (simp add: fd gl gs gli gb gbi fb fb2 ms(1) [unfolded dd] Let_def ht1_def [unfolded dd])
        qed
        have um: "unat (ld - 1) = m" using ldn gl(2) m by (simp add: unat_minus_one)
        then have u8: "unat (ucast (ld - 1) :: uint8_t) = m" using m31 by (simp add: unat_ucast_32_8)
        have s: "\<forall>i<2 ^ gdn d.
              slot_pid d' i = (if slot_pid d i = dead \<or> slot_pid d i = sv then sv else slot_pid d i)
              \<and> slot_ld d' i = (if slot_pid d i = dead \<or> slot_pid d i = sv then m else slot_ld d i)"
        proof (intro allI impI)
          fix i :: nat assume i: "i < 2 ^ gdn d"
          from ms(6) [rule_format, OF i] u8
          show "slot_pid d' i = (if slot_pid d i = dead \<or> slot_pid d i = sv then sv else slot_pid d i)
              \<and> slot_ld d' i = (if slot_pid d i = dead \<or> slot_pid d i = sv then m else slot_ld d i)"
            by (simp add: merge_slot_def slot_pid_def slot_ld_def)
        qed
        have ds: "(dead = ?p \<and> sv = slot_pid d (?bi XOR 2 ^ m))
                  \<or> (dead = slot_pid d (?bi XOR 2 ^ m) \<and> sv = ?p)"
          by (simp add: dead_def sv_def ui)
        obtain db where de: "store ht dead = Some (BucketPage db)" "bsize db = 0"
        proof (cases "IsEmpty b")
          case True
          with b show ?thesis by (intro that [of b]) (simp_all add: dead_def IsEmpty_def)
        next
          case ne: False
          with False have "IsEmpty b2" by simp
          with ne b2 show ?thesis by (intro that [of b2]) (simp_all add: dead_def IsEmpty_def)
        qed
        have st1: "store ht1 = ((store ht)(dp \<mapsto> DirectoryPage d'))(dead := None)"
          by (simp add: ht1_def)
        have np1: "next_page ht1 = next_page ht" by (simp add: ht1_def)
        have cfg: "same_config ht ht1" by (simp add: same_config_def ht1_def put_page_def)
        note mt = merge_table [OF ok da bl m il ds de ms(3,2,4,5) s st1 np1 cfg]
        have ok1: "table_ok ht1" using mt(1) by (simp add: step_ok_def)
        have bl1: "unat bidx < 2 ^ gdn d'" using bl ms(3) by simp
        from run e have "try_merge n ht1 dp bidx = Inr ht'" by simp
        from Suc.IH [OF this ok1 mt(2) bl1]
        have "step_ok ht1 ht' \<and> (\<exists>d'. dir_at ht' j dp d')" .
        with mt(1) show ?thesis by (auto intro: step_ok_trans)
      qed
    qed
  qed
qed

subsection \<open>The shrink\<close>

lemma put_page_same: "store ht p = Some c \<Longrightarrow> put_page ht p c = ht"
  by (simp add: put_page_def map_upd_triv)

lemma CanShrink_spec:
  assumes ok: "dir_ok das dmd d"
  shows "CanShrink d = Inr (\<forall>i<2 ^ gdn d. slot_ld d i < gdn d)"
proof -
  from dir_ok_bounds [OF ok] have bd: "gdn d < 32" "2 ^ gdn d \<le> length (local_depths d)"
    by simp_all
  have n: "unat (Size_directory d) = 2 ^ gdn d"
    using bd(1) by (simp add: unat_Size_directory gdn_def)
  have "list_all (\<lambda>depth. (ucast depth :: uint32_t) < global_depth d) (take (2 ^ gdn d) (local_depths d))
          = (\<forall>i<2 ^ gdn d. slot_ld d i < gdn d)"
    using bd(2) by (simp add: list_all_length word_less_nat_alt unat_ucast_8_32 slot_ld_def gdn_def)
  then show ?thesis using bd(2) by (simp add: CanShrink_def n)
qed

lemma shrink_step:
  assumes ok: "table_ok ht" and da: "dir_at ht j dp d"
    and can: "\<forall>i<2 ^ gdn d. slot_ld d i < gdn d"
  shows "step_ok ht (put_page ht dp (DirectoryPage (DecrGlobalDepth d)))"
    and "dir_at (put_page ht dp (DirectoryPage (DecrGlobalDepth d))) j dp (DecrGlobalDepth d)"
proof -
  let ?g = "gdn d"
  let ?d' = "DecrGlobalDepth d"
  note old = table_ok_dir_ok [OF ok da]
  note sl = dir_ok_slots [OF old(1)]
  have "slot_ld d 0 < ?g" using can by simp
  then have gpos: "0 < ?g" by simp
  then have gn: "global_depth d \<noteq> 0" by (auto simp: gdn_def)
  then have d': "?d' = d\<lparr>global_depth := global_depth d - 1\<rparr>"
    by (simp add: DecrGlobalDepth_def word_le_0_iff)
  have g': "gdn ?d' = ?g - 1" using gn by (simp add: d' gdn_def unat_minus_one)
  have sp: "\<And>i. slot_pid ?d' i = slot_pid d i" "\<And>i. slot_ld ?d' i = slot_ld d i"
    by (simp_all add: d' slot_pid_def slot_ld_def)
  have sub: "\<And>i::nat. i < 2 ^ (?g - 1) \<Longrightarrow> i < 2 ^ ?g"
  proof -
    fix i :: nat assume "i < 2 ^ (?g - 1)"
    moreover have "(2::nat) ^ (?g - 1) \<le> 2 ^ ?g" by (rule power_increasing) simp_all
    ultimately show "i < 2 ^ ?g" by linarith
  qed
  from dir_ok_bounds [OF old(1)] have bd: "unat (directory_max_depth ht) \<le> 31"
    "?g \<le> unat (directory_max_depth ht)"
    "length (bucket_page_ids d) = directory_array_size ht"
    "length (local_depths d) = directory_array_size ht"
    "max_depth d = directory_max_depth ht"
    by simp_all
  from old(1) have dm: "2 ^ unat (directory_max_depth ht) \<le> directory_array_size ht"
    by (simp add: dir_ok_def)
  have dok: "dir_ok (directory_array_size ht) (directory_max_depth ht) ?d'"
  proof (rule dir_okI)
    show "max_depth ?d' = directory_max_depth ht" using bd by (simp add: d')
    show "unat (directory_max_depth ht) \<le> 31" by fact
    show "2 ^ unat (directory_max_depth ht) \<le> directory_array_size ht" by fact
    show "gdn ?d' \<le> unat (directory_max_depth ht)" using g' bd by simp
    show "length (bucket_page_ids ?d') = directory_array_size ht" using bd by (simp add: d')
    show "length (local_depths ?d') = directory_array_size ht" using bd by (simp add: d')
  next
    fix i :: nat assume "i < 2 ^ gdn ?d'"
    then have "i < 2 ^ ?g" using g' sub by simp
    with can have "slot_ld d i < ?g" by simp
    then show "slot_ld ?d' i \<le> gdn ?d'" unfolding sp g' by simp
  next
    fix i i' :: nat assume "i < 2 ^ gdn ?d'" "i' < 2 ^ gdn ?d'"
    then have "i < 2 ^ ?g" "i' < 2 ^ ?g" using g' sub by simp_all
    then show "(slot_pid ?d' i = slot_pid ?d' i')
                 = (take_bit (slot_ld ?d' i) i = take_bit (slot_ld ?d' i) i')"
      unfolding sp using sl(2) by blast
  next
    fix i i' :: nat assume "i < 2 ^ gdn ?d'" "i' < 2 ^ gdn ?d'" "slot_pid ?d' i = slot_pid ?d' i'"
    then have "i < 2 ^ ?g" "i' < 2 ^ ?g" "slot_pid d i = slot_pid d i'" using g' sub sp by simp_all
    then show "slot_ld ?d' i = slot_ld ?d' i'" unfolding sp using sl(3) by blast
  qed
  have a: "\<forall>i<2 ^ gdn ?d'. \<exists>i0<2 ^ gdn d. slot_pid ?d' i = slot_pid d i0
                  \<and> slot_ld ?d' i \<le> slot_ld d i0
                  \<and> take_bit (slot_ld ?d' i) i = take_bit (slot_ld ?d' i) i0"
  proof (intro allI impI)
    fix i :: nat assume "i < 2 ^ gdn ?d'"
    then have "i < 2 ^ ?g" using g' sub by simp
    then show "\<exists>i0<2 ^ gdn d. slot_pid ?d' i = slot_pid d i0
                  \<and> slot_ld ?d' i \<le> slot_ld d i0
                  \<and> take_bit (slot_ld ?d' i) i = take_bit (slot_ld ?d' i) i0"
      by (intro exI [of _ i]) (simp add: sp)
  qed
  have b: "(\<exists>i<2 ^ gdn ?d'. slot_pid ?d' i = INVALID_PAGE_ID) \<longrightarrow> gdn ?d' = 0"
  proof
    assume "\<exists>i<2 ^ gdn ?d'. slot_pid ?d' i = INVALID_PAGE_ID"
    then obtain i where "i < 2 ^ ?g" "slot_pid d i = INVALID_PAGE_ID" using g' sub sp by auto
    with all_slots_valid [OF old(2) gpos] show "gdn ?d' = 0" by blast
  qed
  have c: "\<forall>h. slot_pid ?d' (take_bit (gdn ?d') h) = slot_pid d (take_bit (gdn d) h)"
  proof
    fix h :: nat
    let ?i = "take_bit ?g h"
    let ?i' = "take_bit (?g - 1) h"
    have i: "?i < 2 ^ ?g" by simp
    have i': "?i' < 2 ^ ?g" by (rule sub) simp
    have "slot_ld d ?i < ?g" using can i by blast
    then have ll: "slot_ld d ?i \<le> ?g - 1" "slot_ld d ?i \<le> ?g" by simp_all
    have "take_bit (slot_ld d ?i) ?i = take_bit (slot_ld d ?i) h"
      using ll(2) by (simp add: min.absorb1)
    moreover have "take_bit (slot_ld d ?i) ?i' = take_bit (slot_ld d ?i) h"
      using ll(1) by (simp add: min.absorb1)
    ultimately have "take_bit (slot_ld d ?i) ?i = take_bit (slot_ld d ?i) ?i'" by simp
    then have "slot_pid d ?i = slot_pid d ?i'" using sl(2) [rule_format, OF i i'] by simp
    then show "slot_pid ?d' (take_bit (gdn ?d') h) = slot_pid d (take_bit (gdn d) h)"
      unfolding sp g' by simp
  qed
  from dir_only_update [OF ok da dok a b c]
  show "step_ok ht (put_page ht dp (DirectoryPage ?d'))"
    and "dir_at (put_page ht dp (DirectoryPage ?d')) j dp ?d'"
    by simp_all
qed

lemma shrink_loop_step:
  "shrink_loop d = Inr d2 \<Longrightarrow> table_ok ht \<Longrightarrow> dir_at ht j dp d \<Longrightarrow>
     step_ok ht (put_page ht dp (DirectoryPage d2))"
proof (induction d arbitrary: ht rule: shrink_loop.induct)
  case (1 d)
  note run = "1.prems"(1) and ok = "1.prems"(2) and da = "1.prems"(3)
  note old = table_ok_dir_ok [OF ok da]
  note cs = CanShrink_spec [OF old(1)]
  show ?case
  proof (cases "\<forall>i<2 ^ gdn d. slot_ld d i < gdn d")
    case True
    with run cs have r: "shrink_loop (DecrGlobalDepth d) = Inr d2"
      by (subst (asm) shrink_loop.simps) simp
    note st = shrink_step [OF ok da True]
    have ok1: "table_ok (put_page ht dp (DirectoryPage (DecrGlobalDepth d)))"
      using st(1) by (simp add: step_ok_def)
    from "1.IH" [OF cs True r ok1 st(2)]
    have "step_ok (put_page ht dp (DirectoryPage (DecrGlobalDepth d))) (put_page ht dp (DirectoryPage d2))"
      by (simp add: put_page_put)
    with st(1) show ?thesis by (rule step_ok_trans)
  next
    case False
    with run cs have "d2 = d" by (subst (asm) shrink_loop.simps) simp
    moreover have "store ht dp = Some (DirectoryPage d)" using da by (simp add: dir_at_def)
    ultimately show ?thesis using ok by (simp add: put_page_same step_ok_refl)
  qed
qed

subsection \<open>\<open>Remove\<close>\<close>

lemma Remove_step:
  assumes run: "Remove ht k' = Inr (r, ht')" and ok: "table_ok ht"
  shows "table_ok ht' \<and> (\<forall>k v. (k \<noteq> k' \<or> \<not> r) \<longrightarrow> present ht k v \<longrightarrow> present ht' k v)"
proof (cases "header_page_id ht = INVALID_PAGE_ID")
  case True
  with run have "ht' = ht" by (simp add: Remove_def)
  with ok show ?thesis by simp
next
  case hv: False
  note cf = table_ok_config [OF ok]
  from table_ok_header [OF ok] obtain h where h: "header_of ht h" by blast
  have hst: "store ht (header_page_id ht) = Some (HeaderPage h)" "hmax_depth h = header_max_depth ht"
    "length (directory_page_ids h) = header_array_size ht"
    using h by (simp_all add: header_of_def)
  have fh: "fetch_header ht (header_page_id ht) = Inr h" using hst by (simp add: fetch_header_def)
  define didx where "didx = HashToDirectoryIndex h (Hash ht k')"
  let ?j = "unat didx"
  have j: "dir_index ht k' = ?j"
    by (simp add: didx_def unat_HashToDirectoryIndex dir_index_def hdn_def hst)
  have jl: "?j < 2 ^ hdn ht" using dir_index_less [of ht k'] cf j by (simp add: config_ok_def)
  have jlen: "?j < length (directory_page_ids h)" using jl cf hst by (simp add: config_ok_def)
  have gd: "GetDirectoryPageId h didx = Inr (directory_page_ids h ! ?j)"
    using jlen by (simp add: GetDirectoryPageId_def)
  let ?dp = "directory_page_ids h ! ?j"
  show ?thesis
  proof (cases "?dp = INVALID_PAGE_ID")
    case True
    with run hv have "ht' = ht" by (simp add: Remove_def fh gd flip: didx_def)
    with ok show ?thesis by simp
  next
    case dv: False
    from table_ok_dir [OF ok h jl dv] obtain d where da: "dir_at ht ?j ?dp d" .
    note old = table_ok_dir_ok [OF ok da]
    define bidx where "bidx = HashToBucketIndex d (Hash ht k')"
    let ?bi = "unat bidx"
    have bi: "?bi = bkt_index d ht k'"
      by (simp add: bidx_def unat_HashToBucketIndex bkt_index_def gdn_def)
    have bl: "?bi < 2 ^ gdn d" using bi bkt_index_less [of d ht k'] by simp
    have dpst: "store ht ?dp = Some (DirectoryPage d)" using da by (simp add: dir_at_def)
    have fd: "fetch_directory ht ?dp = Inr d" using dpst by (simp add: fetch_directory_def)
    have gb: "GetBucketPageId d bidx = Inr (slot_pid d ?bi)"
      using dir_ok_GetBucketPageId [OF old(1) bl] .
    let ?pid = "slot_pid d ?bi"
    show ?thesis
    proof (cases "?pid = INVALID_PAGE_ID")
      case True
      with run hv dv have "ht' = ht"
        by (simp add: Remove_def fh gd fd Let_def gb flip: didx_def bidx_def)
      with ok show ?thesis by simp
    next
      case pv: False
      from buckets_ok_slot [OF old(2) bl pv] obtain b where
        b: "store ht ?pid = Some (BucketPage b)" "bucket_ok ht ?j (slot_ld d ?bi) ?bi b" by blast
      have fb: "fetch_bucket ht ?pid = Inr b" using b by (simp add: fetch_bucket_def)
      note red = Remove_def fh gd fd Let_def gb fb
      show ?thesis
      proof (cases "Remove_bucket b k'")
        case (Inl e)
        with run hv dv pv show ?thesis by (simp add: red flip: didx_def bidx_def)
      next
        case (Inr res)
        obtain removed b' where res: "res = (removed, b')" by (cases res)
        with Inr have rb: "Remove_bucket b k' = Inr (removed, b')" by simp
        show ?thesis
        proof (cases removed)
          case False
          with run hv dv pv rb have "ht' = ht" by (simp add: red flip: didx_def bidx_def)
          with ok show ?thesis by simp
        next
          case True
          with rb have rt: "Remove_bucket b k' = Inr (True, b')" by simp
          have wf: "bsize b \<le> length (array b)" "sorted_wrt (<) (map fst (entries b))"
            using bucket_ok_wf(2) [OF cf b(2)] b(2) by (simp_all add: bucket_ok_def)
          from Remove_bucket_True [OF wf rt] have f:
            "set (entries b') \<subseteq> set (entries b)"
            "\<forall>k v. (k, v) \<in> set (entries b) \<and> k \<noteq> k' \<longrightarrow> (k, v) \<in> set (entries b')"
            "sorted_wrt (<) (map fst (entries b'))" "bsize b' < bsize b"
            "max_size b' = max_size b" "length (array b') = length (array b)"
            by simp_all
          define htr where "htr = put_page ht ?pid (BucketPage b')"
          have okr: "table_ok htr"
            unfolding htr_def
          proof (rule bucket_update [OF ok da bl refl pv b(1)])
            show "max_size b' = max_size b" "length (array b') = length (array b)"
              "sorted_wrt (<) (map fst (entries b'))"
              using f by simp_all
            show "bsize b' \<le> max_size b'" using f b(2) by (simp add: bucket_ok_def)
            show "\<forall>e\<in>set (entries b'). e \<in> set (entries b)
                    \<or> (dir_index ht (fst e) = ?j \<and> take_bit (gdn d) (unat (Hash ht (fst e))) = ?bi)"
              using f(1) by blast
          qed
          have pr: "\<And>k v. k \<noteq> k' \<Longrightarrow> present ht k v \<Longrightarrow> present htr k v"
          proof -
            fix k v assume ne: "k \<noteq> k'" and p: "present ht k v"
            show "present htr k v"
              unfolding htr_def
              by (rule bucket_update_present [OF ok da bl refl pv b(1) _ p]) (use f(2) ne in blast)
          qed
          have own0: "owns ht ?j ?pid" using owns_slot [OF da bl pv] .
          have ne: "?pid \<noteq> ?dp" using b(1) dpst by auto
          have dar: "dir_at htr ?j ?dp d"
          proof (rule dir_frame(1) [OF ok da])
            show "same_config ht htr" by (simp add: htr_def)
            show "\<forall>p. p \<noteq> ?dp \<longrightarrow> \<not> owns ht ?j p \<longrightarrow> p \<in> dom (store ht)
                     \<longrightarrow> store htr p = store ht p"
              using own0 by (auto simp: htr_def)
            show "store htr ?dp = Some (DirectoryPage d)" using ne dpst by (simp add: htr_def)
          qed
          show ?thesis
          proof (cases "TryMergeBucket htr ?dp bidx")
            case (Inl e)
            with run hv dv pv rt show ?thesis by (simp add: red htr_def flip: didx_def bidx_def)
          next
            case tm: (Inr ht1)
            then have "try_merge 256 htr ?dp bidx = Inr ht1" by (simp add: TryMergeBucket_def)
            from try_merge_step [OF this okr dar bl] obtain d1 where
              m: "step_ok htr ht1" "dir_at ht1 ?j ?dp d1" by blast
            have ok1: "table_ok ht1" using m(1) by (simp add: step_ok_def)
            have fd1: "fetch_directory ht1 ?dp = Inr d1"
              using m(2) by (simp add: fetch_directory_def dir_at_def)
            show ?thesis
            proof (cases "shrink_loop d1")
              case (Inl e)
              with run hv dv pv rt tm show ?thesis
                by (simp add: red htr_def [symmetric] fd1 flip: didx_def bidx_def)
            next
              case sh: (Inr d2)
              with run hv dv pv rt tm have e: "ht' = put_page ht1 ?dp (DirectoryPage d2)" "r"
                by (simp_all add: red htr_def [symmetric] fd1 flip: didx_def bidx_def)
              from shrink_loop_step [OF sh ok1 m(2)] e have s2: "step_ok ht1 ht'" by simp
              with m(1) have s: "step_ok htr ht'" by (rule step_ok_trans)
              then have "table_ok ht'" by (simp add: step_ok_def)
              moreover have "\<forall>k v. (k \<noteq> k' \<or> \<not> r) \<longrightarrow> present ht k v \<longrightarrow> present ht' k v"
                using pr s e(2) by (auto simp: step_ok_def)
              ultimately show ?thesis by simp
            qed
          qed
        qed
      qed
    qed
  qed
qed

subsection \<open>Sequences of calls\<close>

lemma new_table_ok:
  assumes "bms \<le> bas" "unat hmd \<le> 32" "2 ^ unat hmd \<le> has" "unat dmd \<le> 31" "2 ^ unat dmd \<le> das"
    "first_page \<noteq> INVALID_PAGE_ID"
  shows "table_ok (new_DiskExtendibleHashTable hf hmd dmd bms has das bas first_page
                     :: ('k::linorder, 'v) DiskExtendibleHashTable)"
proof -
  let ?ht = "new_DiskExtendibleHashTable hf hmd dmd bms has das bas first_page
               :: ('k, 'v) DiskExtendibleHashTable"
  let ?h = "Init_header hmd (zero_header has)"
  have hd: "hdn ?ht = unat hmd" by (simp add: hdn_def new_DiskExtendibleHashTable_def)
  have ho: "header_of ?ht ?h"
    by (simp add: header_of_def new_DiskExtendibleHashTable_def Init_header_def zero_header_def)
  have ids: "\<And>j. j < 2 ^ hdn ?ht \<Longrightarrow> directory_page_ids ?h ! j = INVALID_PAGE_ID"
  proof -
    fix j :: nat assume "j < 2 ^ hdn ?ht"
    with assms(3) have "j < has" by (simp add: hd)
    then show "directory_page_ids ?h ! j = INVALID_PAGE_ID"
      by (simp add: Init_header_def zero_header_def)
  qed
  have nodir: "\<And>j dp d. \<not> dir_at ?ht j dp d"
  proof
    fix j dp d assume "dir_at ?ht j dp d"
    then obtain h where hh: "header_of ?ht h" "directory_page_ids h ! j = dp"
      and jl: "j < 2 ^ hdn ?ht" and v: "dp \<noteq> INVALID_PAGE_ID"
      unfolding dir_at_def by blast
    from header_of_unique [OF ho hh(1)] hh(2) have "directory_page_ids ?h ! j = dp" by simp
    with ids [OF jl] v show False by simp
  qed
  show ?thesis
  proof (rule table_okI [where h = ?h])
    show "config_ok ?ht"
      using assms by (simp add: config_ok_def hdn_def new_DiskExtendibleHashTable_def)
    show "header_of ?ht ?h" by fact
  next
    fix j j'
    assume "j < 2 ^ hdn ?ht" "directory_page_ids ?h ! j \<noteq> INVALID_PAGE_ID"
    with ids show "j = j'" by simp
  next
    fix j dp d assume "dir_at ?ht j dp d"
    with nodir show "dir_ok (directory_array_size ?ht) (directory_max_depth ?ht) d \<and> buckets_ok ?ht j d"
      by simp
  next
    fix j
    assume "j < 2 ^ hdn ?ht" "directory_page_ids ?h ! j \<noteq> INVALID_PAGE_ID"
    with ids show "\<exists>d. store ?ht (directory_page_ids ?h ! j) = Some (DirectoryPage d)" by simp
  next
    fix p assume "p \<in> dom (store ?ht)"
    then have "p = first_page" by (simp add: new_DiskExtendibleHashTable_def split: if_splits)
    with assms(6) show "p < next_page ?ht"
      by (simp add: new_DiskExtendibleHashTable_def word_less_succ)
  next
    fix j j' p assume "owns ?ht j p"
    with nodir show "j = j'" by (simp add: owns_def)
  qed
qed

lemma table_step_ok:
  assumes "table_step ht op = Some ht'" "table_ok ht"
  shows "table_ok ht'" and "op \<noteq> OpRemove_key k \<Longrightarrow> present ht k v \<Longrightarrow> present ht' k v"
proof -
  have "table_ok ht' \<and> (op \<noteq> OpRemove_key k \<longrightarrow> present ht k v \<longrightarrow> present ht' k v)"
  proof (cases op)
    case (OpInsert k' v')
    with assms(1) obtain r where "Insert ht k' v' = Some (Inr (r, ht'))"
      by (auto split: option.splits sum.splits)
    from Insert_step(1) [OF this assms(2)] show ?thesis by (simp add: step_ok_def)
  next
    case (OpRemove_key k')
    with assms(1) obtain r where "Remove ht k' = Inr (r, ht')"
      by (auto split: sum.splits)
    from Remove_step [OF this assms(2)] OpRemove_key show ?thesis by auto
  qed
  then show "table_ok ht'" and "op \<noteq> OpRemove_key k \<Longrightarrow> present ht k v \<Longrightarrow> present ht' k v"
    by simp_all
qed

lemma table_run_ok:
  "table_run ht ops = Some ht' \<Longrightarrow> table_ok ht \<Longrightarrow>
     table_ok ht' \<and> (OpRemove_key k \<notin> set ops \<longrightarrow> present ht k v \<longrightarrow> present ht' k v)"
proof (induction ops arbitrary: ht)
  case Nil
  then show ?case by simp
next
  case (Cons op ops)
  from Cons.prems(1) obtain ht1 where s: "table_step ht op = Some ht1" "table_run ht1 ops = Some ht'"
    by (auto split: option.splits)
  note st = table_step_ok [OF s(1) Cons.prems(2)]
  from Cons.IH [OF s(2) st(1)] st(2) [of k v] show ?case by auto
qed

lemma table_trace_run:
  "table_trace ht ops = Some rs \<Longrightarrow> \<exists>ht'. table_run ht ops = Some ht'"
proof (induction ops arbitrary: ht rs)
  case Nil
  then show ?case by simp
next
  case (Cons op ops)
  show ?case
  proof (cases op)
    case (OpInsert k v)
    with Cons.prems obtain r ht1 rs1 where
      a: "Insert ht k v = Some (Inr (r, ht1))" "table_trace ht1 ops = Some rs1"
      by (auto split: option.splits sum.splits)
    from Cons.IH [OF a(2)] a(1) OpInsert show ?thesis by simp
  next
    case (OpRemove_key k)
    with Cons.prems obtain r ht1 rs1 where
      a: "Remove ht k = Inr (r, ht1)" "table_trace ht1 ops = Some rs1"
      by (auto split: sum.splits)
    from Cons.IH [OF a(2)] a(1) OpRemove_key show ?thesis by simp
  qed
qed

lemma table_trace_split:
  "table_trace ht (ops0 @ OpInsert key val # ops) = Some (rs0 @ True # rs) \<Longrightarrow>
   length rs0 = length ops0 \<Longrightarrow>
   \<exists>ht0 ht1 ht2. table_run ht ops0 = Some ht0 \<and> Insert ht0 key val = Some (Inr (True, ht1))
      \<and> table_run ht1 ops = Some ht2
      \<and> table_run ht (ops0 @ OpInsert key val # ops) = Some ht2"
proof (induction ops0 arbitrary: ht rs0)
  case Nil
  then have rs0: "rs0 = []" by simp
  with Nil.prems(1) obtain ht1 where
    a: "Insert ht key val = Some (Inr (True, ht1))" "table_trace ht1 ops = Some rs"
    by (auto split: option.splits sum.splits)
  from table_trace_run [OF a(2)] obtain ht2 where "table_run ht1 ops = Some ht2" ..
  with a(1) show ?case by simp
next
  case (Cons op ops0)
  from Cons.prems(2) obtain r0 rs0' where rs0: "rs0 = r0 # rs0'" "length rs0' = length ops0"
    by (cases rs0) simp_all
  show ?case
  proof (cases op)
    case (OpInsert k v)
    with Cons.prems(1) rs0 obtain r ht' where
      a: "Insert ht k v = Some (Inr (r, ht'))"
         "table_trace ht' (ops0 @ OpInsert key val # ops) = Some (rs0' @ True # rs)"
      by (auto split: option.splits sum.splits)
    from Cons.IH [OF a(2) rs0(2)] a(1) OpInsert show ?thesis by simp
  next
    case (OpRemove_key k)
    with Cons.prems(1) rs0 obtain r ht' where
      a: "Remove ht k = Inr (r, ht')"
         "table_trace ht' (ops0 @ OpInsert key val # ops) = Some (rs0' @ True # rs)"
      by (auto split: sum.splits)
    from Cons.IH [OF a(2) rs0(2)] a(1) OpRemove_key show ?thesis by simp
  qed
qed

text \<open>
  On a table as the constructor leaves it (the arrays of the pages large enough for
  the depths and for \<open>bucket_max_size\<close>), take any run of calls of \<^verbatim>\<open>Insert\<close> and \<^verbatim>\<open>Remove\<close>
  in which every call returns; \<open>table_trace\<close> gives the flags the calls return. If a
  call \<^verbatim>\<open>Insert(key, val)\<close> of the run returns true and no \<^verbatim>\<open>Remove(key)\<close> follows it in the
  run, then \<^verbatim>\<open>GetValue(key)\<close> after the run returns true and its result is \<open>val\<close>, whatever
  the other calls are: inserts and removes of other keys, with the splits, the growth
  of the directory, the merges and the shrinks they cause, and further inserts of
  \<open>key\<close>. This holds of the table on a pool that keeps a page in its frame while a
  pointer into it is in use; \<^verbatim>\<open>SplitBucket\<close>, \<^verbatim>\<open>TryMergeBucket\<close> and \<^verbatim>\<open>FindBucketPageID\<close> are
  as the spec describes them. The example is a run with a split, growth of the
  directory, merges and a shrink.
\<close>

lemma Insert_then_GetValue:
  assumes "bms \<le> bas" "unat hmd \<le> 32" "2 ^ unat hmd \<le> has" "unat dmd \<le> 31" "2 ^ unat dmd \<le> das"
    "first_page \<noteq> INVALID_PAGE_ID"
    and tr: "table_trace (new_DiskExtendibleHashTable hf hmd dmd bms has das bas first_page)
               (ops0 @ OpInsert key val # ops) = Some (rs0 @ True # rs)"
    and len: "length rs0 = length ops0"
    and nr: "OpRemove_key key \<notin> set ops"
  shows "get_after (new_DiskExtendibleHashTable hf hmd dmd bms has das bas first_page)
           (ops0 @ OpInsert key val # ops) key = Some (Inr (True, [val]))"
proof -
  let ?t = "new_DiskExtendibleHashTable hf hmd dmd bms has das bas first_page"
  have ok: "table_ok ?t" using assms(1-6) by (rule new_table_ok)
  from table_trace_split [OF tr len] obtain ht0 ht1 ht2 where
    r: "table_run ?t ops0 = Some ht0" "Insert ht0 key val = Some (Inr (True, ht1))"
       "table_run ht1 ops = Some ht2" "table_run ?t (ops0 @ OpInsert key val # ops) = Some ht2"
    by blast
  have ok0: "table_ok ht0" using table_run_ok [OF r(1) ok] by simp
  note i = Insert_step [OF r(2) ok0]
  have ok1: "table_ok ht1" using i(1) by (simp add: step_ok_def)
  have p1: "present ht1 key val" using i(2) by simp
  from table_run_ok [OF r(3) ok1, of key val] nr p1
  have "table_ok ht2" "present ht2 key val" by simp_all
  then have "GetValue ht2 key [] = Inr (True, [] @ [val])" by (rule present_GetValue)
  with r(4) show ?thesis by (simp add: get_after_def)
qed

lemma Insert_then_GetValue_example:
  "table_trace example_table
       ([OpInsert 1 10, OpInsert 5 50] @ OpInsert 3 30 # [OpInsert 7 70, OpRemove_key 1, OpRemove_key 5, OpInsert 9 90])
     = Some ([True, True] @ True # [True, True, True, True])
   \<and> get_after example_table
       ([OpInsert 1 10, OpInsert 5 50] @ OpInsert 3 30 # [OpInsert 7 70, OpRemove_key 1, OpRemove_key 5, OpInsert 9 90]) 3
     = Some (Inr (True, [30]))"
proof -
  have tr: "table_trace (new_DiskExtendibleHashTable int_hash 0 2 2 512 512 511 0)
       ([OpInsert 1 10, OpInsert 5 50] @ OpInsert 3 30 # [OpInsert 7 70, OpRemove_key 1, OpRemove_key 5, OpInsert 9 90])
     = Some ([True, True] @ True # [True, True, True, True])"
    by code_simp
  have cfg: "(2::nat) \<le> 511" "unat (0 :: uint32_t) \<le> 32" "2 ^ unat (0 :: uint32_t) \<le> (512::nat)"
    "unat (2 :: uint32_t) \<le> 31" "2 ^ unat (2 :: uint32_t) \<le> (512::nat)"
    "(0 :: page_id_t) \<noteq> INVALID_PAGE_ID"
    by (simp_all add: INVALID_PAGE_ID_def)
  have nr: "OpRemove_key (3::int) \<notin> set [OpInsert 7 (70::int), OpRemove_key 1, OpRemove_key 5, OpInsert 9 90]"
    by simp
  from Insert_then_GetValue [OF cfg tr _ nr] tr show ?thesis
    by (simp add: example_table_def)
qed

end
